theory Spec2Isabelle
  imports Complex_Main
begin

section \<open>Fatal errors\<close>

text \<open>
  The library reports every violated internal contract by calling \<open>error(message)\<close>,
  which prints the message and exits the process. In the model such a call is the result
  \<open>Inl (Fatal message)\<close>. A branch that can only be reached at compile time (a failing
  \<open>static_assert\<close>) is \<open>Inl (StaticAssert message)\<close>, and an operation whose behaviour C++
  leaves undefined (a read through a null pointer, an access past the end of a vector) is
  \<open>Inl (Undefined what)\<close>.

  A \<open>double\<close> is modelled as a \<open>real\<close>: rounding is not modelled and every value is finite.
  Comparisons of doubles are exact, so the bin search is modelled exactly on finite values.
  Where the C++ divides by a zero \<open>double\<close> it obtains an infinity or a NaN and carries on;
  the model has no such values and stops there with \<open>Inl NotFinite\<close>.
\<close>

datatype error = Fatal string | StaticAssert string | Undefined string | NotFinite

fun bind_err :: "error + 'a \<Rightarrow> ('a \<Rightarrow> error + 'b) \<Rightarrow> error + 'b" where
  "bind_err (Inl e) f = Inl e"
| "bind_err (Inr x) f = f x"

section \<open>The partitioner (partition.hpp)\<close>

text \<open>
  \<open>std::size_t\<close> and \<open>std::uint64_t\<close> are modelled as \<open>nat\<close>. Every index computed below
  is bounded by the number of points that the caller passes in (see \<open>calc_chunk_slice_stop_le\<close>),
  so no operation wraps around, and \<open>safe_cast\<close> between the two unsigned 64-bit types is the
  identity.
\<close>

record SlcStruct =
  start :: nat
  stop :: nat

text \<open>The lambda \<open>calc_chunk_size\<close> inside \<open>calc_chunk_slice\<close>.\<close>

definition calc_chunk_size :: "nat \<Rightarrow> nat \<Rightarrow> nat \<Rightarrow> nat" where
  "calc_chunk_size array_len num_chunks chunk_index =
     array_len div num_chunks + (if chunk_index < array_len mod num_chunks then 1 else 0)"

text \<open>
  One iteration of the loop of \<open>calc_chunk_slice\<close>, on the pair
  \<open>(start_index, stop_index)\<close>.
\<close>

definition chunk_loop_body :: "nat \<Rightarrow> nat \<Rightarrow> nat \<Rightarrow> nat \<times> nat \<Rightarrow> nat \<times> nat" where
  "chunk_loop_body array_len num_chunks cur_chunk_index s =
     (snd s, snd s + calc_chunk_size array_len num_chunks cur_chunk_index)"

text \<open>
  The loop \<open>for (cur_chunk_index = 0; cur_chunk_index <= chunk_index; cur_chunk_index++)\<close>
  started from \<open>start_index = stop_index = 0\<close>.
\<close>

definition chunk_loop :: "nat \<Rightarrow> nat \<Rightarrow> nat \<Rightarrow> nat \<times> nat" where
  "chunk_loop array_len num_chunks chunk_index =
     fold (chunk_loop_body array_len num_chunks) [0..<Suc chunk_index] (0, 0)"

definition calc_chunk_slice :: "nat \<Rightarrow> nat \<Rightarrow> nat \<Rightarrow> error + SlcStruct" where
  "calc_chunk_slice chunk_index array_len num_chunks =
     (if array_len < num_chunks \<or> num_chunks \<le> chunk_index
      then Inl (Fatal ''something is very wrong'')
      else Inr \<lparr>start = fst (chunk_loop array_len num_chunks chunk_index),
                stop = snd (chunk_loop array_len num_chunks chunk_index)\<rparr>)"

definition num_dist_array_chunks_auto :: "nat \<Rightarrow> nat" where
  "num_dist_array_chunks_auto segments = (segments - 1) * segments div 2 + segments"

record StatTask =
  start_A :: nat
  stop_A :: nat
  start_B :: nat
  stop_B :: nat

record AutoSFPartitionStrat =
  n_points :: nat
  num_segments :: nat

definition build_StatTask_auto :: "AutoSFPartitionStrat \<Rightarrow> nat \<times> nat \<Rightarrow> error + StatTask" where
  "build_StatTask_auto strat index_2D =
     (if n_points strat \<le> 1 then Inl (Fatal ''not enough points'')
      else
        let n_dist_matrix_elements = n_points strat - 1 in
        if fst index_2D = snd index_2D then
          bind_err (calc_chunk_slice (fst index_2D) n_dist_matrix_elements (num_segments strat))
            (\<lambda>tmp. Inr \<lparr>start_A = start tmp, stop_A = stop tmp + 1, start_B = 0, stop_B = 0\<rparr>)
        else
          bind_err (calc_chunk_slice (fst index_2D) n_dist_matrix_elements (num_segments strat))
            (\<lambda>ax_0.
          bind_err (calc_chunk_slice (snd index_2D) n_dist_matrix_elements (num_segments strat))
            (\<lambda>ax_1. Inr \<lparr>start_A = start ax_1 + 1, stop_A = stop ax_1 + 1,
                           start_B = start ax_0, stop_B = stop ax_0\<rparr>)))"

text \<open>
  The search loop of \<open>AutoSFPartitionStrat::create\<close>:
  \<open>for (cur_num_segments = 2;; cur_num_segments++)\<close> with its two \<open>break\<close>s; the value is
  the \<open>num_segments\<close> chosen.
\<close>

function create_loop :: "nat \<Rightarrow> nat \<Rightarrow> nat \<Rightarrow> nat" where
  "create_loop nproc max_segments cur_num_segments =
     (if cur_num_segments \<ge> max_segments then max_segments
      else if num_dist_array_chunks_auto cur_num_segments \<ge> 3 * nproc then cur_num_segments
      else create_loop nproc max_segments (cur_num_segments + 1))"
  by pat_completeness auto
termination
  by (relation "measure (\<lambda>(nproc, max_segments, cur). max_segments - cur)") auto

declare create_loop.simps [simp del]

definition create_auto :: "nat \<Rightarrow> nat \<Rightarrow> bool \<Rightarrow> error + AutoSFPartitionStrat" where
  "create_auto nproc n_pts skip_small_prob_check =
     (if nproc = 0 then Inl (Fatal ''nproc can't be zero'')
      else if n_pts \<le> 1 then Inl (Fatal ''n_points must exceed 1'')
      else if nproc > 60
        then Inl (Fatal ''Probably want to rethink partitioning strategy for so many proc'')
      else
        let max_segments = (if n_pts \<le> 4 then 1 else (n_pts - 1) div 2);
            is_small_problem = ((\<not> skip_small_prob_check) \<and> n_pts \<le> 1000)
        in
        if is_small_problem \<or> nproc = 1 \<or> max_segments = 1
        then Inr \<lparr>n_points = n_pts, num_segments = 1\<rparr>
        else
          let num_segs = create_loop nproc max_segments 2 in
          if num_segs * 2 + 1 > n_pts then Inl (Fatal ''too many segments'')
          else Inr \<lparr>n_points = n_pts, num_segments = num_segs\<rparr>)"

record CrossSFPartitionStrat =
  n_points_A :: nat
  num_segments_A :: nat
  n_points_B :: nat
  num_segments_B :: nat

definition build_StatTask_cross :: "CrossSFPartitionStrat \<Rightarrow> nat \<times> nat \<Rightarrow> error + StatTask" where
  "build_StatTask_cross strat index_2D =
     (if fst index_2D \<ge> num_segments_A strat \<or> snd index_2D \<ge> num_segments_B strat
      then Inl (Fatal ''index_2D contains a value that is too large'')
      else
        bind_err (calc_chunk_slice (fst index_2D) (n_points_A strat) (num_segments_A strat))
          (\<lambda>slice_A.
        bind_err (calc_chunk_slice (snd index_2D) (n_points_B strat) (num_segments_B strat))
          (\<lambda>slice_B. Inr \<lparr>start_A = start slice_A, stop_A = stop slice_A,
                           start_B = start slice_B, stop_B = stop slice_B\<rparr>)))"

section \<open>Pair enumeration of the kernel (vsf.cpp)\<close>

text \<open>
  The two nested loops of \<open>process_data\<close>: \<open>i_a\<close> runs over \<open>[0, n_points_a)\<close> and \<open>i_b\<close>
  over \<open>[i_b_start, n_points_b)\<close>, where \<open>i_b_start\<close> is \<open>i_a + 1\<close> when the template
  argument \<open>duplicated_points\<close> is true and \<open>0\<close> otherwise. The list holds the index pairs
  in the order in which the loops visit them.
\<close>

definition pair_indices :: "bool \<Rightarrow> nat \<Rightarrow> nat \<Rightarrow> (nat \<times> nat) list" where
  "pair_indices duplicated_points n_points_a n_points_b =
     concat (map (\<lambda>i_a. map (\<lambda>i_b. (i_a, i_b))
                          [(if duplicated_points then i_a + 1 else 0)..<n_points_b])
                 [0..<n_points_a])"

text \<open>
  \<open>process_TaskIt_\<close> hands \<open>process_data\<close> the point arrays advanced by \<open>start_A\<close> and
  \<open>start_B\<close>, with lengths \<open>stop_A - start_A\<close> and \<open>stop_B - start_B\<close>; for an auto task
  (\<open>start_B == stop_B == 0\<close> in a calculation on duplicated points) it passes the A range
  twice and enumerates the triangle. \<open>task_pairs\<close> lists the pairs of one task as indices
  into the caller's arrays, first component from A's range, second from B's.
\<close>

definition task_pairs :: "bool \<Rightarrow> StatTask \<Rightarrow> (nat \<times> nat) list" where
  "task_pairs duplicated_points stat_task =
     (if duplicated_points \<and> start_B stat_task = stop_B stat_task \<and> stop_B stat_task = 0
      then map (\<lambda>(i_a, i_b). (start_A stat_task + i_a, start_A stat_task + i_b))
             (pair_indices True (stop_A stat_task - start_A stat_task)
                                (stop_A stat_task - start_A stat_task))
      else map (\<lambda>(i_a, i_b). (start_A stat_task + i_a, start_B stat_task + i_b))
             (pair_indices False (stop_A stat_task - start_A stat_task)
                                 (stop_B stat_task - start_B stat_task)))"

text \<open>An unordered pair of point indices, written smaller index first.\<close>

definition unordered :: "nat \<times> nat \<Rightarrow> nat \<times> nat" where
  "unordered p = (min (fst p) (snd p), max (fst p) (snd p))"

text \<open>
  The unordered pairs that the kernel visits for the task of an auto strategy at a 2D
  index, and the ordered pairs for the task of a cross strategy. No pair is visited when
  \<open>build_StatTask\<close> aborts.
\<close>

definition auto_task_pairs :: "AutoSFPartitionStrat \<Rightarrow> nat \<times> nat \<Rightarrow> (nat \<times> nat) set" where
  "auto_task_pairs strat index_2D =
     (case build_StatTask_auto strat index_2D of
        Inl e \<Rightarrow> {}
      | Inr stat_task \<Rightarrow> unordered ` set (task_pairs True stat_task))"

definition cross_task_pairs :: "CrossSFPartitionStrat \<Rightarrow> nat \<times> nat \<Rightarrow> (nat \<times> nat) set" where
  "cross_task_pairs strat index_2D =
     (case build_StatTask_cross strat index_2D of
        Inl e \<Rightarrow> {}
      | Inr stat_task \<Rightarrow> set (task_pairs False stat_task))"

text \<open>
  The 2D indices that \<open>TaskIt\<close> walks through: for an auto strategy the upper triangle
  \<open>i \<le> j < num_segments\<close> (\<open>increment2D_index\<close> restarts a row at \<open>index[1] = index[0]\<close>),
  for a cross strategy the rectangle \<open>i < num_segments_A\<close>, \<open>j < num_segments_B\<close>.
\<close>

definition auto_indices :: "AutoSFPartitionStrat \<Rightarrow> (nat \<times> nat) set" where
  "auto_indices strat = {(i, j). i \<le> j \<and> j < num_segments strat}"

definition cross_indices :: "CrossSFPartitionStrat \<Rightarrow> (nat \<times> nat) set" where
  "cross_indices strat = {(i, j). i < num_segments_A strat \<and> j < num_segments_B strat}"

text \<open>
  The strategies that the partition laws are about. An auto strategy is valid when
  \<open>n_points \<ge> 2\<close>, \<open>num_segments \<ge> 1\<close> and \<open>2 * num_segments + 1 \<le> n_points\<close> (the bound that
  \<open>create\<close> checks). A cross strategy is valid when each axis has at least one segment and
  no more segments than points, which is what \<open>calc_chunk_slice\<close> demands.
\<close>

definition valid_auto_strategy :: "AutoSFPartitionStrat \<Rightarrow> bool" where
  "valid_auto_strategy strat \<longleftrightarrow>
     2 \<le> n_points strat \<and> 1 \<le> num_segments strat \<and> 2 * num_segments strat + 1 \<le> n_points strat"

definition valid_cross_strategy :: "CrossSFPartitionStrat \<Rightarrow> bool" where
  "valid_cross_strategy strat \<longleftrightarrow>
     1 \<le> num_segments_A strat \<and> num_segments_A strat \<le> n_points_A strat \<and>
     1 \<le> num_segments_B strat \<and> num_segments_B strat \<le> n_points_B strat"

text \<open>
  The closed form of the first index of chunk \<open>k\<close>, against which the loop of
  \<open>calc_chunk_slice\<close> is verified (\<open>chunk_loop_closed\<close>).
\<close>

definition chunk_start :: "nat \<Rightarrow> nat \<Rightarrow> nat \<Rightarrow> nat" where
  "chunk_start array_len num_chunks k =
     k * (array_len div num_chunks) + min k (array_len mod num_chunks)"

section \<open>Bin search (accumulators.hpp)\<close>

text \<open>
  \<open>std::lower_bound(first, last, val)\<close> on a random-access range, as the standard library
  implements it: a binary search for the first position whose element is not less than
  \<open>val\<close>. \<open>first\<close> is an offset into \<open>xs\<close> and \<open>len\<close> the number of elements still to
  search; the result is the offset found.
\<close>

function lower_bound :: "'a::linorder list \<Rightarrow> 'a \<Rightarrow> nat \<Rightarrow> nat \<Rightarrow> nat" where
  "lower_bound xs val first len =
     (if len = 0 then first
      else
        let half = len div 2; middle = first + half in
        if xs ! middle < val then lower_bound xs val (middle + 1) (len - half - 1)
        else lower_bound xs val first half)"
  by pat_completeness auto
termination
  by (relation "measure (\<lambda>(xs, val, first, len). len)") auto

declare lower_bound.simps [simp del]

text \<open>
  The template parameter \<open>T\<close> is the element type; \<open>bin_edges\<close> must hold \<open>nbins + 1\<close>
  entries (the C++ reads past the array otherwise).
\<close>

definition identify_bin_index :: "'a::linorder \<Rightarrow> 'a list \<Rightarrow> nat \<Rightarrow> nat" where
  "identify_bin_index x bin_edges nbins =
     (let index_p_1 = lower_bound bin_edges x 0 (nbins + 1) in
      if index_p_1 = 0 \<or> index_p_1 = nbins + 1 then nbins else index_p_1 - 1)"

section \<open>Moment accumulators (accumulators.hpp)\<close>

text \<open>
  \<open>CentralMomentAccum<Order, CountT>\<close> and \<open>OriginMomentAccum<Order, CountT>\<close> have the same
  two attributes, \<open>count\<close> of type \<open>CountT\<close> and the array \<open>moment_accums[Order]\<close>; one record
  serves both. \<open>CountT\<close> is the type parameter \<open>'c\<close>: \<open>int\<close> for \<open>std::int64_t\<close> (a count
  never comes near \<open>2^63\<close>, so it is not wrapped) and \<open>real\<close> for \<open>double\<close>. The template
  parameter \<open>Order\<close> is the first argument of every function; the array is a list of
  length \<open>Order\<close>.
\<close>

record 'c MomentAccum =
  count :: 'c
  moment_accums :: "real list"

text \<open>The constructor: \<open>count(0)\<close> and \<open>std::fill(moment_accums, moment_accums + Order, 0)\<close>.\<close>

definition MomentAccum_init :: "nat \<Rightarrow> ('c::zero) MomentAccum" where
  "MomentAccum_init Order = \<lparr>count = 0, moment_accums = replicate Order 0\<rparr>"

text \<open>
  \<open>CentralMomentAccum::stat_name()\<close>. The branches are tried in the order of the source's
  \<open>if constexpr\<close> chain; \<open>weighted\<close> is \<open>CountT == double\<close>. The last \<open>else\<close> holds a
  \<open>static_assert\<close> that always fails.
\<close>

definition CentralMomentAccum_stat_name :: "nat \<Rightarrow> bool \<Rightarrow> error + string" where
  "CentralMomentAccum_stat_name Order weighted =
     (if Order = 1 \<and> \<not> weighted then Inr ''mean''
      else if Order = 1 then Inr ''weightedmean''
      else if Order = 2 \<and> \<not> weighted then Inr ''variance''
      else if Order = 2 then Inr ''weightedvariance''
      else if Order = 2 \<and> \<not> weighted then Inr ''cmoment3''
      else Inl (StaticAssert ''weird template specialization''))"

definition CentralMomentAccum_i64_val_names :: "bool \<Rightarrow> string list" where
  "CentralMomentAccum_i64_val_names weighted = (if weighted then [] else [''count''])"

definition CentralMomentAccum_flt_val_names :: "nat \<Rightarrow> bool \<Rightarrow> string list" where
  "CentralMomentAccum_flt_val_names Order weighted =
     (if weighted then [''weight_sum''] else []) @ [''mean'']
       @ (if Order > 1 then [''variance*count''] else [])
       @ (if Order > 2 then [''cmoment3*count''] else [])"

text \<open>\<open>LUT::mean\<close>, \<open>LUT::cur_M2\<close> and \<open>LUT::cur_M3\<close> are the indices 0, 1 and 2.\<close>

definition LUT_mean :: nat where "LUT_mean = 0"
definition LUT_cur_M2 :: nat where "LUT_cur_M2 = 1"
definition LUT_cur_M3 :: nat where "LUT_cur_M3 = 2"

text \<open>
  \<open>CentralMomentAccum<Order, int64_t>::add_entry(val)\<close>. The division by \<open>count\<close> is the only
  one; \<open>count\<close> is zero there only when it was \<open>-1\<close> before the call.
\<close>

definition CentralMomentAccum_add_entry :: "nat \<Rightarrow> int MomentAccum \<Rightarrow> real \<Rightarrow> error + int MomentAccum" where
  "CentralMomentAccum_add_entry Order acc val =
     (let cnt = count acc + 1;
          m = moment_accums acc;
          val_minus_last_mean = val - m ! LUT_mean;
          delta = val_minus_last_mean
      in
      if cnt = 0 then Inl NotFinite
      else
        let delta_div_n = delta / real_of_int cnt;
            m = m[LUT_mean := m ! LUT_mean + delta_div_n]
        in
        if Order > 1 then
          let val_minus_cur_mean = val - m ! LUT_mean;
              delta2_nm1_div_n = val_minus_last_mean * val_minus_cur_mean;
              m = (if Order > 2
                   then m[LUT_cur_M3 := m ! LUT_cur_M3 +
                            (delta2_nm1_div_n * delta_div_n * real_of_int (cnt - 2) -
                             3 * m ! LUT_cur_M2 * delta_div_n)]
                   else m);
              m = m[LUT_cur_M2 := m ! LUT_cur_M2 + delta2_nm1_div_n]
          in Inr \<lparr>count = cnt, moment_accums = m\<rparr>
        else Inr \<lparr>count = cnt, moment_accums = m\<rparr>)"

text \<open>
  \<open>CentralMomentAccum<Order, int64_t>::add_entry(val, weight)\<close>: the branch
  \<open>if constexpr (std::is_same_v<CountT, std::int64_t>)\<close> calls the one-argument overload.
\<close>

definition CentralMomentAccum_add_entry_weight ::
    "nat \<Rightarrow> int MomentAccum \<Rightarrow> real \<Rightarrow> real \<Rightarrow> error + int MomentAccum" where
  "CentralMomentAccum_add_entry_weight Order acc val weight =
     CentralMomentAccum_add_entry Order acc val"

text \<open>
  \<open>CentralMomentAccum<Order, double>\<close>, the weighted accumulator. Its one-argument
  \<open>add_entry\<close> aborts; its two-argument \<open>add_entry\<close> is the \<open>else\<close> branch of the source.
  \<open>(weight_sum == 0)\<close> converts to \<open>1.0\<close> or \<open>0.0\<close>.
\<close>

definition WeightedCentralMomentAccum_add_entry ::
    "nat \<Rightarrow> real MomentAccum \<Rightarrow> real \<Rightarrow> error + real MomentAccum" where
  "WeightedCentralMomentAccum_add_entry Order acc val =
     Inl (Fatal ''This version of the function won't work!'')"

definition WeightedCentralMomentAccum_add_entry_weight ::
    "nat \<Rightarrow> real MomentAccum \<Rightarrow> real \<Rightarrow> real \<Rightarrow> real MomentAccum" where
  "WeightedCentralMomentAccum_add_entry_weight Order acc val weight =
     (let weight_sum = count acc + weight;
          m = moment_accums acc;
          delta = val - m ! LUT_mean;
          m = m[LUT_mean := m ! LUT_mean +
                  (delta * weight) / (weight_sum + (if weight_sum = 0 then 1 else 0))]
      in
      if Order > 1 then
        let val_minus_cur_mean = val - m ! LUT_mean;
            m = m[LUT_cur_M2 := m ! LUT_cur_M2 + weight * delta * val_minus_cur_mean]
        in \<lparr>count = weight_sum, moment_accums = m\<rparr>
      else \<lparr>count = weight_sum, moment_accums = m\<rparr>)"

definition consolidate_mean :: "real \<Rightarrow> real \<Rightarrow> real \<Rightarrow> real \<Rightarrow> real \<Rightarrow> real" where
  "consolidate_mean primary_mean primary_weight other_mean other_weight total_weight =
     (primary_weight * primary_mean + other_weight * other_mean) / total_weight"

text \<open>
  \<open>CentralMomentAccum<Order, int64_t>::consolidate_with_other\<close>. In the general case
  \<open>totcount\<close> is the sum of the two counts as a \<open>double\<close>; the assignment
  \<open>this->count = totcount\<close> converts it back.
\<close>

definition CentralMomentAccum_consolidate_with_other ::
    "nat \<Rightarrow> int MomentAccum \<Rightarrow> int MomentAccum \<Rightarrow> error + int MomentAccum" where
  "CentralMomentAccum_consolidate_with_other Order this other =
     (if count this = 0 then Inr other
      else if count other = 0 then Inr this
      else if count this = 1
        then CentralMomentAccum_add_entry Order other (moment_accums this ! LUT_mean)
      else if count other = 1
        then CentralMomentAccum_add_entry Order this (moment_accums other ! LUT_mean)
      else
        let totcount = real_of_int (count this + count other) in
        if totcount = 0 then Inl NotFinite
        else
          let m = moment_accums this;
              m = (if Order > 1 then
                     let delta = moment_accums other ! LUT_mean - m ! LUT_mean;
                         delta2_nprod_div_ntot =
                           (delta * delta) * (real_of_int (count this * count other) / totcount);
                         m = (if Order > 2 then
                                let term1 = delta2_nprod_div_ntot *
                                              real_of_int (count other - count this);
                                    term2 = 3 * (real_of_int (count this) *
                                                   moment_accums other ! LUT_cur_M2 -
                                                 real_of_int (count other) * m ! LUT_cur_M2)
                                in m[LUT_cur_M3 := m ! LUT_cur_M3 + moment_accums other ! LUT_cur_M3 +
                                                     (delta * (term1 + term2)) / totcount]
                              else m)
                     in m[LUT_cur_M2 := m ! LUT_cur_M2 + moment_accums other ! LUT_cur_M2 +
                                          delta2_nprod_div_ntot]
                   else m);
              m = m[LUT_mean := consolidate_mean (m ! LUT_mean) (real_of_int (count this))
                                  (moment_accums other ! LUT_mean) (real_of_int (count other))
                                  totcount]
          in Inr \<lparr>count = count this + count other, moment_accums = m\<rparr>)"

text \<open>
  \<open>CentralMomentAccum<Order, double>::consolidate_with_other\<close>. The two branches guarded by
  \<open>std::is_same_v<CountT, std::int64_t>\<close> are dead for \<open>CountT = double\<close>; \<open>Order > 2\<close> is
  excluded by the class's \<open>static_assert\<close>. The general case divides by \<open>totcount\<close>.
\<close>

definition WeightedCentralMomentAccum_consolidate_with_other ::
    "nat \<Rightarrow> real MomentAccum \<Rightarrow> real MomentAccum \<Rightarrow> error + real MomentAccum" where
  "WeightedCentralMomentAccum_consolidate_with_other Order this other =
     (if count this = 0 then Inr other
      else if count other = 0 then Inr this
      else
        let totcount = count this + count other in
        if totcount = 0 then Inl NotFinite
        else
          let m = moment_accums this;
              m = (if Order > 1 then
                     let delta = moment_accums other ! LUT_mean - m ! LUT_mean;
                         delta2_nprod_div_ntot =
                           (delta * delta) * (count this * count other / totcount)
                     in m[LUT_cur_M2 := m ! LUT_cur_M2 + moment_accums other ! LUT_cur_M2 +
                                          delta2_nprod_div_ntot]
                   else m);
              m = m[LUT_mean := consolidate_mean (m ! LUT_mean) (count this)
                                  (moment_accums other ! LUT_mean) (count other) totcount]
          in Inr \<lparr>count = totcount, moment_accums = m\<rparr>)"

text \<open>
  \<open>OriginMomentAccum<Order, int64_t>::add_entry(val)\<close>: the loop over \<open>i\<close> carries
  \<open>val_raised_to_ip1\<close> and the array.
\<close>

definition origin_loop_body :: "real \<Rightarrow> int \<Rightarrow> nat \<Rightarrow> real \<times> real list \<Rightarrow> real \<times> real list" where
  "origin_loop_body val cnt i s =
     (let val_raised_to_ip1 = fst s * val;
          m = snd s;
          delta = val_raised_to_ip1 - m ! i;
          delta_div_n = delta / real_of_int cnt
      in (val_raised_to_ip1, m[i := m ! i + delta_div_n]))"

definition OriginMomentAccum_add_entry :: "nat \<Rightarrow> int MomentAccum \<Rightarrow> real \<Rightarrow> error + int MomentAccum" where
  "OriginMomentAccum_add_entry Order acc val =
     (let cnt = count acc + 1 in
      if cnt = 0 then Inl NotFinite
      else Inr \<lparr>count = cnt,
                moment_accums = snd (fold (origin_loop_body val cnt) [0..<Order]
                                          (1, moment_accums acc))\<rparr>)"

definition OriginMomentAccum_add_entry_weight ::
    "nat \<Rightarrow> int MomentAccum \<Rightarrow> real \<Rightarrow> real \<Rightarrow> error + int MomentAccum" where
  "OriginMomentAccum_add_entry_weight Order acc val weight =
     OriginMomentAccum_add_entry Order acc val"

text \<open>
  \<open>std::to_string\<close> on a non-negative \<open>int\<close>, used in the names of the origin moments.
\<close>

function to_string :: "nat \<Rightarrow> string" where
  "to_string n =
     (if n < 10 then [char_of (48 + n)]
      else to_string (n div 10) @ [char_of (48 + n mod 10)])"
  by pat_completeness auto
termination
  by (relation "measure id") auto

declare to_string.simps [simp del]

definition OriginMomentAccum_stat_name :: "nat \<Rightarrow> bool \<Rightarrow> string" where
  "OriginMomentAccum_stat_name Order weighted =
     (if Order = 1 \<and> \<not> weighted then ''omoment1-override''
      else if Order = 1 then ''weightedomoment1-override''
      else if \<not> weighted then ''omoment'' @ to_string Order
      else ''weightedomoment'' @ to_string Order)"

definition OriginMomentAccum_i64_val_names :: "bool \<Rightarrow> string list" where
  "OriginMomentAccum_i64_val_names weighted = (if weighted then [] else [''count''])"

definition OriginMomentAccum_flt_val_names :: "nat \<Rightarrow> bool \<Rightarrow> string list" where
  "OriginMomentAccum_flt_val_names Order weighted =
     (if weighted then [''weight_sum''] else []) @ [''mean'']
       @ map (\<lambda>i. ''omoment'' @ to_string (i + 1)) [1..<Order]"

text \<open>
  \<open>access<T>(i)\<close>, which is the same text in both accumulator classes. It returns a
  reference; reading through it is \<open>access_*\<close> and assigning through it is \<open>assign_*\<close>.
  The four instances are \<open>T = int64_t\<close> or \<open>double\<close> on \<open>CountT = int64_t\<close> (no suffix) or
  \<open>double\<close> (suffix \<open>weighted\<close>).
\<close>

definition access_i64 :: "int MomentAccum \<Rightarrow> nat \<Rightarrow> error + int" where
  "access_i64 acc i =
     (if i \<noteq> 0 then Inl (Fatal ''only has 1 integer value'') else Inr (count acc))"

definition assign_i64 :: "int MomentAccum \<Rightarrow> nat \<Rightarrow> int \<Rightarrow> error + int MomentAccum" where
  "assign_i64 acc i v =
     (if i \<noteq> 0 then Inl (Fatal ''only has 1 integer value'') else Inr (acc\<lparr>count := v\<rparr>))"

definition access_i64_weighted :: "real MomentAccum \<Rightarrow> nat \<Rightarrow> error + int" where
  "access_i64_weighted acc i = Inl (Fatal ''has no integer value'')"

definition assign_i64_weighted :: "real MomentAccum \<Rightarrow> nat \<Rightarrow> int \<Rightarrow> error + real MomentAccum" where
  "assign_i64_weighted acc i v = Inl (Fatal ''has no integer value'')"

definition access_f64 :: "nat \<Rightarrow> int MomentAccum \<Rightarrow> nat \<Rightarrow> error + real" where
  "access_f64 Order acc i =
     (if i \<ge> Order then Inl (Fatal ''trying to access a non-existent float_val'')
      else Inr (moment_accums acc ! i))"

definition assign_f64 :: "nat \<Rightarrow> int MomentAccum \<Rightarrow> nat \<Rightarrow> real \<Rightarrow> error + int MomentAccum" where
  "assign_f64 Order acc i v =
     (if i \<ge> Order then Inl (Fatal ''trying to access a non-existent float_val'')
      else Inr (acc\<lparr>moment_accums := (moment_accums acc)[i := v]\<rparr>))"

definition access_f64_weighted :: "nat \<Rightarrow> real MomentAccum \<Rightarrow> nat \<Rightarrow> error + real" where
  "access_f64_weighted Order acc i =
     (if i > Order then Inl (Fatal ''trying to access a non-existent float_val'')
      else if i = 0 then Inr (count acc)
      else Inr (moment_accums acc ! (i - 1)))"

definition assign_f64_weighted ::
    "nat \<Rightarrow> real MomentAccum \<Rightarrow> nat \<Rightarrow> real \<Rightarrow> error + real MomentAccum" where
  "assign_f64_weighted Order acc i v =
     (if i > Order then Inl (Fatal ''trying to access a non-existent float_val'')
      else if i = 0 then Inr (acc\<lparr>count := v\<rparr>)
      else Inr (acc\<lparr>moment_accums := (moment_accums acc)[i - 1 := v]\<rparr>))"

section \<open>Scalar accumulator collections (accumulators.hpp)\<close>

text \<open>
  \<open>ScalarAccumCollection<Accum>\<close> holds the vector \<open>accum_list_\<close>. A caller's buffer
  (\<open>T* out_vals\<close>) is a function from offsets to values; the caller sizes it, and the model
  puts no bound on it.
\<close>

record 'c ScalarAccumCollection =
  accum_list :: "'c MomentAccum list"


text \<open>
  \<open>add_entry(spatial_bin_index, val)\<close> calls the accumulator's \<open>add_entry\<close> on
  \<open>accum_list_[spatial_bin_index]\<close>; indexing the vector past its end is undefined.
  \<open>consolidate_with_other\<close> checks the sizes and consolidates bin by bin. The accumulator's
  method is the first argument of each.
\<close>

definition ScalarAccumCollection_add_entry ::
    "('c MomentAccum \<Rightarrow> real \<Rightarrow> error + 'c MomentAccum) \<Rightarrow> 'c ScalarAccumCollection \<Rightarrow> nat \<Rightarrow> real \<Rightarrow>
     error + 'c ScalarAccumCollection" where
  "ScalarAccumCollection_add_entry add_entry this spatial_bin_index val =
     (if length (accum_list this) \<le> spatial_bin_index
      then Inl (Undefined ''accum_list_ indexed past its end'')
      else bind_err (add_entry (accum_list this ! spatial_bin_index) val) (\<lambda>a.
           Inr (this\<lparr>accum_list := (accum_list this)[spatial_bin_index := a]\<rparr>)))"

definition ScalarAccumCollection_consolidate_with_other ::
    "('c MomentAccum \<Rightarrow> 'c MomentAccum \<Rightarrow> error + 'c MomentAccum) \<Rightarrow>
     'c ScalarAccumCollection \<Rightarrow> 'c ScalarAccumCollection \<Rightarrow> error + 'c ScalarAccumCollection" where
  "ScalarAccumCollection_consolidate_with_other consolidate this other =
     (let num_bins = length (accum_list this) in
      if length (accum_list other) \<noteq> num_bins
      then Inl (Fatal ''There seemed to be a mismatch during consolidation'')
      else fold (\<lambda>i r. bind_err r (\<lambda>c.
                   bind_err (consolidate (accum_list c ! i) (accum_list other ! i)) (\<lambda>a.
                   Inr (c\<lparr>accum_list := (accum_list c)[i := a]\<rparr>))))
                [0..<num_bins] (Inr this))"

text \<open>
  \<open>copy_vals<T>\<close>. The template-dependent parts are arguments: \<open>access\<close> is
  \<open>Accum::access<T>\<close> and \<open>num_dtype_vals\<close> is \<open>num_type_vals_per_bin_<Accum, T>()\<close>. The
  outer loop runs over the bins \<open>i\<close>, the inner one over the values \<open>j\<close>.
\<close>

definition ScalarAccumCollection_copy_vals ::
    "('c MomentAccum \<Rightarrow> nat \<Rightarrow> error + 'v) \<Rightarrow> nat \<Rightarrow> 'c ScalarAccumCollection \<Rightarrow>
     (nat \<Rightarrow> 'v) \<Rightarrow> error + (nat \<Rightarrow> 'v)" where
  "ScalarAccumCollection_copy_vals access num_dtype_vals this out_vals =
     (let n_bins = length (accum_list this) in
      fold (\<lambda>i. fold (\<lambda>j r. bind_err r (\<lambda>out.
                        bind_err (access (accum_list this ! i) j) (\<lambda>v.
                        Inr (out(i + j * n_bins := v)))))
                      [0..<num_dtype_vals])
           [0..<n_bins] (Inr out_vals))"

text \<open>\<open>import_vals<T>\<close>, with \<open>assign\<close> the assignment through \<open>Accum::access<T>\<close>.\<close>

definition ScalarAccumCollection_import_vals ::
    "('c MomentAccum \<Rightarrow> nat \<Rightarrow> 'v \<Rightarrow> error + 'c MomentAccum) \<Rightarrow> nat \<Rightarrow>
     'c ScalarAccumCollection \<Rightarrow> (nat \<Rightarrow> 'v) \<Rightarrow> error + 'c ScalarAccumCollection" where
  "ScalarAccumCollection_import_vals assign num_flt_vals this in_vals =
     (let n_bins = length (accum_list this) in
      fold (\<lambda>i. fold (\<lambda>j r. bind_err r (\<lambda>c.
                        bind_err (assign (accum_list c ! i) j (in_vals (i + j * n_bins))) (\<lambda>a.
                        Inr (c\<lparr>accum_list := (accum_list c)[i := a]\<rparr>))))
                      [0..<num_flt_vals])
           [0..<n_bins] (Inr this))"

text \<open>
  \<open>flt_val_props()\<close> and \<open>i64_val_props()\<close> of a scalar collection pair every name of the
  accumulator with one entry per spatial bin.
\<close>

definition ScalarAccumCollection_val_props :: "string list \<Rightarrow> (string \<times> nat) list" where
  "ScalarAccumCollection_val_props val_names = map (\<lambda>name. (name, 1)) val_names"

text \<open>
  Writing the integer and the floating-point values of a scalar collection \<open>X\<close> to two
  buffers with \<open>copy_vals\<close> and reading both buffers back into a collection \<open>Y\<close> with
  \<open>import_vals\<close>. The arguments are the instances of \<open>access<T>\<close> and of
  \<open>num_type_vals_per_bin_<Accum, T>()\<close> for \<open>T = int64_t\<close> and \<open>T = double\<close>.
\<close>

definition scalar_round_trip ::
    "('c MomentAccum \<Rightarrow> nat \<Rightarrow> error + int) \<Rightarrow> ('c MomentAccum \<Rightarrow> nat \<Rightarrow> int \<Rightarrow> error + 'c MomentAccum) \<Rightarrow>
     nat \<Rightarrow>
     ('c MomentAccum \<Rightarrow> nat \<Rightarrow> error + real) \<Rightarrow> ('c MomentAccum \<Rightarrow> nat \<Rightarrow> real \<Rightarrow> error + 'c MomentAccum) \<Rightarrow>
     nat \<Rightarrow>
     'c ScalarAccumCollection \<Rightarrow> 'c ScalarAccumCollection \<Rightarrow> (nat \<Rightarrow> int) \<Rightarrow> (nat \<Rightarrow> real) \<Rightarrow>
     error + 'c ScalarAccumCollection" where
  "scalar_round_trip access_i assign_i num_i64_vals access_f assign_f num_flt_vals X Y out_i64 out_flt =
     bind_err (ScalarAccumCollection_copy_vals access_i num_i64_vals X out_i64) (\<lambda>buf_i64.
     bind_err (ScalarAccumCollection_copy_vals access_f num_flt_vals X out_flt) (\<lambda>buf_flt.
     bind_err (ScalarAccumCollection_import_vals assign_i num_i64_vals Y buf_i64) (\<lambda>Y1.
     ScalarAccumCollection_import_vals assign_f num_flt_vals Y1 buf_flt)))"

text \<open>
  Two scalar collections of the same instantiation and size: the same number of spatial
  bins, and every accumulator holds an array of \<open>Order\<close> entries.
\<close>

definition same_scalar_shape :: "nat \<Rightarrow> 'c ScalarAccumCollection \<Rightarrow> 'c ScalarAccumCollection \<Rightarrow> bool" where
  "same_scalar_shape Order X Y \<longleftrightarrow>
     length (accum_list Y) = length (accum_list X) \<and>
     (\<forall>a \<in> set (accum_list X). length (moment_accums a) = Order) \<and>
     (\<forall>a \<in> set (accum_list Y). length (moment_accums a) = Order)"

section \<open>Histogram collections (accumulators.hpp)\<close>

text \<open>
  \<open>GenericHistogramAccumCollection<T>\<close>; \<open>'c\<close> is \<open>T\<close> (\<open>int\<close> for \<open>std::int64_t\<close>, \<open>real\<close> for
  \<open>double\<close>). \<open>BinSpecification\<close> is declared in vsf.hpp; the constructor reads its fields
  \<open>n_bins\<close> and \<open>bin_edges\<close>.
\<close>

record 'c GenericHistogramAccumCollection =
  n_spatial_bins :: nat
  n_data_bins :: nat
  bin_counts :: "'c list"
  data_bin_edges :: "real list"

record BinSpecification =
  bin_edges :: "real list"
  n_bins :: nat


text \<open>
  \<open>add_entry(spatial_bin_index, val)\<close> of the counting histogram (\<open>T = std::int64_t\<close>), and
  the overload with a weight, which ignores the weight.
\<close>

definition Histogram_add_entry ::
    "int GenericHistogramAccumCollection \<Rightarrow> nat \<Rightarrow> real \<Rightarrow> int GenericHistogramAccumCollection" where
  "Histogram_add_entry this spatial_bin_index val =
     (let data_bin_index = identify_bin_index val (data_bin_edges this) (n_data_bins this) in
      if data_bin_index < n_data_bins this then
        let i = data_bin_index + spatial_bin_index * n_data_bins this in
        this\<lparr>bin_counts := (bin_counts this)[i := bin_counts this ! i + 1]\<rparr>
      else this)"

definition Histogram_add_entry_weight ::
    "int GenericHistogramAccumCollection \<Rightarrow> nat \<Rightarrow> real \<Rightarrow> real \<Rightarrow>
     int GenericHistogramAccumCollection" where
  "Histogram_add_entry_weight this spatial_bin_index val weight =
     Histogram_add_entry this spatial_bin_index val"

text \<open>The weighted histogram (\<open>T = double\<close>).\<close>

definition WeightedHistogram_add_entry ::
    "real GenericHistogramAccumCollection \<Rightarrow> nat \<Rightarrow> real \<Rightarrow>
     error + real GenericHistogramAccumCollection" where
  "WeightedHistogram_add_entry this spatial_bin_index val =
     Inl (Fatal ''a weight must be provided!'')"

definition WeightedHistogram_add_entry_weight ::
    "real GenericHistogramAccumCollection \<Rightarrow> nat \<Rightarrow> real \<Rightarrow> real \<Rightarrow>
     real GenericHistogramAccumCollection" where
  "WeightedHistogram_add_entry_weight this spatial_bin_index val weight =
     (let data_bin_index = identify_bin_index val (data_bin_edges this) (n_data_bins this) in
      if data_bin_index < n_data_bins this then
        let i = data_bin_index + spatial_bin_index * n_data_bins this in
        this\<lparr>bin_counts := (bin_counts this)[i := bin_counts this ! i + weight]\<rparr>
      else this)"

text \<open>
  \<open>consolidate_with_other\<close>, for either \<open>T\<close>. The loop runs \<open>i\<close> over
  \<open>[0, bin_counts_.size())\<close> and adds \<open>other.bin_counts_[i]\<close> in place.
\<close>

definition GenericHistogramAccumCollection_consolidate_with_other ::
    "('c::plus) GenericHistogramAccumCollection \<Rightarrow> 'c GenericHistogramAccumCollection \<Rightarrow>
     error + 'c GenericHistogramAccumCollection" where
  "GenericHistogramAccumCollection_consolidate_with_other this other =
     (if n_spatial_bins other \<noteq> n_spatial_bins this \<or> n_data_bins other \<noteq> n_data_bins this
      then Inl (Fatal ''There seemed to be a mismatch during consolidation'')
      else
        let stop_i = length (bin_counts this) in
        Inr (this\<lparr>bin_counts :=
               fold (\<lambda>i counts. counts[i := counts ! i + bin_counts other ! i])
                    [0..<stop_i] (bin_counts this)\<rparr>))"

text \<open>
  \<open>copy_vals<Tbuf>\<close> and \<open>import_vals<Tbuf>\<close>. With \<open>Tbuf = T\<close> they copy \<open>bin_counts_\<close>; with
  the other of the two types they do nothing (the functions with suffix \<open>other\<close>).
\<close>

definition GenericHistogramAccumCollection_copy_vals ::
    "'c GenericHistogramAccumCollection \<Rightarrow> (nat \<Rightarrow> 'c) \<Rightarrow> (nat \<Rightarrow> 'c)" where
  "GenericHistogramAccumCollection_copy_vals this out_vals =
     fold (\<lambda>i out. out(i := bin_counts this ! i)) [0..<length (bin_counts this)] out_vals"

definition GenericHistogramAccumCollection_copy_vals_other ::
    "'c GenericHistogramAccumCollection \<Rightarrow> (nat \<Rightarrow> 'b) \<Rightarrow> (nat \<Rightarrow> 'b)" where
  "GenericHistogramAccumCollection_copy_vals_other this out_vals = out_vals"

definition GenericHistogramAccumCollection_import_vals ::
    "'c GenericHistogramAccumCollection \<Rightarrow> (nat \<Rightarrow> 'c) \<Rightarrow> 'c GenericHistogramAccumCollection" where
  "GenericHistogramAccumCollection_import_vals this in_vals =
     this\<lparr>bin_counts :=
       fold (\<lambda>i counts. counts[i := in_vals i]) [0..<length (bin_counts this)] (bin_counts this)\<rparr>"

definition GenericHistogramAccumCollection_import_vals_other ::
    "'c GenericHistogramAccumCollection \<Rightarrow> (nat \<Rightarrow> 'b) \<Rightarrow> 'c GenericHistogramAccumCollection" where
  "GenericHistogramAccumCollection_import_vals_other this in_vals = this"

definition Histogram_i64_val_props ::
    "'c GenericHistogramAccumCollection \<Rightarrow> bool \<Rightarrow> (string \<times> nat) list" where
  "Histogram_i64_val_props this weighted =
     (if \<not> weighted then [(''bin_counts_'', n_data_bins this)] else [])"

definition Histogram_flt_val_props ::
    "'c GenericHistogramAccumCollection \<Rightarrow> bool \<Rightarrow> (string \<times> nat) list" where
  "Histogram_flt_val_props this weighted =
     (if \<not> weighted then [] else [(''bin_weights_'', n_data_bins this)])"

text \<open>
  A histogram collection as its constructor builds it: \<open>bin_counts_\<close> holds
  \<open>n_data_bins_ * n_spatial_bins_\<close> entries.
\<close>

definition histogram_wf :: "'c GenericHistogramAccumCollection \<Rightarrow> bool" where
  "histogram_wf h \<longleftrightarrow> length (bin_counts h) = n_data_bins h * n_spatial_bins h"

text \<open>
  Two histogram collections built with the same number of spatial bins and the same
  data-bin specification.
\<close>

definition same_histogram_shape ::
    "'c GenericHistogramAccumCollection \<Rightarrow> 'c GenericHistogramAccumCollection \<Rightarrow> bool" where
  "same_histogram_shape X Y \<longleftrightarrow>
     n_spatial_bins Y = n_spatial_bins X \<and> n_data_bins Y = n_data_bins X \<and>
     data_bin_edges Y = data_bin_edges X \<and> length (bin_counts Y) = length (bin_counts X)"

text \<open>
  The weighted central-moment accumulators that a run can build when every weight is
  non-negative: a fresh one (the class's \<open>static_assert\<close>s allow \<open>1 \<le> Order \<le> 2\<close>), one
  more \<open>add_entry(val, weight)\<close> with \<open>weight \<ge> 0\<close>, or the merge of two of them.
\<close>

inductive weighted_reachable :: "nat \<Rightarrow> real MomentAccum \<Rightarrow> bool" for Order :: nat where
  fresh: "1 \<le> Order \<Longrightarrow> Order \<le> 2 \<Longrightarrow> weighted_reachable Order (MomentAccum_init Order)"
| add: "weighted_reachable Order acc \<Longrightarrow> 0 \<le> weight \<Longrightarrow>
        weighted_reachable Order (WeightedCentralMomentAccum_add_entry_weight Order acc val weight)"
| merge: "weighted_reachable Order this \<Longrightarrow> weighted_reachable Order other \<Longrightarrow>
          WeightedCentralMomentAccum_consolidate_with_other Order this other = Inr acc \<Longrightarrow>
          weighted_reachable Order acc"

text \<open>The invariant carried through the proof for such accumulators.\<close>

definition weighted_inv :: "nat \<Rightarrow> real MomentAccum \<Rightarrow> bool" where
  "weighted_inv Order acc \<longleftrightarrow>
     1 \<le> Order \<and> length (moment_accums acc) = Order \<and> 0 \<le> count acc \<and>
     (count acc = 0 \<longrightarrow> moment_accums acc ! LUT_mean = 0)"

section \<open>Compound accumulator (compound_accumulator.hpp)\<close>

text \<open>
  \<open>CompoundAccumCollection<AccumCollectionTuple>\<close> holds a tuple of collections. The model
  holds the members as a list of type \<open>'m\<close> (a sum type where the kinds differ) and takes
  the members' own methods as arguments. A pointer \<open>data_ptr_ + offset_\<close> into a buffer is
  the buffer seen from that offset.

  One call of \<open>CopyValsHelper_::operator()\<close> on the pair \<open>(buffer, offset_)\<close>: the member
  copies its values to \<open>data_ptr_ + offset_\<close>, and \<open>offset_\<close> advances by
  \<open>n_spatial_bins * elem_per_spatial_bin\<close> for each entry of the member's \<open>val_props\<close>
  (\<open>i64_val_props()\<close> or \<open>flt_val_props()\<close>, according to \<open>T\<close>).
\<close>

definition CopyValsHelper_call ::
    "('m \<Rightarrow> (nat \<Rightarrow> 'v) \<Rightarrow> error + (nat \<Rightarrow> 'v)) \<Rightarrow> ('m \<Rightarrow> (string \<times> nat) list) \<Rightarrow> ('m \<Rightarrow> nat) \<Rightarrow>
     'm \<Rightarrow> (nat \<Rightarrow> 'v) \<times> nat \<Rightarrow> error + (nat \<Rightarrow> 'v) \<times> nat" where
  "CopyValsHelper_call member_copy_vals member_val_props member_n_spatial_bins accum_collec s =
     (let data = fst s; offset = snd s in
      bind_err (member_copy_vals accum_collec (\<lambda>k. data (offset + k))) (\<lambda>written.
      Inr ((\<lambda>k. if offset \<le> k then written (k - offset) else data k),
           fold (\<lambda>prop off. off + member_n_spatial_bins accum_collec * snd prop)
                (member_val_props accum_collec) offset)))"

definition CompoundAccumCollection_copy_vals ::
    "('m \<Rightarrow> (nat \<Rightarrow> 'v) \<Rightarrow> error + (nat \<Rightarrow> 'v)) \<Rightarrow> ('m \<Rightarrow> (string \<times> nat) list) \<Rightarrow> ('m \<Rightarrow> nat) \<Rightarrow>
     'm list \<Rightarrow> (nat \<Rightarrow> 'v) \<Rightarrow> error + (nat \<Rightarrow> 'v)" where
  "CompoundAccumCollection_copy_vals member_copy_vals member_val_props member_n_spatial_bins
       accum_collec_tuple out_vals =
     bind_err
       (fold (\<lambda>accum_collec r. bind_err r
                (CopyValsHelper_call member_copy_vals member_val_props member_n_spatial_bins
                   accum_collec))
             accum_collec_tuple (Inr (out_vals, 0)))
       (\<lambda>s. Inr (fst s))"

text \<open>\<open>CompoundAccumCollection::import_vals\<close> is a dummy that aborts.\<close>

definition CompoundAccumCollection_import_vals :: "'m list \<Rightarrow> (nat \<Rightarrow> 'v) \<Rightarrow> error + 'm list" where
  "CompoundAccumCollection_import_vals accum_collec_tuple in_vals = Inl (Fatal ''Not Implemented'')"

section \<open>The pair kernel (vsf.cpp)\<close>

text \<open>
  \<open>PointProps\<close> and \<open>ParallelSpec\<close> are declared in vsf.hpp; their fields are those that
  vsf.cpp reads. A \<open>const double*\<close> is \<open>None\<close> when null and otherwise the array it points
  to, as a function from offsets to values; \<open>ptr_add\<close> is pointer arithmetic and \<open>read_at\<close>
  is \<open>p[i]\<close>.
\<close>

record PointProps =
  positions :: "(nat \<Rightarrow> real) option"
  "values" :: "(nat \<Rightarrow> real) option"
  n_points_pp :: nat
  n_spatial_dims :: nat
  spatial_dim_stride :: nat

record ParallelSpec =
  nproc :: nat
  force_sequential :: bool

datatype PairOperation = vec_diff | correlate

definition ptr_add :: "(nat \<Rightarrow> real) option \<Rightarrow> nat \<Rightarrow> (nat \<Rightarrow> real) option" where
  "ptr_add p n = map_option (\<lambda>f k. f (n + k)) p"

definition read_at :: "(nat \<Rightarrow> real) option \<Rightarrow> nat \<Rightarrow> error + real" where
  "read_at p i = (case p of None \<Rightarrow> Inl (Undefined ''null pointer read'') | Some f \<Rightarrow> Inr (f i))"

text \<open>The three lanes \<open>p[i]\<close>, \<open>p[i + stride]\<close>, \<open>p[i + 2*stride]\<close> of a point.\<close>

definition read_lanes :: "(nat \<Rightarrow> real) option \<Rightarrow> nat \<Rightarrow> nat \<Rightarrow> error + real \<times> real \<times> real" where
  "read_lanes p i stride =
     bind_err (read_at p i) (\<lambda>x.
     bind_err (read_at p (i + stride)) (\<lambda>y.
     bind_err (read_at p (i + 2 * stride)) (\<lambda>z. Inr (x, y, z))))"

definition calc_dist_sqr :: "real \<Rightarrow> real \<Rightarrow> real \<Rightarrow> real \<Rightarrow> real \<Rightarrow> real \<Rightarrow> real" where
  "calc_dist_sqr x0 x1 y0 y1 z0 z1 =
     (let dx = x0 - x1; dy = y0 - y1; dz = z0 - z1 in dx * dx + dy * dy + dz * dz)"

record pair_rslt =
  dist_sqr :: real
  abs_vdiff :: real

definition legacy_calc_pair_rslt ::
    "real \<times> real \<times> real \<Rightarrow> real \<times> real \<times> real \<Rightarrow> (nat \<Rightarrow> real) option \<Rightarrow> (nat \<Rightarrow> real) option \<Rightarrow>
     nat \<Rightarrow> nat \<Rightarrow> error + pair_rslt" where
  "legacy_calc_pair_rslt xyz_a v_a pos_b vel_b i_b spatial_dim_stride_b =
     bind_err (read_lanes pos_b i_b spatial_dim_stride_b) (\<lambda>xyz_b.
     bind_err (read_lanes vel_b i_b spatial_dim_stride_b) (\<lambda>v_b.
     Inr \<lparr>dist_sqr = calc_dist_sqr (fst xyz_a) (fst xyz_b) (fst (snd xyz_a)) (fst (snd xyz_b))
                                     (snd (snd xyz_a)) (snd (snd xyz_b)),
          abs_vdiff = sqrt (calc_dist_sqr (fst v_a) (fst v_b) (fst (snd v_a)) (fst (snd v_b))
                                          (snd (snd v_a)) (snd (snd v_b)))\<rparr>))"

text \<open>
  The pair result of the \<open>correlate\<close> branch: the squared distance and the product of the
  two scalars (stored in the field \<open>abs_vdiff\<close>, as in the source).
\<close>

definition correlate_pair_rslt ::
    "real \<times> real \<times> real \<Rightarrow> real \<Rightarrow> (nat \<Rightarrow> real) option \<Rightarrow> (nat \<Rightarrow> real) option \<Rightarrow>
     nat \<Rightarrow> nat \<Rightarrow> error + pair_rslt" where
  "correlate_pair_rslt xyz_a scalar_a pos_b values_b i_b spatial_dim_stride_b =
     bind_err (read_lanes pos_b i_b spatial_dim_stride_b) (\<lambda>xyz_b.
     bind_err (read_at values_b i_b) (\<lambda>scalar_b.
     Inr \<lparr>dist_sqr = calc_dist_sqr (fst xyz_a) (fst xyz_b) (fst (snd xyz_a)) (fst (snd xyz_b))
                                     (snd (snd xyz_a)) (snd (snd xyz_b)),
          abs_vdiff = scalar_a * scalar_b\<rparr>))"

text \<open>
  The end of the inner loop body, the same in both branches: find the spatial bin and, when
  it is below \<open>nbins\<close>, call \<open>accumulators.add_entry(bin_ind, tmp.abs_vdiff)\<close>. The template
  parameter \<open>AccumCollection\<close> enters through its \<open>add_entry\<close>.
\<close>

definition bin_and_add ::
    "('acc \<Rightarrow> nat \<Rightarrow> real \<Rightarrow> error + 'acc) \<Rightarrow> real list \<Rightarrow> nat \<Rightarrow> pair_rslt \<Rightarrow> 'acc \<Rightarrow> error + 'acc" where
  "bin_and_add add_entry dist_sqr_bin_edges nbins tmp accumulators =
     (let bin_ind = identify_bin_index (dist_sqr tmp) dist_sqr_bin_edges nbins in
      if bin_ind < nbins then add_entry accumulators bin_ind (abs_vdiff tmp)
      else Inr accumulators)"

text \<open>
  \<open>process_data<AccumCollection, duplicated_points, choice>\<close>. The outer loop reads the
  data of point \<open>i_a\<close>, the inner loop runs \<open>i_b\<close> from \<open>i_b_start\<close>.
\<close>

definition process_data ::
    "('acc \<Rightarrow> nat \<Rightarrow> real \<Rightarrow> error + 'acc) \<Rightarrow> bool \<Rightarrow> PairOperation \<Rightarrow> PointProps \<Rightarrow> PointProps \<Rightarrow>
     real list \<Rightarrow> nat \<Rightarrow> 'acc \<Rightarrow> error + 'acc" where
  "process_data add_entry duplicated_points choice points_a points_b dist_sqr_bin_edges nbins
       accumulators =
     (let n_points_a = n_points_pp points_a;
          spatial_dim_stride_a = spatial_dim_stride points_a;
          pos_a = positions points_a;
          n_points_b = n_points_pp points_b;
          spatial_dim_stride_b = spatial_dim_stride points_b;
          pos_b = positions points_b
      in
      case choice of
        correlate \<Rightarrow>
          fold (\<lambda>i_a r. bind_err r (\<lambda>acc.
                  bind_err (read_lanes pos_a i_a spatial_dim_stride_a) (\<lambda>xyz_a.
                  bind_err (read_at (values points_a) i_a) (\<lambda>scalar_a.
                    fold (\<lambda>i_b r. bind_err r (\<lambda>acc.
                            bind_err (correlate_pair_rslt xyz_a scalar_a pos_b (values points_b)
                                        i_b spatial_dim_stride_b)
                              (\<lambda>tmp. bin_and_add add_entry dist_sqr_bin_edges nbins tmp acc)))
                         [(if duplicated_points then i_a + 1 else 0)..<n_points_b] (Inr acc)))))
               [0..<n_points_a] (Inr accumulators)
      | vec_diff \<Rightarrow>
          fold (\<lambda>i_a r. bind_err r (\<lambda>acc.
                  bind_err (read_lanes pos_a i_a spatial_dim_stride_a) (\<lambda>xyz_a.
                  bind_err (read_lanes (values points_a) i_a spatial_dim_stride_a) (\<lambda>v_a.
                    fold (\<lambda>i_b r. bind_err r (\<lambda>acc.
                            bind_err (legacy_calc_pair_rslt xyz_a v_a pos_b (values points_b)
                                        i_b spatial_dim_stride_b)
                              (\<lambda>tmp. bin_and_add add_entry dist_sqr_bin_edges nbins tmp acc)))
                         [(if duplicated_points then i_a + 1 else 0)..<n_points_b] (Inr acc)))))
               [0..<n_points_a] (Inr accumulators))"

text \<open>
  An \<open>add_entry\<close> that cannot abort, as the argument \<open>process_data\<close> expects.
\<close>

definition no_abort :: "('acc \<Rightarrow> nat \<Rightarrow> real \<Rightarrow> 'acc) \<Rightarrow> 'acc \<Rightarrow> nat \<Rightarrow> real \<Rightarrow> error + 'acc" where
  "no_abort add_entry accumulators spatial_bin_index val =
     Inr (add_entry accumulators spatial_bin_index val)"

text \<open>
  What the kernel computes for the pair \<open>(i_a, i_b)\<close> when no pointer is null, written on
  the arrays themselves: the squared distance of the two positions and, under \<open>vec_diff\<close>,
  the norm of the difference of the two value vectors or, under \<open>correlate\<close>, the product
  of the two scalars. \<open>process_data_pairwise\<close> shows that \<open>process_data\<close> computes exactly this.
\<close>

definition pair_rslt_at ::
    "PairOperation \<Rightarrow> (nat \<Rightarrow> real) \<Rightarrow> (nat \<Rightarrow> real) \<Rightarrow> nat \<Rightarrow> (nat \<Rightarrow> real) \<Rightarrow> (nat \<Rightarrow> real) \<Rightarrow> nat \<Rightarrow>
     nat \<times> nat \<Rightarrow> pair_rslt" where
  "pair_rslt_at choice pos_a val_a stride_a pos_b val_b stride_b p =
     (let i_a = fst p; i_b = snd p in
      \<lparr>dist_sqr = calc_dist_sqr (pos_a i_a) (pos_b i_b)
                                 (pos_a (i_a + stride_a)) (pos_b (i_b + stride_b))
                                 (pos_a (i_a + 2 * stride_a)) (pos_b (i_b + 2 * stride_b)),
       abs_vdiff =
         (case choice of
            correlate \<Rightarrow> val_a i_a * val_b i_b
          | vec_diff \<Rightarrow> sqrt (calc_dist_sqr (val_a i_a) (val_b i_b)
                                            (val_a (i_a + stride_a)) (val_b (i_b + stride_b))
                                            (val_a (i_a + 2 * stride_a)) (val_b (i_b + 2 * stride_b))))\<rparr>)"

section \<open>Task iteration (partition.hpp)\<close>

definition create_cross :: "nat \<Rightarrow> nat \<Rightarrow> nat \<Rightarrow> bool \<Rightarrow> error + CrossSFPartitionStrat" where
  "create_cross np n_pts_A n_pts_B skip_small_problem_check =
     (if np = 0 then Inl (Fatal ''nproc can't be zero'')
      else
        let small_npairs = 1000;
            exceed_small_npairs =
              (n_pts_A * n_pts_B > small_npairs \<or>
               (n_pts_A \<ge> small_npairs \<and> n_pts_B > 0) \<or>
               (n_pts_B \<ge> small_npairs \<and> n_pts_A > 0));
            is_small_problem = (\<not> exceed_small_npairs \<and> \<not> skip_small_problem_check);
            builder = (\<lambda>partition_A.
               \<lparr>n_points_A = n_pts_A, num_segments_A = (if partition_A then np else 1),
                n_points_B = n_pts_B, num_segments_B = (if partition_A then 1 else np)\<rparr>);
            smaller_than_both = (np \<le> n_pts_A \<and> np \<le> n_pts_B)
        in
        if is_small_problem \<or> (np > n_pts_A \<and> np > n_pts_B)
        then Inr \<lparr>n_points_A = n_pts_A, num_segments_A = 1,
                  n_points_B = n_pts_B, num_segments_B = 1\<rparr>
        else if np \<le> n_pts_A \<and> n_pts_A mod np = 0 then Inr (builder True)
        else if np \<le> n_pts_B \<and> n_pts_B mod np = 0 then Inr (builder False)
        else if smaller_than_both \<and> n_pts_B > n_pts_A then Inr (builder False)
        else if smaller_than_both then Inr (builder True)
        else if np < n_pts_B then Inr (builder False)
        else Inr (builder True))"

text \<open>\<open>partition_variant\<close> and the methods that \<open>std::visit\<close> dispatches on it.\<close>

datatype partition_variant = AutoStrat AutoSFPartitionStrat | CrossStrat CrossSFPartitionStrat

definition n_partitions :: "partition_variant \<Rightarrow> nat" where
  "n_partitions strat =
     (case strat of
        AutoStrat s \<Rightarrow> num_dist_array_chunks_auto (num_segments s)
      | CrossStrat s \<Rightarrow> num_segments_A s * num_segments_B s)"

definition increment2D_index :: "partition_variant \<Rightarrow> nat \<times> nat \<Rightarrow> nat \<times> nat" where
  "increment2D_index strat index =
     (case strat of
        AutoStrat s \<Rightarrow>
          if snd index + 1 = num_segments s then (fst index + 1, fst index + 1)
          else (fst index, snd index + 1)
      | CrossStrat s \<Rightarrow>
          if snd index + 1 = num_segments_B s then (fst index + 1, 0)
          else (fst index, snd index + 1))"

definition build_StatTask :: "partition_variant \<Rightarrow> nat \<times> nat \<Rightarrow> error + StatTask" where
  "build_StatTask strat index_2D =
     (case strat of
        AutoStrat s \<Rightarrow> build_StatTask_auto s index_2D
      | CrossStrat s \<Rightarrow> build_StatTask_cross s index_2D)"

record TaskIt =
  index_stop_1D :: nat
  partition_strat :: partition_variant
  next_index_1D :: nat
  next_index_2D :: "nat \<times> nat"

definition increment_index :: "TaskIt \<Rightarrow> TaskIt" where
  "increment_index it =
     it\<lparr>next_index_1D := next_index_1D it + 1,
        next_index_2D := increment2D_index (partition_strat it) (next_index_2D it)\<rparr>"

text \<open>
  The constructor of \<open>TaskIt\<close>: its \<open>while\<close> loop calls \<open>increment_index_\<close> until
  \<open>next_index_1D_\<close>, which starts at 0, reaches \<open>index_start_1D\<close>.
\<close>

definition TaskIt_init :: "nat \<Rightarrow> nat \<Rightarrow> partition_variant \<Rightarrow> error + TaskIt" where
  "TaskIt_init index_start_1D index_stop index_strat =
     (if index_stop \<le> index_start_1D
      then Inl (Fatal ''index_stop_1D must exceed index_start_1D'')
      else Inr ((increment_index ^^ index_start_1D)
                  \<lparr>index_stop_1D = index_stop, partition_strat = index_strat,
                   next_index_1D = 0, next_index_2D = (0, 0)\<rparr>))"

definition has_next :: "TaskIt \<Rightarrow> bool" where
  "has_next it \<longleftrightarrow> next_index_1D it < index_stop_1D it"

text \<open>\<open>TaskIt::next()\<close> returns the task and advances the iterator.\<close>

definition TaskIt_next :: "TaskIt \<Rightarrow> error + StatTask \<times> TaskIt" where
  "TaskIt_next it =
     bind_err (build_StatTask (partition_strat it) (next_index_2D it)) (\<lambda>out.
     Inr (out, increment_index it))"

record TaskItFactory =
  nproc_factory :: nat
  partition_strat_factory :: partition_variant

definition build_strat :: "nat \<Rightarrow> nat \<Rightarrow> nat \<Rightarrow> bool \<Rightarrow> error + partition_variant" where
  "build_strat np n_pts n_points_other skip_small_prob_check =
     (if n_points_other = 0
      then bind_err (create_auto np n_pts skip_small_prob_check) (\<lambda>s. Inr (AutoStrat s))
      else bind_err (create_cross np n_pts n_points_other skip_small_prob_check)
             (\<lambda>s. Inr (CrossStrat s)))"

definition TaskItFactory_init :: "nat \<Rightarrow> nat \<Rightarrow> nat \<Rightarrow> bool \<Rightarrow> error + TaskItFactory" where
  "TaskItFactory_init np n_pts n_points_other skip_small_prob_check =
     bind_err (build_strat np n_pts n_points_other skip_small_prob_check) (\<lambda>s.
     Inr \<lparr>nproc_factory = np, partition_strat_factory = s\<rparr>)"

definition effective_nproc :: "TaskItFactory \<Rightarrow> nat" where
  "effective_nproc factory =
     min (nproc_factory factory) (n_partitions (partition_strat_factory factory))"

definition build_TaskIt :: "TaskItFactory \<Rightarrow> nat \<Rightarrow> error + TaskIt" where
  "build_TaskIt factory proc_id =
     (if proc_id \<ge> nproc_factory factory then Inl (Fatal ''proc_id is too large'')
      else
        bind_err (calc_chunk_slice proc_id (n_partitions (partition_strat_factory factory))
                    (effective_nproc factory)) (\<lambda>slc.
        TaskIt_init (start slc) (stop slc) (partition_strat_factory factory)))"

section \<open>The driver (vsf.cpp)\<close>

text \<open>
  The accumulator collection type \<open>AccumColVariant\<close> and its factory
  \<open>build_accum_collection\<close> are declared in accum_col_variant.hpp. The driver is generic in
  the collection; the model takes the collection's methods as a record of functions and
  the factory as an argument.
\<close>

record 'acc AccumCollection_ops =
  add_entry_op :: "'acc \<Rightarrow> nat \<Rightarrow> real \<Rightarrow> error + 'acc"
  consolidate_with_other_op :: "'acc \<Rightarrow> 'acc \<Rightarrow> error + 'acc"
  copy_flt_vals_op :: "'acc \<Rightarrow> (nat \<Rightarrow> real) \<Rightarrow> error + (nat \<Rightarrow> real)"
  copy_i64_vals_op :: "'acc \<Rightarrow> (nat \<Rightarrow> int) \<Rightarrow> error + (nat \<Rightarrow> int)"

definition calc_vsf_props_helper ::
    "'acc AccumCollection_ops \<Rightarrow> PairOperation \<Rightarrow> PointProps \<Rightarrow> PointProps \<Rightarrow> real list \<Rightarrow> nat \<Rightarrow>
     'acc \<Rightarrow> bool \<Rightarrow> error + 'acc" where
  "calc_vsf_props_helper ops choice points_a points_b dist_sqr_bin_edges nbins accumulators
       duplicated_points =
     (if duplicated_points
      then process_data (add_entry_op ops) True choice points_a points_b dist_sqr_bin_edges nbins
             accumulators
      else process_data (add_entry_op ops) False choice points_a points_b dist_sqr_bin_edges nbins
             accumulators)"

text \<open>
  The body of the \<open>while\<close> loop of \<open>process_TaskIt_\<close> for one task, on the pair of the
  iterator and the accumulators.
\<close>

definition process_task ::
    "'acc AccumCollection_ops \<Rightarrow> PairOperation \<Rightarrow> PointProps \<Rightarrow> PointProps \<Rightarrow> real list \<Rightarrow> nat \<Rightarrow>
     bool \<Rightarrow> TaskIt \<times> 'acc \<Rightarrow> error + TaskIt \<times> 'acc" where
  "process_task ops choice points_a points_b dist_sqr_bin_edges nbins duplicated_points s =
     bind_err (TaskIt_next (fst s)) (\<lambda>nxt.
       let stat_task = fst nxt;
           cur_points_a =
             \<lparr>positions = ptr_add (positions points_a) (start_A stat_task),
              values = ptr_add (values points_a) (start_A stat_task),
              n_points_pp = stop_A stat_task - start_A stat_task,
              n_spatial_dims = n_spatial_dims points_a,
              spatial_dim_stride = spatial_dim_stride points_a\<rparr>;
           cur_points_b =
             \<lparr>positions = ptr_add (positions points_b) (start_B stat_task),
              values = ptr_add (values points_b) (start_B stat_task),
              n_points_pp = stop_B stat_task - start_B stat_task,
              n_spatial_dims = n_spatial_dims points_b,
              spatial_dim_stride = spatial_dim_stride points_b\<rparr>
       in
       bind_err
         (if duplicated_points then
            if start_B stat_task = stop_B stat_task \<and> stop_B stat_task = 0
            then process_data (add_entry_op ops) True choice cur_points_a cur_points_a
                   dist_sqr_bin_edges nbins (snd s)
            else process_data (add_entry_op ops) False choice cur_points_a cur_points_b
                   dist_sqr_bin_edges nbins (snd s)
          else process_data (add_entry_op ops) False choice cur_points_a cur_points_b
                 dist_sqr_bin_edges nbins (snd s))
         (\<lambda>accumulators. Inr (snd nxt, accumulators)))"

text \<open>
  \<open>process_TaskIt_\<close>: the loop \<open>while (task_iter.has_next())\<close> runs once for each 1D index
  from \<open>next_index_1D_\<close> up to \<open>index_stop_1D_\<close>.
\<close>

definition process_TaskIt ::
    "'acc AccumCollection_ops \<Rightarrow> PairOperation \<Rightarrow> PointProps \<Rightarrow> PointProps \<Rightarrow> real list \<Rightarrow> nat \<Rightarrow>
     'acc \<Rightarrow> bool \<Rightarrow> TaskIt \<Rightarrow> error + 'acc" where
  "process_TaskIt ops choice points_a points_b dist_sqr_bin_edges nbins accumulators
       duplicated_points task_iter =
     bind_err
       (fold (\<lambda>index_1D r. bind_err r
                (process_task ops choice points_a points_b dist_sqr_bin_edges nbins
                   duplicated_points))
             [next_index_1D task_iter..<index_stop_1D task_iter]
             (Inr (task_iter, accumulators)))
       (\<lambda>s. Inr (snd s))"

text \<open>
  \<open>get_nominal_nproc_\<close>. \<open>OMP_NUM_THREADS\<close> is \<open>None\<close> when the environment variable is
  unset and otherwise the number that \<open>std::atoi\<close> reads from it.
\<close>

definition get_nominal_nproc :: "ParallelSpec \<Rightarrow> int option \<Rightarrow> error + nat" where
  "get_nominal_nproc parallel_spec OMP_NUM_THREADS =
     (if nproc parallel_spec = 0 then
        (case OMP_NUM_THREADS of
           None \<Rightarrow> Inr 1
         | Some tmp \<Rightarrow>
             if tmp \<le> 0 then Inl (Fatal ''OMP_NUM_THREADS has an invalid value'')
             else Inr (nat tmp))
      else Inr (nproc parallel_spec))"

text \<open>
  \<open>calc_vsf_props_parallel_\<close>. \<open>openmp\<close> says whether \<open>_OPENMP\<close> is defined at compile time.
  Each worker owns its entry of \<open>partition_dest\<close> and reads only shared constant data, so
  the workers are run one after the other; a fatal error in any worker ends the process.
\<close>

definition calc_vsf_props_parallel ::
    "'acc AccumCollection_ops \<Rightarrow> PairOperation \<Rightarrow> bool \<Rightarrow> int option \<Rightarrow> PointProps \<Rightarrow> PointProps \<Rightarrow>
     real list \<Rightarrow> nat \<Rightarrow> ParallelSpec \<Rightarrow> 'acc \<Rightarrow> bool \<Rightarrow> error + 'acc" where
  "calc_vsf_props_parallel ops choice openmp OMP_NUM_THREADS points_a points_b dist_sqr_bin_edges
       nbins parallel_spec accumulators duplicated_points =
     (if \<not> openmp
      then Inl (Fatal (''calc_vsf_props_parallel_ should not be called unless the library '' @
                       ''is compiled with support for OPENMP''))
      else
        bind_err (get_nominal_nproc parallel_spec OMP_NUM_THREADS) (\<lambda>nominal_nproc.
        bind_err (TaskItFactory_init nominal_nproc (n_points_pp points_a)
                    (if duplicated_points then 0 else n_points_pp points_b) False) (\<lambda>factory.
        let np = effective_nproc factory;
            partition_dest = replicate np accumulators
        in
        bind_err
          (fold (\<lambda>proc_id r. bind_err r (\<lambda>dest.
                   bind_err (build_TaskIt factory proc_id) (\<lambda>task_iter.
                   bind_err (process_TaskIt ops choice points_a points_b dist_sqr_bin_edges nbins
                               (dest ! proc_id) duplicated_points task_iter) (\<lambda>local_accums.
                   Inr (dest[proc_id := local_accums])))))
                [0..<np] (Inr partition_dest))
          (\<lambda>dest.
             case dest of
               [] \<Rightarrow> Inl (Undefined ''partition_dest[0] of an empty vector'')
             | first # others \<Rightarrow>
                 fold (\<lambda>other r. bind_err r (\<lambda>acc. consolidate_with_other_op ops acc other))
                      others (Inr first)))))"

text \<open>
  The loop of \<open>calc_vsf_props\<close> that fills \<open>dist_sqr_bin_edges_vec\<close>: a negative edge is
  kept, any other edge is squared.
\<close>

definition squared_bin_edges :: "real list \<Rightarrow> nat \<Rightarrow> real list" where
  "squared_bin_edges edges nbins =
     map (\<lambda>i. if edges ! i < 0 then edges ! i else edges ! i * edges ! i) [0..<nbins + 1]"

text \<open>
  \<open>calc_vsf_props\<close>, in two parts. The result is the returned flag together with the two
  output buffers as the call leaves them. \<open>calc_vsf_props_compute\<close> is the part of the
  function body after the argument checks: squaring the bin edges, building the
  accumulators, running the kernel serially or in parallel, and copying the results out.
  \<open>edges\<close> is the caller's array \<open>bin_edges\<close>; reading one of its first \<open>nbins + 1\<close> entries
  when it is shorter is undefined.
\<close>

definition calc_vsf_props_compute ::
    "'acc AccumCollection_ops \<Rightarrow> ('stat list \<Rightarrow> nat \<Rightarrow> nat \<Rightarrow> error + 'acc) \<Rightarrow> bool \<Rightarrow> int option \<Rightarrow>
     PointProps \<Rightarrow> PointProps \<Rightarrow> bool \<Rightarrow> PairOperation \<Rightarrow> 'stat list \<Rightarrow> nat \<Rightarrow> real list \<Rightarrow> nat \<Rightarrow>
     ParallelSpec \<Rightarrow> (nat \<Rightarrow> real) \<Rightarrow> (nat \<Rightarrow> int) \<Rightarrow> error + bool \<times> (nat \<Rightarrow> real) \<times> (nat \<Rightarrow> int)" where
  "calc_vsf_props_compute ops build_accum_collection openmp OMP_NUM_THREADS points_a my_points_b
       duplicated_points operation_choice stat_list stat_list_len edges nbins parallel_spec
       out_flt_vals out_i64_vals =
     (if length edges < nbins + 1 then Inl (Undefined ''read past the end of bin_edges'')
      else
        let dist_sqr_bin_edges_vec = squared_bin_edges edges nbins;
            use_serial = (if openmp then nproc parallel_spec = 1 else True)
        in
        bind_err (build_accum_collection stat_list stat_list_len nbins) (\<lambda>accumulators.
        bind_err
          (if use_serial
           then calc_vsf_props_helper ops operation_choice points_a my_points_b
                  dist_sqr_bin_edges_vec nbins accumulators duplicated_points
           else calc_vsf_props_parallel ops operation_choice openmp OMP_NUM_THREADS
                  points_a my_points_b dist_sqr_bin_edges_vec nbins parallel_spec
                  accumulators duplicated_points) (\<lambda>accumulators.
        bind_err (copy_flt_vals_op ops accumulators out_flt_vals) (\<lambda>flt_vals.
        bind_err (copy_i64_vals_op ops accumulators out_i64_vals) (\<lambda>i64_vals.
        Inr (True, flt_vals, i64_vals))))))"

definition calc_vsf_props ::
    "'acc AccumCollection_ops \<Rightarrow> ('stat list \<Rightarrow> nat \<Rightarrow> nat \<Rightarrow> error + 'acc) \<Rightarrow> bool \<Rightarrow> int option \<Rightarrow>
     PointProps \<Rightarrow> PointProps \<Rightarrow> string \<Rightarrow> 'stat list \<Rightarrow> nat \<Rightarrow> real list \<Rightarrow> nat \<Rightarrow> ParallelSpec \<Rightarrow>
     (nat \<Rightarrow> real) \<Rightarrow> (nat \<Rightarrow> int) \<Rightarrow> error + bool \<times> (nat \<Rightarrow> real) \<times> (nat \<Rightarrow> int)" where
  "calc_vsf_props ops build_accum_collection openmp OMP_NUM_THREADS points_a points_b pairwise_op
       stat_list stat_list_len edges nbins parallel_spec out_flt_vals out_i64_vals =
     (let duplicated_points = (positions points_b = None \<and> values points_b = None);
          my_points_b = (if duplicated_points then points_a else points_b)
      in
      if nbins = 0 then Inr (False, out_flt_vals, out_i64_vals)
      else if n_spatial_dims points_a \<noteq> 3 then Inr (False, out_flt_vals, out_i64_vals)
      else if n_spatial_dims my_points_b \<noteq> 3 then Inr (False, out_flt_vals, out_i64_vals)
      else if positions points_a = None \<or> values points_a = None
        then Inr (False, out_flt_vals, out_i64_vals)
      else
        case (if pairwise_op = ''correlate'' then Some correlate
              else if pairwise_op = ''sf'' then Some vec_diff
              else None) of
          None \<Rightarrow> Inr (False, out_flt_vals, out_i64_vals)
        | Some operation_choice \<Rightarrow>
            calc_vsf_props_compute ops build_accum_collection openmp OMP_NUM_THREADS points_a
              my_points_b duplicated_points operation_choice stat_list stat_list_len edges nbins
              parallel_spec out_flt_vals out_i64_vals)"

text \<open>
  The rejection condition in the words of the specification: \<open>nbins == 0\<close>, a point set
  (A or the resolved B) that is not three-dimensional, absent positions or values of A, or
  an unrecognised \<open>pairwise_op\<close>.
\<close>

definition resolved_points_b :: "PointProps \<Rightarrow> PointProps \<Rightarrow> PointProps" where
  "resolved_points_b points_a points_b =
     (if positions points_b = None \<and> values points_b = None then points_a else points_b)"

definition spec_rejects :: "PointProps \<Rightarrow> PointProps \<Rightarrow> string \<Rightarrow> nat \<Rightarrow> bool" where
  "spec_rejects points_a points_b pairwise_op nbins \<longleftrightarrow>
     nbins = 0 \<or>
     n_spatial_dims points_a \<noteq> 3 \<or>
     n_spatial_dims (resolved_points_b points_a points_b) \<noteq> 3 \<or>
     positions points_a = None \<or> values points_a = None \<or>
     (pairwise_op \<noteq> ''sf'' \<and> pairwise_op \<noteq> ''correlate'')"

text \<open>
  The methods of the counting histogram collection as the driver calls them
  (\<open>copy_flt_vals\<close> writes nothing, \<open>copy_i64_vals\<close> writes the counts).
\<close>

definition Histogram_ops :: "int GenericHistogramAccumCollection AccumCollection_ops" where
  "Histogram_ops =
     \<lparr>add_entry_op = no_abort Histogram_add_entry,
      consolidate_with_other_op = GenericHistogramAccumCollection_consolidate_with_other,
      copy_flt_vals_op = (\<lambda>this out_vals.
         Inr (GenericHistogramAccumCollection_copy_vals_other this out_vals)),
      copy_i64_vals_op = (\<lambda>this out_vals.
         Inr (GenericHistogramAccumCollection_copy_vals this out_vals))\<rparr>"

text \<open>
  The methods of \<open>ScalarAccumCollection<CentralMomentAccum<Order, int64_t>>\<close> as the
  driver calls them.
\<close>

definition CentralMoment_ops :: "nat \<Rightarrow> int ScalarAccumCollection AccumCollection_ops" where
  "CentralMoment_ops Order =
     \<lparr>add_entry_op = ScalarAccumCollection_add_entry (CentralMomentAccum_add_entry Order),
      consolidate_with_other_op =
        ScalarAccumCollection_consolidate_with_other
          (CentralMomentAccum_consolidate_with_other Order),
      copy_flt_vals_op =
        ScalarAccumCollection_copy_vals (access_f64 Order)
          (length (CentralMomentAccum_flt_val_names Order False)),
      copy_i64_vals_op =
        ScalarAccumCollection_copy_vals access_i64
          (length (CentralMomentAccum_i64_val_names False))\<rparr>"

text \<open>
  The kernel's work on a list of index pairs, written on the caller's arrays: each pair is
  binned by its squared distance and, when the bin is below \<open>nbins\<close>, its value is handed
  to \<open>add_entry\<close>. The pointers are read with \<open>the\<close>; the function is used only where
  they are not null.
\<close>

definition accumulate_pairs ::
    "('acc \<Rightarrow> nat \<Rightarrow> real \<Rightarrow> error + 'acc) \<Rightarrow> PairOperation \<Rightarrow> PointProps \<Rightarrow> PointProps \<Rightarrow>
     real list \<Rightarrow> nat \<Rightarrow> (nat \<times> nat) list \<Rightarrow> 'acc \<Rightarrow> error + 'acc" where
  "accumulate_pairs add_entry choice points_a points_b dist_sqr_bin_edges nbins pairs accumulators =
     fold (\<lambda>p r. bind_err r
             (bin_and_add add_entry dist_sqr_bin_edges nbins
                (pair_rslt_at choice
                   (the (positions points_a)) (the (values points_a)) (spatial_dim_stride points_a)
                   (the (positions points_b)) (the (values points_b)) (spatial_dim_stride points_b)
                   p)))
          pairs (Inr accumulators)"

text \<open>
  A property \<open>good\<close> of accumulator collections under which the methods that the driver
  calls return normally: \<open>add_entry\<close> at a spatial bin below \<open>nbins\<close> keeps the property,
  and both copy methods succeed. \<open>consolidate_abort_free\<close> says the same of
  \<open>consolidate_with_other\<close>.
\<close>

definition abort_free :: "'acc AccumCollection_ops \<Rightarrow> nat \<Rightarrow> ('acc \<Rightarrow> bool) \<Rightarrow> bool" where
  "abort_free ops nbins good \<longleftrightarrow>
     (\<forall>acc s v. good acc \<and> s < nbins \<longrightarrow> (\<exists>acc'. add_entry_op ops acc s v = Inr acc' \<and> good acc')) \<and>
     (\<forall>acc out. good acc \<longrightarrow> (\<exists>out'. copy_flt_vals_op ops acc out = Inr out')) \<and>
     (\<forall>acc out. good acc \<longrightarrow> (\<exists>out'. copy_i64_vals_op ops acc out = Inr out'))"

definition consolidate_abort_free :: "'acc AccumCollection_ops \<Rightarrow> ('acc \<Rightarrow> bool) \<Rightarrow> bool" where
  "consolidate_abort_free ops good \<longleftrightarrow>
     (\<forall>acc other. good acc \<and> good other \<longrightarrow>
        (\<exists>acc'. consolidate_with_other_op ops acc other = Inr acc' \<and> good acc'))"

text \<open>
  The 2D index that a \<open>TaskIt\<close> holds when its 1D index is \<open>k\<close>: the constructor and
  \<open>next()\<close> advance both together, starting from \<open>(0, 0)\<close>. \<open>index_1D_of\<close> is the
  inverse, the position of a 2D index in the row-major walk through the triangle or the
  rectangle. \<open>task_pairs_at\<close> lists the pairs of the task with 1D index \<open>k\<close>.
\<close>

definition index_2D_at :: "partition_variant \<Rightarrow> nat \<Rightarrow> nat \<times> nat" where
  "index_2D_at strat k = (increment2D_index strat ^^ k) (0, 0)"

definition index_1D_of :: "partition_variant \<Rightarrow> nat \<times> nat \<Rightarrow> nat" where
  "index_1D_of strat index_2D =
     (case strat of
        AutoStrat s \<Rightarrow> (\<Sum>r<fst index_2D. num_segments s - r) + (snd index_2D - fst index_2D)
      | CrossStrat s \<Rightarrow> fst index_2D * num_segments_B s + snd index_2D)"

definition valid_index_2D :: "partition_variant \<Rightarrow> nat \<times> nat \<Rightarrow> bool" where
  "valid_index_2D strat index_2D \<longleftrightarrow>
     (case strat of
        AutoStrat s \<Rightarrow> index_2D \<in> auto_indices s
      | CrossStrat s \<Rightarrow> index_2D \<in> cross_indices s)"

definition task_pairs_at :: "bool \<Rightarrow> partition_variant \<Rightarrow> nat \<Rightarrow> (nat \<times> nat) list" where
  "task_pairs_at duplicated_points strat k =
     (case build_StatTask strat (index_2D_at strat k) of
        Inl e \<Rightarrow> []
      | Inr stat_task \<Rightarrow> task_pairs duplicated_points stat_task)"

text \<open>
  The strategies on which every task can be built: at least one segment on each axis and,
  as \<open>calc_chunk_slice\<close> demands, no more segments than elements to distribute.
\<close>

definition partition_ok :: "partition_variant \<Rightarrow> bool" where
  "partition_ok strat \<longleftrightarrow>
     (case strat of
        AutoStrat s \<Rightarrow> 1 \<le> num_segments s \<and> num_segments s \<le> n_points s - 1
      | CrossStrat s \<Rightarrow> valid_cross_strategy s)"

text \<open>
  The pairs that worker \<open>proc_id\<close> of \<open>n_workers\<close> visits: \<open>build_TaskIt\<close> gives it the
  1D indices of chunk \<open>proc_id\<close> of the \<open>n_partitions\<close> tasks.
\<close>

definition worker_pairs :: "bool \<Rightarrow> partition_variant \<Rightarrow> nat \<Rightarrow> nat \<Rightarrow> (nat \<times> nat) list" where
  "worker_pairs duplicated_points strat n_workers proc_id =
     concat (map (task_pairs_at duplicated_points strat)
               [chunk_start (n_partitions strat) n_workers proc_id..<
                chunk_start (n_partitions strat) n_workers (Suc proc_id)])"

text \<open>
  The element of \<open>bin_counts\<close> that the kernel's call for a pair result increments in the
  counting histogram \<open>h\<close>, if any: the spatial bin must be below \<open>nbins\<close> and the data
  bin below \<open>n_data_bins\<close>.
\<close>

definition histogram_slot ::
    "'c GenericHistogramAccumCollection \<Rightarrow> real list \<Rightarrow> nat \<Rightarrow> pair_rslt \<Rightarrow> nat option" where
  "histogram_slot h dist_sqr_bin_edges nbins tmp =
     (let bin_ind = identify_bin_index (dist_sqr tmp) dist_sqr_bin_edges nbins;
          data_bin_index = identify_bin_index (abs_vdiff tmp) (data_bin_edges h) (n_data_bins h)
      in
      if bin_ind < nbins \<and> data_bin_index < n_data_bins h
      then Some (data_bin_index + bin_ind * n_data_bins h)
      else None)"

text \<open>
  The histogram \<open>h\<close> after each element of \<open>bin_counts\<close> has grown by the number of
  listed pairs whose slot it is. \<open>histogram_accumulate_closed\<close> shows that this is what
  the kernel computes.
\<close>

definition histogram_of_pairs ::
    "int GenericHistogramAccumCollection \<Rightarrow> PairOperation \<Rightarrow> PointProps \<Rightarrow> PointProps \<Rightarrow>
     real list \<Rightarrow> nat \<Rightarrow> (nat \<times> nat) list \<Rightarrow> int GenericHistogramAccumCollection" where
  "histogram_of_pairs h choice points_a points_b dist_sqr_bin_edges nbins pairs =
     h\<lparr>bin_counts :=
         map (\<lambda>k. bin_counts h ! k +
                   int (length (filter
                     (\<lambda>p. histogram_slot h dist_sqr_bin_edges nbins
                            (pair_rslt_at choice
                               (the (positions points_a)) (the (values points_a))
                               (spatial_dim_stride points_a)
                               (the (positions points_b)) (the (values points_b))
                               (spatial_dim_stride points_b) p) = Some k) pairs)))
             [0..<length (bin_counts h)]\<rparr>"

section \<open>The chunk slices tile the array\<close>

lemma chunk_loop_closed:
  "chunk_loop L S k = (chunk_start L S k, chunk_start L S (Suc k))"
proof (induction k)
  case 0
  show ?case
    by (simp add: chunk_loop_def chunk_loop_body_def calc_chunk_size_def chunk_start_def)
next
  case (Suc k)
  have "chunk_loop L S (Suc k) = chunk_loop_body L S (Suc k) (chunk_loop L S k)"
    by (simp add: chunk_loop_def)
  also have "\<dots> = (chunk_start L S (Suc k), chunk_start L S (Suc k) + calc_chunk_size L S (Suc k))"
    by (simp add: Suc chunk_loop_body_def)
  also have "chunk_start L S (Suc k) + calc_chunk_size L S (Suc k) = chunk_start L S (Suc (Suc k))"
    by (simp add: chunk_start_def calc_chunk_size_def min_def)
  finally show ?case .
qed

lemma chunk_start_0: "chunk_start L S 0 = 0"
  by (simp add: chunk_start_def)

lemma chunk_start_full: "0 < S \<Longrightarrow> chunk_start L S S = L"
proof -
  assume "0 < S"
  then have "L mod S < S" by simp
  then have "min S (L mod S) = L mod S" by simp
  then show ?thesis by (simp add: chunk_start_def)
qed

lemma chunk_start_mono: "i \<le> j \<Longrightarrow> chunk_start L S i \<le> chunk_start L S j"
  unfolding chunk_start_def by (intro add_mono mult_le_mono1 min.mono) simp_all

lemma chunk_start_strict: 
  assumes "S \<le> L" "0 < S" 
  shows "chunk_start L S i < chunk_start L S (Suc i)"
proof -
  have "1 \<le> L div S" using assms by (simp add: div_greater_zero_iff Suc_le_eq)
  then show ?thesis unfolding chunk_start_def by (simp add: min_def)
qed

lemma chunk_tiling_ex:
  assumes "x < chunk_start L S n"
  shows "\<exists>i<n. chunk_start L S i \<le> x \<and> x < chunk_start L S (Suc i)"
  using assms
proof (induction n)
  case 0
  then show ?case by (simp add: chunk_start_0)
next
  case (Suc n)
  show ?case
  proof (cases "x < chunk_start L S n")
    case True
    with Suc.IH obtain i where "i < n" "chunk_start L S i \<le> x \<and> x < chunk_start L S (Suc i)" by blast
    then show ?thesis using less_Suc_eq by blast
  next
    case False
    with Suc.prems show ?thesis by auto
  qed
qed

lemma chunk_tiling_unique:
  assumes "chunk_start L S i \<le> x" "x < chunk_start L S (Suc i)"
      and "chunk_start L S j \<le> x" "x < chunk_start L S (Suc j)"
  shows "i = j"
proof (rule ccontr)
  assume "i \<noteq> j"
  then consider "Suc i \<le> j" | "Suc j \<le> i" by linarith
  then show False
  proof cases
    case 1
    from chunk_start_mono[OF 1, of L S] assms show False by linarith
  next
    case 2
    from chunk_start_mono[OF 2, of L S] assms show False by linarith
  qed
qed

lemma calc_chunk_slice_ok:
  "num_chunks \<le> array_len \<Longrightarrow> chunk_index < num_chunks \<Longrightarrow>
   calc_chunk_slice chunk_index array_len num_chunks =
     Inr \<lparr>start = chunk_start array_len num_chunks chunk_index,
          stop = chunk_start array_len num_chunks (Suc chunk_index)\<rparr>"
  by (simp add: calc_chunk_slice_def chunk_loop_closed)


lemma set_pair_indices:
  "set (pair_indices dup na nb) =
     {(i_a, i_b). i_a < na \<and> (if dup then i_a + 1 else 0) \<le> i_b \<and> i_b < nb}"
  by (auto simp: pair_indices_def)

lemma shifted_pairs_triangle:
  "(\<lambda>(i_a, i_b). (s + i_a, s + i_b)) ` {(i_a, i_b). i_a < n \<and> i_a + 1 \<le> i_b \<and> i_b < n}
     = {(a, b). s \<le> a \<and> a < b \<and> b < s + (n::nat)}"
proof (intro equalityI subsetI)
  fix x assume "x \<in> {(a, b). s \<le> a \<and> a < b \<and> b < s + n}"
  then obtain a b where x: "x = (a, b)" and ab: "s \<le> a" "a < b" "b < s + n" by auto
  have "(a - s, b - s) \<in> {(i_a, i_b). i_a < n \<and> i_a + 1 \<le> i_b \<and> i_b < n}"
    using ab by auto
  moreover have "x = (\<lambda>(i_a, i_b). (s + i_a, s + i_b)) (a - s, b - s)"
    using ab x by auto
  ultimately show "x \<in> (\<lambda>(i_a, i_b). (s + i_a, s + i_b)) ` {(i_a, i_b). i_a < n \<and> i_a + 1 \<le> i_b \<and> i_b < n}"
    by (rule image_eqI[rotated])
qed auto

lemma shifted_pairs_rectangle:
  "(\<lambda>(i_a, i_b). (s + i_a, t + i_b)) ` {(i_a, i_b). i_a < n \<and> i_b < m}
     = {(a, b). s \<le> a \<and> a < s + (n::nat) \<and> t \<le> b \<and> b < t + (m::nat)}"
proof (intro equalityI subsetI)
  fix x assume "x \<in> {(a, b). s \<le> a \<and> a < s + n \<and> t \<le> b \<and> b < t + m}"
  then obtain a b where x: "x = (a, b)" and ab: "s \<le> a" "a < s + n" "t \<le> b" "b < t + m" by auto
  have "(a - s, b - t) \<in> {(i_a, i_b). i_a < n \<and> i_b < m}"
    using ab by auto
  moreover have "x = (\<lambda>(i_a, i_b). (s + i_a, t + i_b)) (a - s, b - t)"
    using ab x by auto
  ultimately show "x \<in> (\<lambda>(i_a, i_b). (s + i_a, t + i_b)) ` {(i_a, i_b). i_a < n \<and> i_b < m}"
    by (rule image_eqI[rotated])
qed auto

lemma unordered_image_id:
  assumes "\<And>p. p \<in> A \<Longrightarrow> fst p < snd p"
  shows "unordered ` A = A"
proof -
  have "unordered ` A = id ` A"
    by (rule image_cong) (use assms in \<open>auto simp: unordered_def min_def max_def dest!: assms\<close>)
  then show ?thesis by simp
qed

lemma set_task_pairs_triangle:
  "start_B t = 0 \<Longrightarrow> stop_B t = 0 \<Longrightarrow> start_A t \<le> stop_A t \<Longrightarrow>
   set (task_pairs True t) = {(a, b). start_A t \<le> a \<and> a < b \<and> b < stop_A t}"
  using shifted_pairs_triangle[of "start_A t" "stop_A t - start_A t"]
  by (simp add: task_pairs_def set_pair_indices)

lemma set_task_pairs_rectangle:
  "\<not> (dup \<and> start_B t = stop_B t \<and> stop_B t = 0) \<Longrightarrow>
   start_A t \<le> stop_A t \<Longrightarrow> start_B t \<le> stop_B t \<Longrightarrow>
   set (task_pairs dup t) =
     {(a, b). start_A t \<le> a \<and> a < stop_A t \<and> start_B t \<le> b \<and> b < stop_B t}"
  using shifted_pairs_rectangle[of "start_A t" "start_B t" "stop_A t - start_A t" "stop_B t - start_B t"]
  by (auto simp add: task_pairs_def set_pair_indices)

lemma build_StatTask_auto_ok:
  assumes "num_segments strat = S" "n_points strat = N" "S \<le> N - 1" "j < S"
  shows "build_StatTask_auto strat (i, j) =
          (if i = j then Inr \<lparr>start_A = chunk_start (N - 1) S i, stop_A = chunk_start (N - 1) S (Suc i) + 1,
                              start_B = 0, stop_B = 0\<rparr>
           else if i < S then Inr \<lparr>start_A = chunk_start (N - 1) S j + 1, stop_A = chunk_start (N - 1) S (Suc j) + 1,
                          start_B = chunk_start (N - 1) S i, stop_B = chunk_start (N - 1) S (Suc i)\<rparr>
           else Inl (Fatal ''something is very wrong''))"
proof -
  have N: "\<not> N \<le> 1" using assms by linarith
  show ?thesis
    using assms N by (simp add: build_StatTask_auto_def calc_chunk_slice_ok Let_def)
      (simp add: calc_chunk_slice_def)
qed

lemma tri_set:
  "{(a, b). s \<le> a \<and> a < b \<and> b < e + 1} =
   {(p, q). p < q \<and> s \<le> p \<and> p < e \<and> s \<le> q - 1 \<and> q - 1 < (e::nat)}"
  by (intro set_eqI iffI; clarsimp; linarith)

lemma rect_unordered:
  assumes "e_i \<le> (s_j::nat)"
  shows "unordered ` {(a, b). s_j + 1 \<le> a \<and> a < e_j + 1 \<and> s_i \<le> b \<and> b < e_i}
     = {(p, q). p < q \<and> s_i \<le> p \<and> p < e_i \<and> s_j \<le> q - 1 \<and> q - 1 < e_j}"
    (is "unordered ` ?A = ?B")
proof (intro equalityI subsetI)
  fix x assume "x \<in> unordered ` ?A"
  then obtain a b where ab: "(a, b) \<in> ?A" and x: "x = unordered (a, b)" by auto
  from ab assms have "b < a" by auto
  then have "x = (b, a)" using x by (simp add: unordered_def min_def max_def)
  moreover have "(b, a) \<in> ?B" using ab assms by clarsimp linarith
  ultimately show "x \<in> ?B" by simp
next
  fix x assume "x \<in> ?B"
  then obtain p q where x: "x = (p, q)" and pq: "(p, q) \<in> ?B" by auto
  then have "(q, p) \<in> ?A" by clarsimp linarith
  moreover have "x = unordered (q, p)" using x pq by (simp add: unordered_def min_def max_def)
  ultimately show "x \<in> unordered ` ?A" by (rule image_eqI[rotated])
qed

lemma auto_task_pairs_char:
  assumes st: "num_segments strat = S" "n_points strat = N"
      and S: "S \<le> N - 1" and ij: "i \<le> j" "j < S"
  shows "auto_task_pairs strat (i, j) =
          {(p, q). p < q \<and> chunk_start (N - 1) S i \<le> p \<and> p < chunk_start (N - 1) S (Suc i)
                 \<and> chunk_start (N - 1) S j \<le> q - 1 \<and> q - 1 < chunk_start (N - 1) S (Suc j)}"
proof -
  define cs where "cs = chunk_start (N - 1) S"
  have mono: "\<And>a b. a \<le> b \<Longrightarrow> cs a \<le> cs b"
    unfolding cs_def by (rule chunk_start_mono)
  show ?thesis
  proof (cases "i = j")
    case True
    let ?t = "\<lparr>start_A = cs i, stop_A = cs (Suc i) + 1, start_B = 0, stop_B = 0\<rparr>"
    have b: "build_StatTask_auto strat (i, j) = Inr ?t"
      using build_StatTask_auto_ok[OF st S ij(2), of i] True by (simp add: cs_def)
    have le: "cs i \<le> cs (Suc i)" by (rule mono) simp
    have "auto_task_pairs strat (i, j) = unordered ` set (task_pairs True ?t)"
      by (simp add: auto_task_pairs_def b)
    also have "set (task_pairs True ?t) = {(a, b). cs i \<le> a \<and> a < b \<and> b < cs (Suc i) + 1}"
      using set_task_pairs_triangle[of ?t] le by simp
    also have "unordered ` \<dots> = \<dots>"
      by (rule unordered_image_id) auto
    also have "\<dots> = {(p, q). p < q \<and> cs i \<le> p \<and> p < cs (Suc i) \<and> cs i \<le> q - 1 \<and> q - 1 < cs (Suc i)}"
      by (rule tri_set)
    finally show ?thesis unfolding cs_def True .
  next
    case False
    then have lt: "i < j" using ij by simp
    let ?t = "\<lparr>start_A = cs j + 1, stop_A = cs (Suc j) + 1, start_B = cs i, stop_B = cs (Suc i)\<rparr>"
    have pos: "0 < S" using ij by simp
    have b: "build_StatTask_auto strat (i, j) = Inr ?t"
      using build_StatTask_auto_ok[OF st S ij(2), of i] False lt ij by (simp add: cs_def)
    have st': "cs i < cs (Suc i)"
      unfolding cs_def by (rule chunk_start_strict[OF S pos])
    have le: "cs j \<le> cs (Suc j)" by (rule mono) simp
    have ord: "cs (Suc i) \<le> cs j" by (rule mono) (use lt in simp)
    have "auto_task_pairs strat (i, j) = unordered ` set (task_pairs True ?t)"
      by (simp add: auto_task_pairs_def b)
    also have "set (task_pairs True ?t) =
       {(a, b). cs j + 1 \<le> a \<and> a < cs (Suc j) + 1 \<and> cs i \<le> b \<and> b < cs (Suc i)}"
      using set_task_pairs_rectangle[of True ?t] st' le by simp
    also have "unordered ` \<dots> = {(p, q). p < q \<and> cs i \<le> p \<and> p < cs (Suc i) \<and> cs j \<le> q - 1 \<and> q - 1 < cs (Suc j)}"
      by (rule rect_unordered[OF ord])
    finally show ?thesis unfolding cs_def .
  qed
qed


lemma valid_auto_bounds:
  assumes "2 * num_segments strat + 1 \<le> n_points strat"
  shows "num_segments strat \<le> n_points strat - 1"
  using assms by linarith

lemma auto_tasks_built:
  assumes S: "num_segments strat \<le> n_points strat - 1" and idx: "idx \<in> auto_indices strat"
  shows "\<exists>t. build_StatTask_auto strat idx = Inr t"
proof -
  obtain i j where ij: "idx = (i, j)" "i \<le> j" "j < num_segments strat"
    using idx by (auto simp: auto_indices_def)
  then have "i < num_segments strat" by simp
  then show ?thesis
    using build_StatTask_auto_ok[OF refl refl S ij(3), of i] ij by simp
qed

lemma auto_tasks_disjoint:
  assumes S: "num_segments strat \<le> n_points strat - 1"
      and idx: "idx \<in> auto_indices strat" "idx' \<in> auto_indices strat" "idx \<noteq> idx'"
  shows "auto_task_pairs strat idx \<inter> auto_task_pairs strat idx' = {}"
proof -
  obtain i j where ij: "idx = (i, j)" "i \<le> j" "j < num_segments strat"
    using idx(1) by (auto simp: auto_indices_def)
  obtain i' j' where ij': "idx' = (i', j')" "i' \<le> j'" "j' < num_segments strat"
    using idx(2) by (auto simp: auto_indices_def)
  show ?thesis
  proof (rule ccontr)
    assume "auto_task_pairs strat idx \<inter> auto_task_pairs strat idx' \<noteq> {}"
    then obtain p q where m: "(p, q) \<in> auto_task_pairs strat (i, j)"
        and m': "(p, q) \<in> auto_task_pairs strat (i', j')"
      using ij(1) ij'(1) by auto
    from m have a: "chunk_start (n_points strat - 1) (num_segments strat) i \<le> p"
        "p < chunk_start (n_points strat - 1) (num_segments strat) (Suc i)"
        "chunk_start (n_points strat - 1) (num_segments strat) j \<le> q - 1"
        "q - 1 < chunk_start (n_points strat - 1) (num_segments strat) (Suc j)"
      unfolding auto_task_pairs_char[OF refl refl S ij(2,3)] by simp_all
    from m' have b: "chunk_start (n_points strat - 1) (num_segments strat) i' \<le> p"
        "p < chunk_start (n_points strat - 1) (num_segments strat) (Suc i')"
        "chunk_start (n_points strat - 1) (num_segments strat) j' \<le> q - 1"
        "q - 1 < chunk_start (n_points strat - 1) (num_segments strat) (Suc j')"
      unfolding auto_task_pairs_char[OF refl refl S ij'(2,3)] by simp_all
    have "i = i'" by (rule chunk_tiling_unique[OF a(1,2) b(1,2)])
    moreover have "j = j'" by (rule chunk_tiling_unique[OF a(3,4) b(3,4)])
    ultimately show False using idx(3) ij(1) ij'(1) by simp
  qed
qed

lemma auto_tasks_cover:
  assumes S: "num_segments strat \<le> n_points strat - 1" and pos: "1 \<le> num_segments strat"
  shows "(\<Union>idx \<in> auto_indices strat. auto_task_pairs strat idx) =
           {(p, q). p < q \<and> q < n_points strat}"
proof (intro equalityI subsetI)
  fix x assume "x \<in> (\<Union>idx \<in> auto_indices strat. auto_task_pairs strat idx)"
  then obtain i j where ij: "i \<le> j" "j < num_segments strat"
      and x: "x \<in> auto_task_pairs strat (i, j)"
    by (auto simp: auto_indices_def)
  obtain p q where pq: "x = (p, q)" by (cases x)
  from x pq have a: "p < q"
        "q - 1 < chunk_start (n_points strat - 1) (num_segments strat) (Suc j)"
    unfolding auto_task_pairs_char[OF refl refl S ij] by simp_all
  have "chunk_start (n_points strat - 1) (num_segments strat) (Suc j)
          \<le> chunk_start (n_points strat - 1) (num_segments strat) (num_segments strat)"
    by (rule chunk_start_mono) (use ij in simp)
  also have "\<dots> = n_points strat - 1"
    by (rule chunk_start_full) (use pos in simp)
  finally have "q - 1 < n_points strat - 1" using a(2) by simp
  then show "x \<in> {(p, q). p < q \<and> q < n_points strat}"
    using a(1) pq by simp
next
  fix x assume "x \<in> {(p, q). p < q \<and> q < n_points strat}"
  then obtain p q where pq: "x = (p, q)" "p < q" "q < n_points strat" by auto
  let ?cs = "chunk_start (n_points strat - 1) (num_segments strat)"
  have full: "?cs (num_segments strat) = n_points strat - 1"
    by (rule chunk_start_full) (use pos in simp)
  have "p < ?cs (num_segments strat)" using pq full by simp
  from chunk_tiling_ex[OF this] obtain i where i: "i < num_segments strat" "?cs i \<le> p" "p < ?cs (Suc i)"
    by blast
  have "q - 1 < ?cs (num_segments strat)" using pq full by simp
  from chunk_tiling_ex[OF this] obtain j where j: "j < num_segments strat" "?cs j \<le> q - 1" "q - 1 < ?cs (Suc j)"
    by blast
  have "i \<le> j"
  proof (rule ccontr)
    assume "\<not> i \<le> j"
    then have "Suc j \<le> i" by simp
    from chunk_start_mono[OF this, of "n_points strat - 1" "num_segments strat"] i j pq
    show False by linarith
  qed
  then have "(i, j) \<in> auto_indices strat" using j by (simp add: auto_indices_def)
  moreover have "x \<in> auto_task_pairs strat (i, j)"
    unfolding auto_task_pairs_char[OF refl refl S \<open>i \<le> j\<close> j(1)] using pq i j by simp
  ultimately show "x \<in> (\<Union>idx \<in> auto_indices strat. auto_task_pairs strat idx)" by blast
qed


lemma build_StatTask_cross_ok:
  assumes "num_segments_A strat \<le> n_points_A strat" "num_segments_B strat \<le> n_points_B strat"
      and "i < num_segments_A strat" "j < num_segments_B strat"
  shows "build_StatTask_cross strat (i, j) =
           Inr \<lparr>start_A = chunk_start (n_points_A strat) (num_segments_A strat) i,
                stop_A = chunk_start (n_points_A strat) (num_segments_A strat) (Suc i),
                start_B = chunk_start (n_points_B strat) (num_segments_B strat) j,
                stop_B = chunk_start (n_points_B strat) (num_segments_B strat) (Suc j)\<rparr>"
  using assms by (simp add: build_StatTask_cross_def calc_chunk_slice_ok)

lemma cross_task_pairs_char:
  assumes v: "num_segments_A strat \<le> n_points_A strat" "num_segments_B strat \<le> n_points_B strat"
      and ij: "i < num_segments_A strat" "j < num_segments_B strat"
  shows "cross_task_pairs strat (i, j) =
          {(a, b). chunk_start (n_points_A strat) (num_segments_A strat) i \<le> a
                 \<and> a < chunk_start (n_points_A strat) (num_segments_A strat) (Suc i)
                 \<and> chunk_start (n_points_B strat) (num_segments_B strat) j \<le> b
                 \<and> b < chunk_start (n_points_B strat) (num_segments_B strat) (Suc j)}"
proof -
  let ?t = "\<lparr>start_A = chunk_start (n_points_A strat) (num_segments_A strat) i,
                stop_A = chunk_start (n_points_A strat) (num_segments_A strat) (Suc i),
                start_B = chunk_start (n_points_B strat) (num_segments_B strat) j,
                stop_B = chunk_start (n_points_B strat) (num_segments_B strat) (Suc j)\<rparr>"
  have a: "chunk_start (n_points_A strat) (num_segments_A strat) i
            \<le> chunk_start (n_points_A strat) (num_segments_A strat) (Suc i)"
    by (rule chunk_start_mono) simp
  have b: "chunk_start (n_points_B strat) (num_segments_B strat) j
            \<le> chunk_start (n_points_B strat) (num_segments_B strat) (Suc j)"
    by (rule chunk_start_mono) simp
  have "cross_task_pairs strat (i, j) = set (task_pairs False ?t)"
    by (simp add: cross_task_pairs_def build_StatTask_cross_ok[OF v ij])
  also have "\<dots> = {(a, b). start_A ?t \<le> a \<and> a < stop_A ?t \<and> start_B ?t \<le> b \<and> b < stop_B ?t}"
    by (rule set_task_pairs_rectangle) (use a b in simp_all)
  finally show ?thesis by simp
qed

lemma cross_tasks_built:
  assumes v: "num_segments_A strat \<le> n_points_A strat" "num_segments_B strat \<le> n_points_B strat"
      and idx: "idx \<in> cross_indices strat"
  shows "\<exists>t. build_StatTask_cross strat idx = Inr t"
proof -
  obtain i j where ij: "idx = (i, j)" "i < num_segments_A strat" "j < num_segments_B strat"
    using idx by (auto simp: cross_indices_def)
  show ?thesis
    using build_StatTask_cross_ok[OF v ij(2,3)] ij(1) by simp
qed

lemma cross_tasks_disjoint:
  assumes v: "num_segments_A strat \<le> n_points_A strat" "num_segments_B strat \<le> n_points_B strat"
      and idx: "idx \<in> cross_indices strat" "idx' \<in> cross_indices strat" "idx \<noteq> idx'"
  shows "cross_task_pairs strat idx \<inter> cross_task_pairs strat idx' = {}"
proof -
  obtain i j where ij: "idx = (i, j)" "i < num_segments_A strat" "j < num_segments_B strat"
    using idx(1) by (auto simp: cross_indices_def)
  obtain i' j' where ij': "idx' = (i', j')" "i' < num_segments_A strat" "j' < num_segments_B strat"
    using idx(2) by (auto simp: cross_indices_def)
  let ?A = "chunk_start (n_points_A strat) (num_segments_A strat)"
  let ?B = "chunk_start (n_points_B strat) (num_segments_B strat)"
  show ?thesis
  proof (rule ccontr)
    assume "cross_task_pairs strat idx \<inter> cross_task_pairs strat idx' \<noteq> {}"
    then obtain a b where m: "(a, b) \<in> cross_task_pairs strat (i, j)"
        and m': "(a, b) \<in> cross_task_pairs strat (i', j')"
      using ij(1) ij'(1) by auto
    from m have x: "?A i \<le> a" "a < ?A (Suc i)" "?B j \<le> b" "b < ?B (Suc j)"
      unfolding cross_task_pairs_char[OF v ij(2,3)] by simp_all
    from m' have y: "?A i' \<le> a" "a < ?A (Suc i')" "?B j' \<le> b" "b < ?B (Suc j')"
      unfolding cross_task_pairs_char[OF v ij'(2,3)] by simp_all
    have "i = i'" by (rule chunk_tiling_unique[OF x(1,2) y(1,2)])
    moreover have "j = j'" by (rule chunk_tiling_unique[OF x(3,4) y(3,4)])
    ultimately show False using idx(3) ij(1) ij'(1) by simp
  qed
qed

lemma cross_tasks_cover:
  assumes v: "num_segments_A strat \<le> n_points_A strat" "num_segments_B strat \<le> n_points_B strat"
      and pos: "1 \<le> num_segments_A strat" "1 \<le> num_segments_B strat"
  shows "(\<Union>idx \<in> cross_indices strat. cross_task_pairs strat idx) =
           {(a, b). a < n_points_A strat \<and> b < n_points_B strat}"
proof (intro equalityI subsetI)
  let ?A = "chunk_start (n_points_A strat) (num_segments_A strat)"
  let ?B = "chunk_start (n_points_B strat) (num_segments_B strat)"
  have fullA: "?A (num_segments_A strat) = n_points_A strat"
    by (rule chunk_start_full) (use pos in simp)
  have fullB: "?B (num_segments_B strat) = n_points_B strat"
    by (rule chunk_start_full) (use pos in simp)
  {
    fix x assume "x \<in> (\<Union>idx \<in> cross_indices strat. cross_task_pairs strat idx)"
    then obtain i j where ij: "i < num_segments_A strat" "j < num_segments_B strat"
        and x: "x \<in> cross_task_pairs strat (i, j)"
      by (auto simp: cross_indices_def)
    obtain a b where ab: "x = (a, b)" by (cases x)
    from x ab have m: "a < ?A (Suc i)" "b < ?B (Suc j)"
      unfolding cross_task_pairs_char[OF v ij] by simp_all
    have "?A (Suc i) \<le> ?A (num_segments_A strat)"
      by (rule chunk_start_mono) (use ij in simp)
    moreover have "?B (Suc j) \<le> ?B (num_segments_B strat)"
      by (rule chunk_start_mono) (use ij in simp)
    ultimately show "x \<in> {(a, b). a < n_points_A strat \<and> b < n_points_B strat}"
      using m ab fullA fullB by simp
  next
    fix x assume "x \<in> {(a, b). a < n_points_A strat \<and> b < n_points_B strat}"
    then obtain a b where ab: "x = (a, b)" "a < n_points_A strat" "b < n_points_B strat" by auto
    have "a < ?A (num_segments_A strat)" using ab fullA by simp
    from chunk_tiling_ex[OF this] obtain i where i: "i < num_segments_A strat" "?A i \<le> a" "a < ?A (Suc i)"
      by blast
    have "b < ?B (num_segments_B strat)" using ab fullB by simp
    from chunk_tiling_ex[OF this] obtain j where j: "j < num_segments_B strat" "?B j \<le> b" "b < ?B (Suc j)"
      by blast
    have "(i, j) \<in> cross_indices strat" using i j by (simp add: cross_indices_def)
    moreover have "x \<in> cross_task_pairs strat (i, j)"
      unfolding cross_task_pairs_char[OF v i(1) j(1)] using ab i j by simp
    ultimately show "x \<in> (\<Union>idx \<in> cross_indices strat. cross_task_pairs strat idx)" by blast
  }
qed

lemma calc_chunk_slice_stop_le:
  assumes "calc_chunk_slice chunk_index array_len num_chunks = Inr slc"
  shows "start slc \<le> stop slc \<and> stop slc \<le> array_len"
proof -
  from assms have ok: "num_chunks \<le> array_len" "chunk_index < num_chunks"
    by (auto simp: calc_chunk_slice_def split: if_splits)
  then have pos: "0 < num_chunks" by simp
  from assms ok have slc: "slc = \<lparr>start = chunk_start array_len num_chunks chunk_index,
                      stop = chunk_start array_len num_chunks (Suc chunk_index)\<rparr>"
    by (simp add: calc_chunk_slice_ok)
  have "chunk_start array_len num_chunks chunk_index \<le> chunk_start array_len num_chunks (Suc chunk_index)"
    by (rule chunk_start_mono) simp
  moreover have "chunk_start array_len num_chunks (Suc chunk_index) \<le> chunk_start array_len num_chunks num_chunks"
    by (rule chunk_start_mono) (use ok in simp)
  ultimately show ?thesis
    using chunk_start_full[OF pos, of array_len] slc by simp
qed

text \<open>
  C1. For every valid auto strategy and every valid cross strategy, \<open>build_StatTask\<close>
  yields a task at every 2D index; the pair sets that the kernel enumerates for the tasks
  at two different 2D indices are disjoint; and the union of the pair sets over all 2D
  indices is the full pair set of the strategy: all unordered pairs \<open>i < j\<close> in
  \<open>[0, n_points)\<close> for an auto strategy, all of \<open>[0, n_points_A) \<times> [0, n_points_B)\<close> for a
  cross strategy.
\<close>

theorem partition_tasks_disjoint_cover:
  "(valid_auto_strategy a \<longrightarrow>
      (\<forall>idx \<in> auto_indices a. \<exists>t. build_StatTask_auto a idx = Inr t) \<and>
      (\<forall>idx \<in> auto_indices a. \<forall>idx' \<in> auto_indices a.
          idx \<noteq> idx' \<longrightarrow> auto_task_pairs a idx \<inter> auto_task_pairs a idx' = {}) \<and>
      (\<Union>idx \<in> auto_indices a. auto_task_pairs a idx) = {(i, j). i < j \<and> j < n_points a}) \<and>
   (valid_cross_strategy c \<longrightarrow>
      (\<forall>idx \<in> cross_indices c. \<exists>t. build_StatTask_cross c idx = Inr t) \<and>
      (\<forall>idx \<in> cross_indices c. \<forall>idx' \<in> cross_indices c.
          idx \<noteq> idx' \<longrightarrow> cross_task_pairs c idx \<inter> cross_task_pairs c idx' = {}) \<and>
      (\<Union>idx \<in> cross_indices c. cross_task_pairs c idx) =
          {(i, j). i < n_points_A c \<and> j < n_points_B c})"
proof (intro conjI impI ballI)
  assume v: "valid_auto_strategy a"
  then have S: "num_segments a \<le> n_points a - 1" and pos: "1 \<le> num_segments a"
    by (auto simp: valid_auto_strategy_def)
  show "(\<Union>idx \<in> auto_indices a. auto_task_pairs a idx) = {(i, j). i < j \<and> j < n_points a}"
    by (rule auto_tasks_cover[OF S pos])
  {
    fix idx assume "idx \<in> auto_indices a"
    then show "\<exists>t. build_StatTask_auto a idx = Inr t"
      by (rule auto_tasks_built[OF S])
  }
  {
    fix idx idx' assume "idx \<in> auto_indices a" "idx' \<in> auto_indices a" "idx \<noteq> idx'"
    then show "auto_task_pairs a idx \<inter> auto_task_pairs a idx' = {}"
      by (rule auto_tasks_disjoint[OF S])
  }
next
  assume v: "valid_cross_strategy c"
  then have le: "num_segments_A c \<le> n_points_A c" "num_segments_B c \<le> n_points_B c"
    and pos: "1 \<le> num_segments_A c" "1 \<le> num_segments_B c"
    by (simp_all add: valid_cross_strategy_def)
  show "(\<Union>idx \<in> cross_indices c. cross_task_pairs c idx) =
          {(i, j). i < n_points_A c \<and> j < n_points_B c}"
    by (rule cross_tasks_cover[OF le pos])
  {
    fix idx assume "idx \<in> cross_indices c"
    then show "\<exists>t. build_StatTask_cross c idx = Inr t"
      by (rule cross_tasks_built[OF le])
  }
  {
    fix idx idx' assume "idx \<in> cross_indices c" "idx' \<in> cross_indices c" "idx \<noteq> idx'"
    then show "cross_task_pairs c idx \<inter> cross_task_pairs c idx' = {}"
      by (rule cross_tasks_disjoint[OF le])
  }
qed

theorem partition_tasks_disjoint_cover_witness:
  "valid_auto_strategy \<lparr>n_points = 5, num_segments = 2\<rparr> \<and>
   (0, 1) \<in> auto_indices \<lparr>n_points = 5, num_segments = 2\<rparr> \<and>
   (1, 1) \<in> auto_indices \<lparr>n_points = 5, num_segments = 2\<rparr> \<and>
   (\<exists>t. build_StatTask_auto \<lparr>n_points = 5, num_segments = 2\<rparr> (0, 1) = Inr t) \<and>
   auto_task_pairs \<lparr>n_points = 5, num_segments = 2\<rparr> (0, 1) \<inter>
     auto_task_pairs \<lparr>n_points = 5, num_segments = 2\<rparr> (1, 1) = {} \<and>
   (\<Union>idx \<in> auto_indices \<lparr>n_points = 5, num_segments = 2\<rparr>.
      auto_task_pairs \<lparr>n_points = 5, num_segments = 2\<rparr> idx) = {(i, j). i < j \<and> j < 5} \<and>
   valid_cross_strategy \<lparr>n_points_A = 3, num_segments_A = 2, n_points_B = 2, num_segments_B = 1\<rparr> \<and>
   (0, 0) \<in> cross_indices \<lparr>n_points_A = 3, num_segments_A = 2, n_points_B = 2, num_segments_B = 1\<rparr> \<and>
   (1, 0) \<in> cross_indices \<lparr>n_points_A = 3, num_segments_A = 2, n_points_B = 2, num_segments_B = 1\<rparr> \<and>
   (\<exists>t. build_StatTask_cross \<lparr>n_points_A = 3, num_segments_A = 2, n_points_B = 2, num_segments_B = 1\<rparr> (1, 0) = Inr t) \<and>
   cross_task_pairs \<lparr>n_points_A = 3, num_segments_A = 2, n_points_B = 2, num_segments_B = 1\<rparr> (0, 0) \<inter>
     cross_task_pairs \<lparr>n_points_A = 3, num_segments_A = 2, n_points_B = 2, num_segments_B = 1\<rparr> (1, 0) = {} \<and>
   (\<Union>idx \<in> cross_indices \<lparr>n_points_A = 3, num_segments_A = 2, n_points_B = 2, num_segments_B = 1\<rparr>.
      cross_task_pairs \<lparr>n_points_A = 3, num_segments_A = 2, n_points_B = 2, num_segments_B = 1\<rparr> idx)
     = {(i, j). i < 3 \<and> j < 2}"
proof -
  let ?a = "\<lparr>n_points = 5, num_segments = 2\<rparr>"
  let ?c = "\<lparr>n_points_A = 3, num_segments_A = 2, n_points_B = 2, num_segments_B = 1\<rparr>"
  have va: "valid_auto_strategy ?a" by (simp add: valid_auto_strategy_def)
  have vc: "valid_cross_strategy ?c" by (simp add: valid_cross_strategy_def)
  have ia: "(0, 1) \<in> auto_indices ?a" "(1, 1) \<in> auto_indices ?a"
    by (simp_all add: auto_indices_def)
  have ic: "(0, 0) \<in> cross_indices ?c" "(1, 0) \<in> cross_indices ?c"
    by (simp_all add: cross_indices_def)
  have ne: "(0::nat, 1::nat) \<noteq> (1, 1)" "(0::nat, 0::nat) \<noteq> (1, 0)" by simp_all
  note TA = partition_tasks_disjoint_cover[of ?a ?c, THEN conjunct1, THEN mp, OF va]
  note TC = partition_tasks_disjoint_cover[of ?a ?c, THEN conjunct2, THEN mp, OF vc]
  note A = TA[THEN conjunct1]
  note B = TA[THEN conjunct2, THEN conjunct1]
  note C = TA[THEN conjunct2, THEN conjunct2]
  note D = TC[THEN conjunct1]
  note E = TC[THEN conjunct2, THEN conjunct1]
  note F = TC[THEN conjunct2, THEN conjunct2]
  have 1: "\<exists>t. build_StatTask_auto ?a (0, 1) = Inr t"
    by (rule A[THEN bspec, OF ia(1)])
  have 2: "auto_task_pairs ?a (0, 1) \<inter> auto_task_pairs ?a (1, 1) = {}"
    by (rule B[THEN bspec, OF ia(1), THEN bspec, OF ia(2), THEN mp, OF ne(1)])
  have 3: "\<exists>t. build_StatTask_cross ?c (1, 0) = Inr t"
    by (rule D[THEN bspec, OF ic(2)])
  have 4: "cross_task_pairs ?c (0, 0) \<inter> cross_task_pairs ?c (1, 0) = {}"
    by (rule E[THEN bspec, OF ic(1), THEN bspec, OF ic(2), THEN mp, OF ne(2)])
  from C have 5: "(\<Union>idx \<in> auto_indices ?a. auto_task_pairs ?a idx) = {(i, j). i < j \<and> j < 5}" by simp
  from F have 6: "(\<Union>idx \<in> cross_indices ?c. cross_task_pairs ?c idx) = {(i, j). i < 3 \<and> j < 2}" by simp
  show ?thesis
    using va vc ia ic 1 2 3 4 5 6 by (intro conjI)
qed

section \<open>The number of segments chosen by the auto factory\<close>

lemma num_dist_array_chunks_auto_triangle:
  "num_dist_array_chunks_auto S = S * (S + 1) div 2"
proof -
  have "even ((S - 1) * S)" by (cases S) simp_all
  then obtain k where k: "(S - 1) * S = 2 * k" by (rule evenE)
  have "S * (S + 1) = (S - 1) * S + 2 * S" by (cases S) simp_all
  then have "S * (S + 1) = 2 * (k + S)" using k by simp
  then have "S * (S + 1) div 2 = k + S" by simp
  moreover have "(S - 1) * S div 2 = k" using k by simp
  ultimately show ?thesis by (simp add: num_dist_array_chunks_auto_def)
qed

lemma create_loop_least:
  assumes "\<exists>S. cur \<le> S \<and> 3 * np \<le> num_dist_array_chunks_auto S"
  shows "create_loop np max_segments cur =
           min max_segments (LEAST S. cur \<le> S \<and> 3 * np \<le> num_dist_array_chunks_auto S)"
  using assms
proof (induction np max_segments cur rule: create_loop.induct)
  case (1 np max_segments cur)
  let ?P = "\<lambda>c S. c \<le> S \<and> 3 * np \<le> num_dist_array_chunks_auto S"
  from "1.prems" obtain S0 where S0: "?P cur S0" by blast
  have ge: "cur \<le> (LEAST S. ?P cur S)"
    using LeastI[of "?P cur" S0] S0 by simp
  show ?case
  proof (cases "max_segments \<le> cur")
    case True
    then show ?thesis using ge by (subst create_loop.simps) simp
  next
    case False
    show ?thesis
    proof (cases "3 * np \<le> num_dist_array_chunks_auto cur")
      case True
      have "(LEAST S. ?P cur S) = cur"
        by (rule Least_equality) (use True in simp_all)
      then show ?thesis using False True by (subst create_loop.simps) simp
    next
      case F2: False
      have eqP: "?P cur = ?P (cur + 1)"
      proof (rule ext)
        fix S show "?P cur S = ?P (cur + 1) S"
          using F2 by (cases "S = cur") auto
      qed
      from S0 have "?P (cur + 1) S0" using eqP by metis
      then have ex: "\<exists>S. ?P (cur + 1) S" by blast
      have "create_loop np max_segments cur = create_loop np max_segments (cur + 1)"
        using False F2 by (subst create_loop.simps) simp
      also have "\<dots> = min max_segments (LEAST S. ?P (cur + 1) S)"
        using "1.IH" False F2 ex by simp
      finally show ?thesis using eqP by simp
    qed
  qed
qed

lemma chunks_unbounded: "\<exists>S. cur \<le> S \<and> 3 * np \<le> num_dist_array_chunks_auto S"
proof -
  have "3 * np \<le> num_dist_array_chunks_auto (cur + 3 * np)"
    by (simp add: num_dist_array_chunks_auto_def)
  then show ?thesis by (intro exI[of _ "cur + 3 * np"]) simp
qed

text \<open>
  C5, as amended. For \<open>1 \<le> nproc \<le> 60\<close> and \<open>N \<ge> 2\<close> the factory never aborts with
  \<open>too many segments\<close>. When the problem is small, or \<open>nproc = 1\<close>, or \<open>N \<le> 4\<close>, it returns
  one segment. Otherwise it returns the smallest \<open>S \<ge> 2\<close> with \<open>S (S + 1) / 2 \<ge> 3 nproc\<close>,
  clamped to \<open>max_segments = (N - 1) / 2\<close>, and this \<open>S\<close> satisfies \<open>S \<ge> 2\<close> and
  \<open>2 S + 1 \<le> N\<close>.
\<close>

theorem create_auto_num_segments:
  "1 \<le> np \<and> np \<le> 60 \<and> 2 \<le> N \<longrightarrow>
     create_auto np N skip \<noteq> Inl (Fatal ''too many segments'') \<and>
     (((\<not> skip \<and> N \<le> 1000) \<or> np = 1 \<or> N \<le> 4) \<longrightarrow>
        create_auto np N skip = Inr \<lparr>n_points = N, num_segments = 1\<rparr>) \<and>
     (\<not> ((\<not> skip \<and> N \<le> 1000) \<or> np = 1 \<or> N \<le> 4) \<longrightarrow>
        create_auto np N skip =
          Inr \<lparr>n_points = N,
               num_segments = min ((N - 1) div 2) (LEAST S. 2 \<le> S \<and> 3 * np \<le> S * (S + 1) div 2)\<rparr> \<and>
        2 \<le> min ((N - 1) div 2) (LEAST S. 2 \<le> S \<and> 3 * np \<le> S * (S + 1) div 2) \<and>
        2 * min ((N - 1) div 2) (LEAST S. 2 \<le> S \<and> 3 * np \<le> S * (S + 1) div 2) + 1 \<le> N)"
proof (intro impI)
  assume a: "1 \<le> np \<and> np \<le> 60 \<and> 2 \<le> N"
  let ?L = "LEAST S. 2 \<le> S \<and> 3 * np \<le> S * (S + 1) div 2"
  let ?m = "(N - 1) div 2"
  have loop: "create_loop np max_segs 2 = min max_segs ?L" for max_segs
    using create_loop_least[OF chunks_unbounded, where cur = 2 and np = np and max_segments = max_segs]
    by (simp add: num_dist_array_chunks_auto_triangle)
  have L2: "2 \<le> ?L"
  proof -
    from chunks_unbounded[of 2 np] obtain S0 where "2 \<le> S0 \<and> 3 * np \<le> S0 * (S0 + 1) div 2"
      by (auto simp: num_dist_array_chunks_auto_triangle)
    from LeastI[of "\<lambda>S. 2 \<le> S \<and> 3 * np \<le> S * (S + 1) div 2", OF this] show ?thesis by simp
  qed
  show "create_auto np N skip \<noteq> Inl (Fatal ''too many segments'') \<and>
     (((\<not> skip \<and> N \<le> 1000) \<or> np = 1 \<or> N \<le> 4) \<longrightarrow>
        create_auto np N skip = Inr \<lparr>n_points = N, num_segments = 1\<rparr>) \<and>
     (\<not> ((\<not> skip \<and> N \<le> 1000) \<or> np = 1 \<or> N \<le> 4) \<longrightarrow>
        create_auto np N skip = Inr \<lparr>n_points = N, num_segments = min ?m ?L\<rparr> \<and>
        2 \<le> min ?m ?L \<and> 2 * min ?m ?L + 1 \<le> N)"
  proof (cases "(\<not> skip \<and> N \<le> 1000) \<or> np = 1 \<or> N \<le> 4")
    case True
    have "create_auto np N skip = Inr \<lparr>n_points = N, num_segments = 1\<rparr>"
    proof (cases "N \<le> 4")
      case T4: True
      then show ?thesis using a by (simp add: create_auto_def Let_def)
    next
      case F4: False
      then have "(\<not> skip \<and> N \<le> 1000) \<or> np = 1" using True by simp
      then show ?thesis using a F4 by (auto simp: create_auto_def Let_def)
    qed
    then have "create_auto np N skip \<noteq> Inl (Fatal ''too many segments'')"
      and "create_auto np N skip = Inr \<lparr>n_points = N, num_segments = 1\<rparr>"
      by simp_all
    then show ?thesis using True by blast
  next
    case False
    then have N5: "5 \<le> N" and np2: "np \<noteq> 1" and ns: "\<not> (\<not> skip \<and> N \<le> 1000)" by auto
    have m2: "2 \<le> ?m" using N5 by linarith
    have bound: "2 * min ?m ?L + 1 \<le> N"
    proof -
      have "2 * min ?m ?L \<le> 2 * ?m" by simp
      also have "\<dots> \<le> N - 1" by simp
      finally show ?thesis using N5 by linarith
    qed
    have m1: "?m \<noteq> 1" using m2 by simp
    have eq: "create_auto np N skip = Inr \<lparr>n_points = N, num_segments = min ?m ?L\<rparr>"
      using a N5 np2 ns m1 bound by (auto simp add: create_auto_def Let_def loop not_less)
    have c1: "create_auto np N skip \<noteq> Inl (Fatal ''too many segments'')"
      using eq by simp
    have c3: "2 \<le> min ?m ?L" using m2 L2 by simp
    show ?thesis using False c1 eq c3 bound by blast
  qed
qed

theorem create_auto_num_segments_witness:
  "(1::nat) \<le> 2 \<and> (2::nat) \<le> 60 \<and> (2::nat) \<le> 2000 \<and>
   \<not> ((\<not> True \<and> (2000::nat) \<le> 1000) \<or> (2::nat) = 1 \<or> (2000::nat) \<le> 4) \<and>
   create_auto 2 2000 True \<noteq> Inl (Fatal ''too many segments'') \<and>
   create_auto 2 2000 True =
     Inr \<lparr>n_points = 2000,
          num_segments = min ((2000 - 1) div 2) (LEAST S. 2 \<le> S \<and> 3 * 2 \<le> S * (S + 1) div 2)\<rparr> \<and>
   (1::nat) \<le> 1 \<and> (1::nat) \<le> 60 \<and> (2::nat) \<le> 3 \<and>
   ((\<not> False \<and> (3::nat) \<le> 1000) \<or> (1::nat) = 1 \<or> (3::nat) \<le> 4) \<and>
   create_auto 1 3 False = Inr \<lparr>n_points = 3, num_segments = 1\<rparr>"
  using create_auto_num_segments[of 2 2000 True] create_auto_num_segments[of 1 3 False]
  by simp

text \<open>
  C5 as stated fails on two inputs. With \<open>nproc = 1\<close>, \<open>N = 2000\<close> and the small-problem
  check skipped, the small-problem rule does not apply and \<open>S = 2\<close> lies in
  \<open>[2, max_segments]\<close> with \<open>S (S + 1) / 2 \<ge> 3 nproc\<close>, yet the factory returns \<open>S = 1\<close>. With
  \<open>N = 2\<close> the factory returns \<open>S = 1\<close>, for which \<open>2 S + 1 \<le> N\<close> is false.
\<close>

theorem create_auto_single_proc_counterexample:
  "create_auto 1 2000 True = Inr \<lparr>n_points = 2000, num_segments = 1\<rparr> \<and>
   \<not> (\<not> True \<and> (2000::nat) \<le> 1000) \<and>
   (2::nat) \<le> (2000 - 1) div 2 \<and> (3::nat) * 1 \<le> 2 * (2 + 1) div 2 \<and>
   create_auto 2 2 True = Inr \<lparr>n_points = 2, num_segments = 1\<rparr> \<and>
   \<not> (2 * 1 + 1 \<le> (2::nat))"
  by (simp add: create_auto_def)

section \<open>What the bin search computes\<close>

lemma lower_bound_spec:
  assumes "sorted xs" "first + len \<le> length xs"
  shows "first \<le> lower_bound xs val first len \<and> lower_bound xs val first len \<le> first + len \<and>
         (\<forall>k. first \<le> k \<and> k < lower_bound xs val first len \<longrightarrow> xs ! k < val) \<and>
         (\<forall>k. lower_bound xs val first len \<le> k \<and> k < first + len \<longrightarrow> \<not> xs ! k < val)"
  using assms
proof (induction xs val first len rule: lower_bound.induct)
  case (1 xs val first len)
  show ?case
  proof (cases "len = 0")
    case True
    then show ?thesis by (auto simp: lower_bound.simps)
  next
    case False
    define half where "half = len div 2"
    define middle where "middle = first + half"
    have hl: "half < len" using False by (simp add: half_def)
    have mid: "middle < length xs" using hl "1.prems"(2) by (simp add: middle_def)
    show ?thesis
    proof (cases "xs ! middle < val")
      case True
      have eq: "lower_bound xs val first len = lower_bound xs val (middle + 1) (len - half - 1)"
        using False True by (subst lower_bound.simps) (simp add: Let_def half_def middle_def)
      have "middle + 1 + (len - half - 1) \<le> length xs"
        using hl "1.prems"(2) by (simp add: middle_def)
      from "1.IH"(1)[OF False half_def middle_def True "1.prems"(1) this]
      have IH: "middle + 1 \<le> lower_bound xs val (middle + 1) (len - half - 1)"
        "lower_bound xs val (middle + 1) (len - half - 1) \<le> middle + 1 + (len - half - 1)"
        "\<forall>k. middle + 1 \<le> k \<and> k < lower_bound xs val (middle + 1) (len - half - 1) \<longrightarrow> xs ! k < val"
        "\<forall>k. lower_bound xs val (middle + 1) (len - half - 1) \<le> k \<and> k < middle + 1 + (len - half - 1) \<longrightarrow> \<not> xs ! k < val"
        by blast+
      have below: "xs ! k < val" if "k \<le> middle" for k
      proof -
        have "xs ! k \<le> xs ! middle" using \<open>sorted xs\<close> that mid by (simp add: sorted_nth_mono)
        then show ?thesis using True by simp
      qed
      have e: "middle + 1 + (len - half - 1) = first + len" using hl by (simp add: middle_def)
      let ?r = "lower_bound xs val (middle + 1) (len - half - 1)"
      have a: "first \<le> ?r" using IH(1) by (simp add: middle_def)
      have b: "?r \<le> first + len" using IH(2) e by simp
      have c: "xs ! k < val" if "first \<le> k" "k < ?r" for k
      proof (cases "k \<le> middle")
        case True
        then show ?thesis by (rule below)
      next
        case False
        then have "middle + 1 \<le> k" by simp
        with that IH(3) show ?thesis by blast
      qed
      have d: "\<not> xs ! k < val" if "?r \<le> k" "k < first + len" for k
        using that IH(4) e by simp
      show ?thesis
        unfolding eq using a b c d by blast
    next
      case F2: False
      have eq: "lower_bound xs val first len = lower_bound xs val first half"
        using False F2 by (subst lower_bound.simps) (simp add: Let_def half_def middle_def)
      have "first + half \<le> length xs" using mid by (simp add: middle_def)
      from "1.IH"(2)[OF False half_def middle_def F2 "1.prems"(1) this]
      have IH: "first \<le> lower_bound xs val first half"
        "lower_bound xs val first half \<le> first + half"
        "\<forall>k. first \<le> k \<and> k < lower_bound xs val first half \<longrightarrow> xs ! k < val"
        "\<forall>k. lower_bound xs val first half \<le> k \<and> k < first + half \<longrightarrow> \<not> xs ! k < val"
        by blast+
      have above: "\<not> xs ! k < val" if "middle \<le> k" "k < first + len" for k
      proof -
        have "xs ! middle \<le> xs ! k" using \<open>sorted xs\<close> that "1.prems"(2) by (simp add: sorted_nth_mono)
        then show ?thesis using F2 by simp
      qed
      let ?r = "lower_bound xs val first half"
      have b: "?r \<le> first + len" using IH(2) hl by simp
      have d: "\<not> xs ! k < val" if "?r \<le> k" "k < first + len" for k
      proof (cases "k < first + half")
        case True
        with that IH(4) show ?thesis by blast
      next
        case False
        then have "middle \<le> k" by (simp add: middle_def)
        then show ?thesis using that(2) by (rule above)
      qed
      show ?thesis
        unfolding eq using IH(1) b IH(3) d by blast
    qed
  qed
qed


lemma identify_bin_index_inside:
  assumes "sorted edges" "length edges = nbins + 1"
      and "i < nbins" "edges ! i < x" "x \<le> edges ! (i + 1)"
  shows "identify_bin_index x edges nbins = i"
proof -
  let ?p = "lower_bound edges x 0 (nbins + 1)"
  from lower_bound_spec[OF assms(1), of 0 "nbins + 1" x] assms(2)
  have p: "?p \<le> nbins + 1" "\<forall>k. k < ?p \<longrightarrow> edges ! k < x"
      "\<forall>k. ?p \<le> k \<and> k < nbins + 1 \<longrightarrow> \<not> edges ! k < x"
    by simp_all
  have "\<not> ?p \<le> i" using p(3) assms(3,4) by auto
  moreover have "\<not> i + 1 < ?p" using p(2) assms(5) by auto
  ultimately have "?p = i + 1" by simp
  then show ?thesis using assms(3) by (simp add: identify_bin_index_def)
qed

lemma identify_bin_index_outside:
  assumes "sorted edges" "length edges = nbins + 1"
      and "x \<le> edges ! 0 \<or> edges ! nbins < x"
  shows "identify_bin_index x edges nbins = nbins"
proof -
  let ?p = "lower_bound edges x 0 (nbins + 1)"
  from lower_bound_spec[OF assms(1), of 0 "nbins + 1" x] assms(2)
  have p: "?p \<le> nbins + 1" "\<forall>k. k < ?p \<longrightarrow> edges ! k < x"
      "\<forall>k. ?p \<le> k \<and> k < nbins + 1 \<longrightarrow> \<not> edges ! k < x"
    by simp_all
  from assms(3) show ?thesis
  proof
    assume "x \<le> edges ! 0"
    then have "\<not> 0 < ?p" using p(2) by auto
    then show ?thesis by (simp add: identify_bin_index_def)
  next
    assume "edges ! nbins < x"
    then have "\<not> ?p \<le> nbins" using p(3) by auto
    with p(1) have "?p = nbins + 1" by simp
    then show ?thesis by (simp add: identify_bin_index_def)
  qed
qed

lemma lower_bound_range:
  "first \<le> lower_bound xs val first len \<and> lower_bound xs val first len \<le> first + len"
proof (induction xs val first len rule: lower_bound.induct)
  case (1 xs val first len)
  show ?case
  proof (cases "len = 0")
    case True
    then show ?thesis by (simp add: lower_bound.simps)
  next
    case False
    define half where "half = len div 2"
    define middle where "middle = first + half"
    have hl: "half < len" using False by (simp add: half_def)
    show ?thesis
    proof (cases "xs ! middle < val")
      case True
      have eq: "lower_bound xs val first len = lower_bound xs val (middle + 1) (len - half - 1)"
        using False True by (subst lower_bound.simps) (simp add: Let_def half_def middle_def)
      from "1.IH"(1)[OF False half_def middle_def True] hl
      show ?thesis unfolding eq by (simp add: middle_def)
    next
      case F2: False
      have eq: "lower_bound xs val first len = lower_bound xs val first half"
        using False F2 by (subst lower_bound.simps) (simp add: Let_def half_def middle_def)
      from "1.IH"(2)[OF False half_def middle_def F2] hl
      show ?thesis unfolding eq by simp
    qed
  qed
qed

lemma identify_bin_index_le:
  "identify_bin_index x edges nbins \<le> nbins"
  using lower_bound_range[of 0 edges x "nbins + 1"]
  by (auto simp: identify_bin_index_def Let_def)

section \<open>Statistic names, ignored weights, bin search\<close>

text \<open>
  C8. For the unweighted central-moment accumulator the claim wants \<open>stat_name()\<close> to
  return \<open>cmoment3\<close> at \<open>Order = 3\<close> and \<open>variance\<close> at \<open>Order = 2\<close>. The code returns
  \<open>variance\<close> at \<open>Order = 2\<close>, but at \<open>Order = 3\<close> it falls through to the failing
  \<open>static_assert\<close>, because the branch that returns \<open>cmoment3\<close> is guarded by \<open>Order == 2\<close>.
\<close>

theorem stat_name_order_3_falls_through:
  "CentralMomentAccum_stat_name 3 False = Inl (StaticAssert ''weird template specialization'') \<and>
   CentralMomentAccum_stat_name 2 False = Inr ''variance''"
  by (simp add: CentralMomentAccum_stat_name_def)

lemma stat_name_never_cmoment3:
  "CentralMomentAccum_stat_name Order weighted \<noteq> Inr ''cmoment3''"
  by (simp add: CentralMomentAccum_stat_name_def)

text \<open>
  C9. For the unweighted (integer-count) central-moment and origin-moment accumulators,
  \<open>add_entry(v, w)\<close> yields the same result as \<open>add_entry(v)\<close>, for every order, state,
  value and weight.
\<close>

theorem unweighted_add_entry_ignores_weight:
  "CentralMomentAccum_add_entry_weight Order acc v w = CentralMomentAccum_add_entry Order acc v \<and>
   OriginMomentAccum_add_entry_weight Order acc v w = OriginMomentAccum_add_entry Order acc v"
  by (simp add: CentralMomentAccum_add_entry_weight_def OriginMomentAccum_add_entry_weight_def)

text \<open>
  C2. The claim wants the index \<open>i\<close> with \<open>edges[i] \<le> x < edges[i+1]\<close>. At a value that
  equals an inner edge the code returns the bin below, at \<open>x = edges[0]\<close> it returns
  \<open>nbins\<close>, and at \<open>x = edges[nbins]\<close> it returns the last bin.
\<close>

theorem identify_bin_index_on_an_edge:
  "identify_bin_index (1::real) [0, 1, 2] 2 = 0 \<and>
   identify_bin_index (0::real) [0, 1, 2] 2 = 2 \<and>
   identify_bin_index (2::real) [0, 1, 2] 2 = 1"
  by (simp add: identify_bin_index_def lower_bound.simps Let_def)

section \<open>Merging histogram collections\<close>

lemma consolidate_loop_length:
  "length (fold (\<lambda>i counts. counts[i := counts ! i + ys ! i]) [0..<n] xs) = length xs"
  by (induction n) simp_all

lemma consolidate_loop_nth:
  assumes "k < length xs"
  shows "fold (\<lambda>i counts. counts[i := counts ! i + ys ! i]) [0..<n] xs ! k =
           (if k < n then xs ! k + ys ! k else xs ! k)"
proof (induction n)
  case 0
  show ?case by simp
next
  case (Suc n)
  let ?f = "fold (\<lambda>i counts. counts[i := counts ! i + ys ! i]) [0..<n] xs"
  have len: "length ?f = length xs" by (rule consolidate_loop_length)
  have "fold (\<lambda>i counts. counts[i := counts ! i + ys ! i]) [0..<Suc n] xs = ?f[n := ?f ! n + ys ! n]"
    by simp
  then show ?case
    using Suc assms len by (cases "k = n") (simp_all add: nth_list_update)
qed

lemma consolidate_loop_map2:
  assumes "length ys = length xs"
  shows "fold (\<lambda>i counts. counts[i := counts ! i + ys ! i]) [0..<length xs] xs =
           map2 (+) xs ys"
proof (rule nth_equalityI)
  show "length (fold (\<lambda>i counts. counts[i := counts ! i + ys ! i]) [0..<length xs] xs) =
          length (map2 (+) xs ys)"
    using assms by (simp add: consolidate_loop_length)
next
  fix k assume "k < length (fold (\<lambda>i counts. counts[i := counts ! i + ys ! i]) [0..<length xs] xs)"
  then have k: "k < length xs" by (simp add: consolidate_loop_length)
  then show "fold (\<lambda>i counts. counts[i := counts ! i + ys ! i]) [0..<length xs] xs ! k =
               map2 (+) xs ys ! k"
    using assms by (simp add: consolidate_loop_nth)
qed

text \<open>
  C10. \<open>consolidate_with_other\<close> of two histogram collections aborts with the mismatch
  error exactly when their shapes \<open>(n_spatial_bins, n_data_bins)\<close> differ. When the shapes
  are equal, it succeeds and adds the counts of \<open>other\<close> element by element, whatever the
  two data-bin edge arrays are; everything else of \<open>this\<close> is kept.
\<close>

theorem histogram_consolidate_compares_shapes_only:
  "((\<exists>e. GenericHistogramAccumCollection_consolidate_with_other this other = Inl e) \<longleftrightarrow>
      (n_spatial_bins other \<noteq> n_spatial_bins this \<or> n_data_bins other \<noteq> n_data_bins this)) \<and>
   (n_spatial_bins other \<noteq> n_spatial_bins this \<or> n_data_bins other \<noteq> n_data_bins this \<longrightarrow>
      GenericHistogramAccumCollection_consolidate_with_other this other =
        Inl (Fatal ''There seemed to be a mismatch during consolidation'')) \<and>
   (histogram_wf this \<and> histogram_wf other \<and>
    n_spatial_bins other = n_spatial_bins this \<and> n_data_bins other = n_data_bins this \<longrightarrow>
      GenericHistogramAccumCollection_consolidate_with_other this other =
        Inr (this\<lparr>bin_counts := map2 (+) (bin_counts this) (bin_counts other)\<rparr>))"
proof (intro conjI impI)
  show "(\<exists>e. GenericHistogramAccumCollection_consolidate_with_other this other = Inl e) \<longleftrightarrow>
      (n_spatial_bins other \<noteq> n_spatial_bins this \<or> n_data_bins other \<noteq> n_data_bins this)"
    by (auto simp: GenericHistogramAccumCollection_consolidate_with_other_def Let_def)
next
  assume "n_spatial_bins other \<noteq> n_spatial_bins this \<or> n_data_bins other \<noteq> n_data_bins this"
  then show "GenericHistogramAccumCollection_consolidate_with_other this other =
        Inl (Fatal ''There seemed to be a mismatch during consolidation'')"
    by (auto simp: GenericHistogramAccumCollection_consolidate_with_other_def)
next
  assume a: "histogram_wf this \<and> histogram_wf other \<and>
    n_spatial_bins other = n_spatial_bins this \<and> n_data_bins other = n_data_bins this"
  then have len: "length (bin_counts other) = length (bin_counts this)"
    by (simp add: histogram_wf_def)
  show "GenericHistogramAccumCollection_consolidate_with_other this other =
        Inr (this\<lparr>bin_counts := map2 (+) (bin_counts this) (bin_counts other)\<rparr>)"
    using a by (simp add: GenericHistogramAccumCollection_consolidate_with_other_def Let_def
        consolidate_loop_map2[OF len])
qed

theorem histogram_consolidate_compares_shapes_only_witness:
  "histogram_wf \<lparr>n_spatial_bins = 1, n_data_bins = 2, bin_counts = [1, 2 :: int],
                 data_bin_edges = [0, 1, 2]\<rparr> \<and>
   histogram_wf \<lparr>n_spatial_bins = 1, n_data_bins = 2, bin_counts = [10, 20 :: int],
                 data_bin_edges = [5, 6, 7]\<rparr> \<and>
   GenericHistogramAccumCollection_consolidate_with_other
     \<lparr>n_spatial_bins = 1, n_data_bins = 2, bin_counts = [1, 2 :: int], data_bin_edges = [0, 1, 2]\<rparr>
     \<lparr>n_spatial_bins = 1, n_data_bins = 2, bin_counts = [10, 20], data_bin_edges = [5, 6, 7]\<rparr>
   = Inr \<lparr>n_spatial_bins = 1, n_data_bins = 2, bin_counts = [11, 22], data_bin_edges = [0, 1, 2]\<rparr> \<and>
   GenericHistogramAccumCollection_consolidate_with_other
     \<lparr>n_spatial_bins = 1, n_data_bins = 2, bin_counts = [1, 2 :: int], data_bin_edges = [0, 1, 2]\<rparr>
     \<lparr>n_spatial_bins = 2, n_data_bins = 1, bin_counts = [10, 20], data_bin_edges = [0, 1]\<rparr>
   = Inl (Fatal ''There seemed to be a mismatch during consolidation'')"
  using histogram_consolidate_compares_shapes_only
          [of "\<lparr>n_spatial_bins = 1, n_data_bins = 2, bin_counts = [1, 2 :: int], data_bin_edges = [0, 1, 2]\<rparr>"
              "\<lparr>n_spatial_bins = 1, n_data_bins = 2, bin_counts = [10, 20], data_bin_edges = [5, 6, 7]\<rparr>"]
        histogram_consolidate_compares_shapes_only
          [of "\<lparr>n_spatial_bins = 1, n_data_bins = 2, bin_counts = [1, 2 :: int], data_bin_edges = [0, 1, 2]\<rparr>"
              "\<lparr>n_spatial_bins = 2, n_data_bins = 1, bin_counts = [10, 20], data_bin_edges = [0, 1]\<rparr>"]
  by (simp add: histogram_wf_def)

section \<open>The weighted central-moment accumulator\<close>

lemma weighted_inv_init:
  "1 \<le> Order \<Longrightarrow> weighted_inv Order (MomentAccum_init Order)"
  by (simp add: weighted_inv_def MomentAccum_init_def LUT_mean_def)

lemma weighted_add_entry_count:
  "count (WeightedCentralMomentAccum_add_entry_weight Order acc val weight) = count acc + weight"
  by (simp add: WeightedCentralMomentAccum_add_entry_weight_def Let_def)

lemma weighted_add_entry_length:
  "length (moment_accums (WeightedCentralMomentAccum_add_entry_weight Order acc val weight)) =
     length (moment_accums acc)"
  by (simp add: WeightedCentralMomentAccum_add_entry_weight_def Let_def)

lemma weighted_add_entry_mean:
  assumes "0 < length (moment_accums acc)"
  shows "moment_accums (WeightedCentralMomentAccum_add_entry_weight Order acc val weight) ! LUT_mean =
     moment_accums acc ! LUT_mean +
       ((val - moment_accums acc ! LUT_mean) * weight) /
         (count acc + weight + (if count acc + weight = 0 then 1 else 0))"
  using assms
  by (simp add: WeightedCentralMomentAccum_add_entry_weight_def Let_def LUT_mean_def LUT_cur_M2_def)

lemma weighted_inv_add:
  assumes "weighted_inv Order acc" "0 \<le> weight"
  shows "weighted_inv Order (WeightedCentralMomentAccum_add_entry_weight Order acc val weight)"
proof -
  from assms(1) have o: "1 \<le> Order" and len: "length (moment_accums acc) = Order"
    and c: "0 \<le> count acc" and z: "count acc = 0 \<longrightarrow> moment_accums acc ! LUT_mean = 0"
    by (simp_all add: weighted_inv_def)
  have pos: "0 < length (moment_accums acc)" using o len by simp
  have "moment_accums (WeightedCentralMomentAccum_add_entry_weight Order acc val weight) ! LUT_mean = 0"
    if "count acc + weight = 0"
  proof -
    from that c assms(2) have "count acc = 0" "weight = 0" by linarith+
    then show ?thesis using z by (simp add: weighted_add_entry_mean[OF pos])
  qed
  then show ?thesis
    using o len c assms(2)
    by (simp add: weighted_inv_def weighted_add_entry_count weighted_add_entry_length)
qed

lemma weighted_consolidate_total:
  assumes "weighted_inv Order this" "weighted_inv Order other"
  shows "\<exists>acc. WeightedCentralMomentAccum_consolidate_with_other Order this other = Inr acc \<and>
               weighted_inv Order acc"
proof -
  from assms have c: "0 \<le> count this" "0 \<le> count other"
    and o: "1 \<le> Order" and len: "length (moment_accums this) = Order"
    by (simp_all add: weighted_inv_def)
  show ?thesis
  proof (cases "count this = 0")
    case True
    then show ?thesis using assms(2)
      by (simp add: WeightedCentralMomentAccum_consolidate_with_other_def)
  next
    case False
    show ?thesis
    proof (cases "count other = 0")
      case True
      then show ?thesis using False assms(1)
        by (simp add: WeightedCentralMomentAccum_consolidate_with_other_def)
    next
      case F2: False
      have tot: "0 < count this + count other" using c False F2 by linarith
      then have ne: "count this + count other \<noteq> 0" by simp
      show ?thesis
        using False F2 ne tot o len
        by (simp add: WeightedCentralMomentAccum_consolidate_with_other_def Let_def weighted_inv_def)
    qed
  qed
qed

lemma weighted_reachable_inv:
  "weighted_reachable Order acc \<Longrightarrow> weighted_inv Order acc"
proof (induction rule: weighted_reachable.induct)
  case fresh
  then show ?case by (simp add: weighted_inv_init)
next
  case (add acc weight val)
  then show ?case by (simp add: weighted_inv_add)
next
  case (merge this other acc)
  from weighted_consolidate_total[OF merge.IH] merge.hyps(3) show ?case by simp
qed

text \<open>
  C3, as amended. On a freshly initialised weighted central-moment accumulator,
  \<open>add_entry(v, 0)\<close> leaves the weight sum and the mean at 0. Every accumulator built from
  fresh ones by \<open>add_entry\<close> calls with non-negative weights and by
  \<open>consolidate_with_other\<close> satisfies \<open>count == 0 \<Longrightarrow> mean == 0\<close>, and merging two such
  accumulators never divides by zero.
\<close>

theorem weighted_count_zero_mean_zero:
  "(1 \<le> Order \<and> Order \<le> 2 \<longrightarrow>
      count (WeightedCentralMomentAccum_add_entry_weight Order (MomentAccum_init Order) v 0) = 0 \<and>
      moment_accums (WeightedCentralMomentAccum_add_entry_weight Order (MomentAccum_init Order) v 0)
        ! LUT_mean = 0) \<and>
   (weighted_reachable Order acc \<longrightarrow> count acc = 0 \<longrightarrow> moment_accums acc ! LUT_mean = 0) \<and>
   (weighted_reachable Order this \<and> weighted_reachable Order other \<longrightarrow>
      (\<exists>merged. WeightedCentralMomentAccum_consolidate_with_other Order this other = Inr merged))"
proof (intro conjI impI)
  assume o: "1 \<le> Order \<and> Order \<le> 2"
  then have f: "weighted_reachable Order (MomentAccum_init Order :: real MomentAccum)"
    by (simp add: weighted_reachable.fresh)
  have r: "weighted_reachable Order
             (WeightedCentralMomentAccum_add_entry_weight Order (MomentAccum_init Order) v 0)"
    by (rule weighted_reachable.add[OF f]) simp
  show c: "count (WeightedCentralMomentAccum_add_entry_weight Order (MomentAccum_init Order) v 0) = 0"
    by (simp add: weighted_add_entry_count MomentAccum_init_def)
  show "moment_accums (WeightedCentralMomentAccum_add_entry_weight Order (MomentAccum_init Order) v 0)
          ! LUT_mean = 0"
    using weighted_reachable_inv[OF r] c by (simp add: weighted_inv_def)
next
  assume "weighted_reachable Order acc" "count acc = 0"
  then show "moment_accums acc ! LUT_mean = 0"
    using weighted_reachable_inv[of Order acc] by (simp add: weighted_inv_def)
next
  assume "weighted_reachable Order this \<and> weighted_reachable Order other"
  then have "weighted_inv Order this" "weighted_inv Order other"
    by (simp_all add: weighted_reachable_inv)
  from weighted_consolidate_total[OF this]
  show "\<exists>merged. WeightedCentralMomentAccum_consolidate_with_other Order this other = Inr merged"
    by blast
qed

text \<open>
  C3 as stated fails when a weight is negative: after \<open>add_entry(1, 1)\<close> and
  \<open>add_entry(5, -1)\<close> on a fresh accumulator of order 1 the weight sum is 0 and the mean is
  \<open>-3\<close>. All values are small integers, on which \<open>double\<close> arithmetic is exact.
\<close>

theorem weighted_negative_weight_counterexample:
  "count (WeightedCentralMomentAccum_add_entry_weight 1
            (WeightedCentralMomentAccum_add_entry_weight 1 (MomentAccum_init 1) 1 1) 5 (- 1)) = 0 \<and>
   moment_accums (WeightedCentralMomentAccum_add_entry_weight 1
            (WeightedCentralMomentAccum_add_entry_weight 1 (MomentAccum_init 1) 1 1) 5 (- 1))
     ! LUT_mean = - 3"
  by (simp add: WeightedCentralMomentAccum_add_entry_weight_def MomentAccum_init_def LUT_mean_def
      Let_def)

theorem weighted_count_zero_mean_zero_witness:
  "(1::nat) \<le> 1 \<and> (1::nat) \<le> 2 \<and>
   weighted_reachable 1 (WeightedCentralMomentAccum_add_entry_weight 1 (MomentAccum_init 1) 7 0) \<and>
   count (WeightedCentralMomentAccum_add_entry_weight 1 (MomentAccum_init 1) 7 0) = 0 \<and>
   moment_accums (WeightedCentralMomentAccum_add_entry_weight 1 (MomentAccum_init 1) 7 0)
     ! LUT_mean = 0 \<and>
   weighted_reachable 1 (WeightedCentralMomentAccum_add_entry_weight 1 (MomentAccum_init 1) 7 2) \<and>
   (\<exists>merged. WeightedCentralMomentAccum_consolidate_with_other 1
      (WeightedCentralMomentAccum_add_entry_weight 1 (MomentAccum_init 1) 7 0)
      (WeightedCentralMomentAccum_add_entry_weight 1 (MomentAccum_init 1) 7 2) = Inr merged)"
proof -
  let ?A = "WeightedCentralMomentAccum_add_entry_weight 1 (MomentAccum_init 1) 7 0"
  let ?B = "WeightedCentralMomentAccum_add_entry_weight 1 (MomentAccum_init 1) 7 2"
  have f: "weighted_reachable 1 (MomentAccum_init 1 :: real MomentAccum)"
    by (rule weighted_reachable.fresh) simp_all
  have rA: "weighted_reachable 1 ?A" by (rule weighted_reachable.add[OF f]) simp
  have rB: "weighted_reachable 1 ?B" by (rule weighted_reachable.add[OF f]) simp
  have cA: "count ?A = 0" by (simp add: weighted_add_entry_count MomentAccum_init_def)
  note T = weighted_count_zero_mean_zero[of 1 7 ?A ?A ?B]
  have mA: "moment_accums ?A ! LUT_mean = 0"
    by (rule T[THEN conjunct2, THEN conjunct1, THEN mp, OF rA, THEN mp, OF cA])
  have m: "\<exists>merged. WeightedCentralMomentAccum_consolidate_with_other 1 ?A ?B = Inr merged"
    by (rule T[THEN conjunct2, THEN conjunct2, THEN mp, OF conjI[OF rA rB]])
  show ?thesis using rA rB cA mA m by simp
qed

section \<open>The pair kernel visits each index pair once\<close>

lemma fold_bind_err_Inl:
  "fold (\<lambda>x r. bind_err r (h x)) xs (Inl e) = Inl e"
  by (induction xs) simp_all

lemma bind_err_fold:
  "bind_err r (\<lambda>acc. fold (\<lambda>x r. bind_err r (h x)) xs (Inr acc)) =
     fold (\<lambda>x r. bind_err r (h x)) xs r"
  by (cases r) (simp_all add: fold_bind_err_Inl)

lemma nested_fold_pairs:
  "fold (\<lambda>i. fold (\<lambda>j r. bind_err r (g i j)) (L i)) xs r0 =
     fold (\<lambda>p r. bind_err r (g (fst p) (snd p))) (concat (map (\<lambda>i. map (Pair i) (L i)) xs)) r0"
proof (induction xs arbitrary: r0)
  case Nil
  show ?case by simp
next
  case (Cons x xs)
  have "fold (\<lambda>j r. bind_err r (g x j)) (L x) r0 =
          fold (\<lambda>p r. bind_err r (g (fst p) (snd p))) (map (Pair x) (L x)) r0"
    by (simp add: fold_map comp_def)
  then show ?case using Cons by simp
qed

lemma process_data_pairwise:
  assumes "positions points_a = Some pos_a" "values points_a = Some val_a"
      and "positions points_b = Some pos_b" "values points_b = Some val_b"
  shows "process_data add_entry duplicated_points choice points_a points_b dist_sqr_bin_edges nbins
           accumulators =
         fold (\<lambda>p r. bind_err r
                 (bin_and_add add_entry dist_sqr_bin_edges nbins
                    (pair_rslt_at choice pos_a val_a (spatial_dim_stride points_a)
                                  pos_b val_b (spatial_dim_stride points_b) p)))
              (pair_indices duplicated_points (n_points_pp points_a) (n_points_pp points_b))
              (Inr accumulators)"
proof (cases choice)
  case vec_diff
  have "process_data add_entry duplicated_points choice points_a points_b dist_sqr_bin_edges nbins
           accumulators =
        fold (\<lambda>i_a r. fold (\<lambda>i_b r. bind_err r
                 (bin_and_add add_entry dist_sqr_bin_edges nbins
                    (pair_rslt_at choice pos_a val_a (spatial_dim_stride points_a)
                                  pos_b val_b (spatial_dim_stride points_b) (i_a, i_b))))
                 [(if duplicated_points then i_a + 1 else 0)..<n_points_pp points_b] r)
             [0..<n_points_pp points_a] (Inr accumulators)"
    using assms vec_diff
    by (simp add: process_data_def Let_def read_lanes_def read_at_def legacy_calc_pair_rslt_def
        pair_rslt_at_def bind_err_fold)
  then show ?thesis
    by (simp add: nested_fold_pairs pair_indices_def)
next
  case correlate
  have "process_data add_entry duplicated_points choice points_a points_b dist_sqr_bin_edges nbins
           accumulators =
        fold (\<lambda>i_a r. fold (\<lambda>i_b r. bind_err r
                 (bin_and_add add_entry dist_sqr_bin_edges nbins
                    (pair_rslt_at choice pos_a val_a (spatial_dim_stride points_a)
                                  pos_b val_b (spatial_dim_stride points_b) (i_a, i_b))))
                 [(if duplicated_points then i_a + 1 else 0)..<n_points_pp points_b] r)
             [0..<n_points_pp points_a] (Inr accumulators)"
    using assms correlate
    by (simp add: process_data_def Let_def read_lanes_def read_at_def correlate_pair_rslt_def
        pair_rslt_at_def bind_err_fold)
  then show ?thesis
    by (simp add: nested_fold_pairs pair_indices_def)
qed

lemma sum_list_increment:
  fixes xs :: "int list"
  assumes "i < length xs"
  shows "sum_list (xs[i := xs ! i + 1]) = sum_list xs + 1"
  using assms
proof (induction xs arbitrary: i)
  case Nil
  then show ?case by simp
next
  case (Cons x xs)
  then show ?case by (cases i) simp_all
qed

lemma histogram_index_in_range:
  assumes "histogram_wf h" "s < n_spatial_bins h" "d < n_data_bins h"
  shows "d + s * n_data_bins h < length (bin_counts h)"
proof -
  have "d + s * n_data_bins h < n_data_bins h + s * n_data_bins h" using assms(3) by simp
  also have "\<dots> = Suc s * n_data_bins h" by simp
  also have "\<dots> \<le> n_spatial_bins h * n_data_bins h"
    using assms(2) by (intro mult_le_mono1) simp
  finally show ?thesis using assms(1) by (simp add: histogram_wf_def mult.commute)
qed

lemma Histogram_add_entry_shape:
  "n_spatial_bins (Histogram_add_entry h s v) = n_spatial_bins h"
  "n_data_bins (Histogram_add_entry h s v) = n_data_bins h"
  "data_bin_edges (Histogram_add_entry h s v) = data_bin_edges h"
  "length (bin_counts (Histogram_add_entry h s v)) = length (bin_counts h)"
  by (simp_all add: Histogram_add_entry_def Let_def)

lemma Histogram_add_entry_wf:
  "histogram_wf h \<Longrightarrow> histogram_wf (Histogram_add_entry h s v)"
  by (simp add: histogram_wf_def Histogram_add_entry_shape)

lemma Histogram_add_entry_sum:
  assumes "histogram_wf h" "s < n_spatial_bins h"
  shows "sum_list (bin_counts (Histogram_add_entry h s v)) =
           sum_list (bin_counts h) +
           (if identify_bin_index v (data_bin_edges h) (n_data_bins h) < n_data_bins h then 1 else 0)"
proof (cases "identify_bin_index v (data_bin_edges h) (n_data_bins h) < n_data_bins h")
  case True
  from histogram_index_in_range[OF assms True]
  show ?thesis using True by (simp add: Histogram_add_entry_def Let_def sum_list_increment)
next
  case False
  then show ?thesis by (simp add: Histogram_add_entry_def Let_def)
qed

text \<open>
  Whether the kernel's call for a pair result increments a count of histogram \<open>h\<close>: the
  spatial bin index must be below \<open>nbins\<close> and the data bin index below \<open>n_data_bins\<close>.
\<close>

lemma histogram_fold_sum:
  assumes "histogram_wf h" "nbins \<le> n_spatial_bins h"
  shows "\<exists>h'. fold (\<lambda>p r. bind_err r
                  (bin_and_add (no_abort Histogram_add_entry) dist_sqr_bin_edges nbins (f p))) ps (Inr h)
               = Inr h' \<and>
             histogram_wf h' \<and> n_spatial_bins h' = n_spatial_bins h \<and>
             n_data_bins h' = n_data_bins h \<and> data_bin_edges h' = data_bin_edges h \<and>
             sum_list (bin_counts h') =
               sum_list (bin_counts h) +
               int (length (filter (\<lambda>p. identify_bin_index (dist_sqr (f p)) dist_sqr_bin_edges nbins < nbins \<and>
                      identify_bin_index (abs_vdiff (f p)) (data_bin_edges h) (n_data_bins h)
                        < n_data_bins h) ps))"
  using assms
proof (induction ps arbitrary: h)
  case Nil
  then show ?case by simp
next
  case (Cons p ps)
  let ?s = "identify_bin_index (dist_sqr (f p)) dist_sqr_bin_edges nbins"
  show ?case
  proof (cases "?s < nbins")
    case True
    let ?h1 = "Histogram_add_entry h ?s (abs_vdiff (f p))"
    have step: "bin_and_add (no_abort Histogram_add_entry) dist_sqr_bin_edges nbins (f p) h = Inr ?h1"
      using True by (simp add: bin_and_add_def no_abort_def Let_def)
    have s: "?s < n_spatial_bins h" using True Cons.prems(2) by simp
    have wf1: "histogram_wf ?h1" using Cons.prems(1) by (rule Histogram_add_entry_wf)
    have nb: "nbins \<le> n_spatial_bins ?h1" using Cons.prems(2) by (simp add: Histogram_add_entry_shape)
    from Cons.IH[OF wf1 nb] obtain h' where h':
      "fold (\<lambda>p r. bind_err r
          (bin_and_add (no_abort Histogram_add_entry) dist_sqr_bin_edges nbins (f p))) ps (Inr ?h1) = Inr h'"
      "histogram_wf h'" "n_spatial_bins h' = n_spatial_bins ?h1"
      "n_data_bins h' = n_data_bins ?h1" "data_bin_edges h' = data_bin_edges ?h1"
      "sum_list (bin_counts h') =
               sum_list (bin_counts ?h1) +
               int (length (filter (\<lambda>p. identify_bin_index (dist_sqr (f p)) dist_sqr_bin_edges nbins < nbins \<and>
                      identify_bin_index (abs_vdiff (f p)) (data_bin_edges ?h1) (n_data_bins ?h1)
                        < n_data_bins ?h1) ps))"
      by blast
    show ?thesis
      using h' step True Histogram_add_entry_sum[OF Cons.prems(1) s, of "abs_vdiff (f p)"]
      by (intro exI[of _ h']) (simp add: Histogram_add_entry_shape)
  next
    case False
    have step: "bin_and_add (no_abort Histogram_add_entry) dist_sqr_bin_edges nbins (f p) h = Inr h"
      using False by (simp add: bin_and_add_def Let_def)
    from Cons.IH[OF Cons.prems] obtain h' where h':
      "fold (\<lambda>p r. bind_err r
          (bin_and_add (no_abort Histogram_add_entry) dist_sqr_bin_edges nbins (f p))) ps (Inr h) = Inr h'"
      "histogram_wf h'" "n_spatial_bins h' = n_spatial_bins h"
      "n_data_bins h' = n_data_bins h" "data_bin_edges h' = data_bin_edges h"
      "sum_list (bin_counts h') =
               sum_list (bin_counts h) +
               int (length (filter (\<lambda>p. identify_bin_index (dist_sqr (f p)) dist_sqr_bin_edges nbins < nbins \<and>
                      identify_bin_index (abs_vdiff (f p)) (data_bin_edges h) (n_data_bins h)
                        < n_data_bins h) ps))"
      by blast
    show ?thesis
      using h' step False by (intro exI[of _ h']) simp
  qed
qed

text \<open>
  C6, as amended. A run of the pair kernel with a counting histogram, on point sets whose
  arrays are all present, returns, and it raises the sum of \<open>bin_counts\<close> over all data
  bins and all spatial bins by the number of enumerated pairs for which the bin search
  returned a spatial bin index below \<open>nbins\<close> and a data bin index below \<open>n_data_bins\<close>.
  Started from a purged histogram, the sum is that number.
\<close>

theorem histogram_conservation:
  "positions points_a = Some pos_a \<and> values points_a = Some val_a \<and>
   positions points_b = Some pos_b \<and> values points_b = Some val_b \<and>
   histogram_wf h \<and> nbins \<le> n_spatial_bins h \<longrightarrow>
   (\<exists>h'. process_data (no_abort Histogram_add_entry) duplicated_points choice points_a points_b
            dist_sqr_bin_edges nbins h = Inr h' \<and>
          sum_list (bin_counts h') =
            sum_list (bin_counts h) +
            int (length (filter
              (\<lambda>p. identify_bin_index
                      (dist_sqr (pair_rslt_at choice pos_a val_a (spatial_dim_stride points_a)
                                   pos_b val_b (spatial_dim_stride points_b) p))
                      dist_sqr_bin_edges nbins < nbins \<and>
                    identify_bin_index
                      (abs_vdiff (pair_rslt_at choice pos_a val_a (spatial_dim_stride points_a)
                                   pos_b val_b (spatial_dim_stride points_b) p))
                      (data_bin_edges h) (n_data_bins h) < n_data_bins h)
              (pair_indices duplicated_points (n_points_pp points_a) (n_points_pp points_b)))))"
proof (intro impI)
  assume a: "positions points_a = Some pos_a \<and> values points_a = Some val_a \<and>
   positions points_b = Some pos_b \<and> values points_b = Some val_b \<and>
   histogram_wf h \<and> nbins \<le> n_spatial_bins h"
  then have p: "positions points_a = Some pos_a" "values points_a = Some val_a"
      "positions points_b = Some pos_b" "values points_b = Some val_b"
    and wf: "histogram_wf h" and nb: "nbins \<le> n_spatial_bins h"
    by simp_all
  from histogram_fold_sum[OF wf nb, of dist_sqr_bin_edges
        "pair_rslt_at choice pos_a val_a (spatial_dim_stride points_a)
                                   pos_b val_b (spatial_dim_stride points_b)"
        "pair_indices duplicated_points (n_points_pp points_a) (n_points_pp points_b)"]
  show "\<exists>h'. process_data (no_abort Histogram_add_entry) duplicated_points choice points_a points_b
            dist_sqr_bin_edges nbins h = Inr h' \<and>
          sum_list (bin_counts h') =
            sum_list (bin_counts h) +
            int (length (filter
              (\<lambda>p. identify_bin_index
                      (dist_sqr (pair_rslt_at choice pos_a val_a (spatial_dim_stride points_a)
                                   pos_b val_b (spatial_dim_stride points_b) p))
                      dist_sqr_bin_edges nbins < nbins \<and>
                    identify_bin_index
                      (abs_vdiff (pair_rslt_at choice pos_a val_a (spatial_dim_stride points_a)
                                   pos_b val_b (spatial_dim_stride points_b) p))
                      (data_bin_edges h) (n_data_bins h) < n_data_bins h)
              (pair_indices duplicated_points (n_points_pp points_a) (n_points_pp points_b))))"
    unfolding process_data_pairwise[OF p] by blast
qed

lemma pair_indices_True_2_2: "pair_indices True 2 2 = [(0, 1)]"
  by (simp add: pair_indices_def upt_conv_Cons)

theorem histogram_conservation_witness:
  "positions \<lparr>positions = Some (\<lambda>k. if k = 1 then 1 else 0),
              values = Some (\<lambda>k. if k = 0 then 5 else 7),
              n_points_pp = 2, n_spatial_dims = 3, spatial_dim_stride = 2\<rparr>
     = Some (\<lambda>k. if k = 1 then 1 else 0) \<and>
   values \<lparr>positions = Some (\<lambda>k. if k = 1 then 1 else 0),
           values = Some (\<lambda>k. if k = 0 then 5 else 7),
           n_points_pp = 2, n_spatial_dims = 3, spatial_dim_stride = 2\<rparr>
     = Some (\<lambda>k. if k = 0 then 5 else 7) \<and>
   histogram_wf \<lparr>n_spatial_bins = 1, n_data_bins = 1, bin_counts = [0 :: int],
                 data_bin_edges = [0, 100]\<rparr> \<and>
   (1::nat) \<le> n_spatial_bins \<lparr>n_spatial_bins = 1, n_data_bins = 1, bin_counts = [0 :: int],
                 data_bin_edges = [0, 100]\<rparr> \<and>
   (\<exists>h'. process_data (no_abort Histogram_add_entry) True correlate
            \<lparr>positions = Some (\<lambda>k. if k = 1 then 1 else 0),
             values = Some (\<lambda>k. if k = 0 then 5 else 7),
             n_points_pp = 2, n_spatial_dims = 3, spatial_dim_stride = 2\<rparr>
            \<lparr>positions = Some (\<lambda>k. if k = 1 then 1 else 0),
             values = Some (\<lambda>k. if k = 0 then 5 else 7),
             n_points_pp = 2, n_spatial_dims = 3, spatial_dim_stride = 2\<rparr>
            [0, 4] 1
            \<lparr>n_spatial_bins = 1, n_data_bins = 1, bin_counts = [0], data_bin_edges = [0, 100]\<rparr>
          = Inr h' \<and> sum_list (bin_counts h') = 1)"
proof -
  let ?P = "\<lparr>positions = Some (\<lambda>k. if k = 1 then 1 else 0),
             values = Some (\<lambda>k::nat. if k = 0 then 5 else 7 :: real),
             n_points_pp = 2, n_spatial_dims = 3, spatial_dim_stride = 2\<rparr>"
  let ?H = "\<lparr>n_spatial_bins = 1, n_data_bins = 1, bin_counts = [0 :: int],
             data_bin_edges = [0, 100]\<rparr>"
  have hyp: "positions ?P = Some (\<lambda>k. if k = 1 then 1 else 0) \<and>
             values ?P = Some (\<lambda>k. if k = 0 then 5 else 7) \<and>
             positions ?P = Some (\<lambda>k. if k = 1 then 1 else 0) \<and>
             values ?P = Some (\<lambda>k. if k = 0 then 5 else 7) \<and>
             histogram_wf ?H \<and> 1 \<le> n_spatial_bins ?H"
    by (simp add: histogram_wf_def)
  have cnt: "length (filter
              (\<lambda>p. identify_bin_index
                      (dist_sqr (pair_rslt_at correlate (\<lambda>k. if k = 1 then 1 else 0)
                                   (\<lambda>k. if k = 0 then 5 else 7) 2
                                   (\<lambda>k. if k = 1 then 1 else 0) (\<lambda>k. if k = 0 then 5 else 7) 2 p))
                      [0, 4] 1 < 1 \<and>
                    identify_bin_index
                      (abs_vdiff (pair_rslt_at correlate (\<lambda>k. if k = 1 then 1 else 0)
                                   (\<lambda>k. if k = 0 then 5 else 7) 2
                                   (\<lambda>k. if k = 1 then 1 else 0) (\<lambda>k. if k = 0 then 5 else 7) 2 p))
                      [0, 100] 1 < 1)
              (pair_indices True 2 2)) = 1"
    by (simp add: pair_indices_True_2_2 pair_rslt_at_def calc_dist_sqr_def identify_bin_index_def
        lower_bound.simps Let_def)
  from histogram_conservation[of ?P "\<lambda>k. if k = 1 then 1 else 0" "\<lambda>k. if k = 0 then 5 else 7"
         ?P "\<lambda>k. if k = 1 then 1 else 0" "\<lambda>k. if k = 0 then 5 else 7" ?H 1 True correlate "[0, 4]",
         THEN mp, OF hyp]
  have "\<exists>h'. process_data (no_abort Histogram_add_entry) True correlate ?P ?P [0, 4] 1 ?H = Inr h' \<and>
             sum_list (bin_counts h') = 1"
    using cnt by simp
  then show ?thesis using hyp by simp
qed

text \<open>
  C6 as stated fails when a value lies outside the data bins of the histogram. Two points
  at distance 1 with scalars 5 and 7, one spatial bin with squared edges \<open>[0, 4]\<close>, one data
  bin with edges \<open>[0, 10]\<close>, operation \<open>correlate\<close>: the pair falls into spatial bin 0, its
  product 35 lies in no data bin, and every count stays 0.
\<close>

theorem histogram_conservation_counterexample:
  "process_data (no_abort Histogram_add_entry) True correlate
      \<lparr>positions = Some (\<lambda>k. if k = 1 then 1 else 0),
       values = Some (\<lambda>k. if k = 0 then 5 else 7),
       n_points_pp = 2, n_spatial_dims = 3, spatial_dim_stride = 2\<rparr>
      \<lparr>positions = Some (\<lambda>k. if k = 1 then 1 else 0),
       values = Some (\<lambda>k. if k = 0 then 5 else 7),
       n_points_pp = 2, n_spatial_dims = 3, spatial_dim_stride = 2\<rparr>
      [0, 4] 1
      \<lparr>n_spatial_bins = 1, n_data_bins = 1, bin_counts = [0], data_bin_edges = [0, 10]\<rparr>
    = Inr \<lparr>n_spatial_bins = 1, n_data_bins = 1, bin_counts = [0], data_bin_edges = [0, 10]\<rparr> \<and>
   sum_list [0 :: int] = 0 \<and>
   length (filter
     (\<lambda>p. identify_bin_index
             (dist_sqr (pair_rslt_at correlate (\<lambda>k. if k = 1 then 1 else 0)
                          (\<lambda>k. if k = 0 then 5 else 7) 2
                          (\<lambda>k. if k = 1 then 1 else 0) (\<lambda>k. if k = 0 then 5 else 7) 2 p))
             [0, 4] 1 < 1)
     (pair_indices True 2 2)) = 1"
  by (simp add: process_data_def read_lanes_def read_at_def correlate_pair_rslt_def
      bin_and_add_def no_abort_def Histogram_add_entry_def
      pair_indices_True_2_2 pair_rslt_at_def calc_dist_sqr_def identify_bin_index_def
      lower_bound.simps Let_def upt_conv_Cons)

section \<open>Serialization of the collections\<close>

lemma copy_inner_loop:
  assumes "\<And>j. j \<in> set js \<Longrightarrow> access a j = Inr (get a j)"
  shows "fold (\<lambda>j r. bind_err r (\<lambda>out. bind_err (access a j) (\<lambda>v. Inr (out(i + j * n := v)))))
              js (Inr out)
         = Inr (fold (\<lambda>j out. out(i + j * n := get a j)) js out)"
  using assms
proof (induction js arbitrary: out)
  case Nil
  show ?case by simp
next
  case (Cons j js)
  have a: "access a j = Inr (get a j)" by (rule Cons.prems) simp
  have "fold (\<lambda>j r. bind_err r (\<lambda>out. bind_err (access a j) (\<lambda>v. Inr (out(i + j * n := v)))))
              (j # js) (Inr out) =
        fold (\<lambda>j r. bind_err r (\<lambda>out. bind_err (access a j) (\<lambda>v. Inr (out(i + j * n := v)))))
              js (Inr (out(i + j * n := get a j)))"
    by (simp only: fold_simps comp_apply bind_err.simps a)
  also have "\<dots> = Inr (fold (\<lambda>j out. out(i + j * n := get a j)) js (out(i + j * n := get a j)))"
    by (rule Cons.IH) (simp add: Cons.prems)
  finally show ?case by (simp only: fold_simps comp_apply)
qed

lemma copy_outer_loop:
  assumes "\<And>i j. i \<in> set is \<Longrightarrow> j < m \<Longrightarrow> access (xs ! i) j = Inr (get (xs ! i) j)"
  shows "fold (\<lambda>i. fold (\<lambda>j r. bind_err r (\<lambda>out. bind_err (access (xs ! i) j)
                      (\<lambda>v. Inr (out(i + j * n := v))))) [0..<m]) is (Inr out)
         = Inr (fold (\<lambda>i. fold (\<lambda>j out. out(i + j * n := get (xs ! i) j)) [0..<m]) is out)"
  using assms
proof (induction "is" arbitrary: out)
  case Nil
  show ?case by simp
next
  case (Cons i "is")
  have inner: "fold (\<lambda>j r. bind_err r (\<lambda>out. bind_err (access (xs ! i) j)
                      (\<lambda>v. Inr (out(i + j * n := v))))) [0..<m] (Inr out)
        = Inr (fold (\<lambda>j out. out(i + j * n := get (xs ! i) j)) [0..<m] out)"
    by (rule copy_inner_loop) (simp add: Cons.prems)
  have rest: "fold (\<lambda>i. fold (\<lambda>j r. bind_err r (\<lambda>out. bind_err (access (xs ! i) j)
                      (\<lambda>v. Inr (out(i + j * n := v))))) [0..<m]) is (Inr out')
         = Inr (fold (\<lambda>i. fold (\<lambda>j out. out(i + j * n := get (xs ! i) j)) [0..<m]) is out')"
    for out'
    by (rule Cons.IH) (simp add: Cons.prems)
  show ?case
    by (simp only: fold_simps comp_apply inner rest)
qed

lemma written_inner_other:
  assumes "\<And>j. j \<in> set js \<Longrightarrow> k \<noteq> i + j * n"
  shows "fold (\<lambda>j out. out(i + j * n := g j)) js out k = out k"
  using assms
proof (induction js arbitrary: out)
  case Nil
  show ?case by simp
next
  case (Cons j js)
  have "fold (\<lambda>j out. out(i + j * n := g j)) (j # js) out k =
        fold (\<lambda>j out. out(i + j * n := g j)) js (out(i + j * n := g j)) k"
    by (simp only: fold_simps comp_apply)
  also have "\<dots> = (out(i + j * n := g j)) k"
    by (rule Cons.IH) (simp add: Cons.prems)
  also have "\<dots> = out k"
    using Cons.prems[of j] by simp
  finally show ?case .
qed

lemma written_inner_hit:
  assumes "j < m" "0 < (n::nat)"
  shows "fold (\<lambda>j out. out(i + j * n := g j)) [0..<m] out (i + j * n) = g j"
  using assms(1)
proof (induction m)
  case 0
  then show ?case by simp
next
  case (Suc m)
  have step: "fold (\<lambda>j out. out(i + j * n := g j)) [0..<Suc m] out =
        (fold (\<lambda>j out. out(i + j * n := g j)) [0..<m] out)(i + m * n := g m)"
    by simp
  show ?case
  proof (cases "j = m")
    case True
    then show ?thesis unfolding step by simp
  next
    case False
    then have jm: "j < m" using Suc.prems by simp
    have "j * n \<noteq> m * n" using False assms(2) by simp
    then have ne: "i + j * n \<noteq> i + m * n" by simp
    have "fold (\<lambda>j out. out(i + j * n := g j)) [0..<Suc m] out (i + j * n) =
          ((fold (\<lambda>j out. out(i + j * n := g j)) [0..<m] out)(i + m * n := g m)) (i + j * n)"
      by (simp only: step)
    also have "\<dots> = fold (\<lambda>j out. out(i + j * n := g j)) [0..<m] out (i + j * n)"
      using ne by (rule fun_upd_other)
    also have "\<dots> = g j" by (rule Suc.IH[OF jm])
    finally show ?thesis .
  qed
qed

lemma index_other_bin:
  assumes "i < n" "i' < n" "i \<noteq> i'"
  shows "i + j * n \<noteq> i' + j' * (n::nat)"
proof
  assume "i + j * n = i' + j' * n"
  then have "(i + j * n) mod n = (i' + j' * n) mod n" by simp
  then show False using assms by simp
qed

lemma written_outer:
  assumes "i < n" "j < m" "n' \<le> n"
  shows "fold (\<lambda>i. fold (\<lambda>j out. out(i + j * n := g i j)) [0..<m]) [0..<n'] out (i + j * n) =
           (if i < n' then g i j else out (i + j * n))"
  using assms(3)
proof (induction n')
  case 0
  show ?case by simp
next
  case (Suc n')
  let ?prev = "fold (\<lambda>i. fold (\<lambda>j out. out(i + j * n := g i j)) [0..<m]) [0..<n'] out"
  have le: "n' \<le> n" using Suc.prems by simp
  have IH: "?prev (i + j * n) = (if i < n' then g i j else out (i + j * n))"
    by (rule Suc.IH[OF le])
  have step: "fold (\<lambda>i. fold (\<lambda>j out. out(i + j * n := g i j)) [0..<m]) [0..<Suc n'] out =
          fold (\<lambda>j out. out(n' + j * n := g n' j)) [0..<m] ?prev"
    by simp
  show ?case
  proof (cases "i = n'")
    case True
    have "0 < n" using assms(1) by simp
    from written_inner_hit[OF assms(2) this, of n' "g n'" ?prev]
    have "fold (\<lambda>j out. out(n' + j * n := g n' j)) [0..<m] ?prev (n' + j * n) = g n' j" .
    then have "fold (\<lambda>i. fold (\<lambda>j out. out(i + j * n := g i j)) [0..<m]) [0..<Suc n'] out
                 (n' + j * n) = g n' j"
      by (simp only: step)
    moreover have "(if n' < Suc n' then g n' j else out (n' + j * n)) = g n' j" by simp
    ultimately show ?thesis unfolding True by (rule trans[OF _ sym])
  next
    case False
    have other: "i + j * n \<noteq> n' + j' * n" for j'
      by (rule index_other_bin[OF assms(1) _ False]) (use Suc.prems in simp)
    have "fold (\<lambda>i. fold (\<lambda>j out. out(i + j * n := g i j)) [0..<m]) [0..<Suc n'] out (i + j * n) =
          fold (\<lambda>j out. out(n' + j * n := g n' j)) [0..<m] ?prev (i + j * n)"
      by (simp only: step)
    also have "\<dots> = ?prev (i + j * n)"
      by (rule written_inner_other) (rule other)
    also have "\<dots> = (if i < n' then g i j else out (i + j * n))" by (rule IH)
    also have "\<dots> = (if i < Suc n' then g i j else out (i + j * n))"
      using False by (simp add: less_Suc_eq)
    finally show ?thesis .
  qed
qed

lemma copy_vals_closed:
  assumes "\<And>i j. i < length (accum_list X) \<Longrightarrow> j < m \<Longrightarrow>
             access (accum_list X ! i) j = Inr (get (accum_list X ! i) j)"
  shows "\<exists>buf. ScalarAccumCollection_copy_vals access m X out = Inr buf \<and>
           (\<forall>i j. i < length (accum_list X) \<and> j < m \<longrightarrow>
              buf (i + j * length (accum_list X)) = get (accum_list X ! i) j)"
proof -
  let ?n = "length (accum_list X)"
  let ?buf = "fold (\<lambda>i. fold (\<lambda>j out. out(i + j * ?n := get (accum_list X ! i) j)) [0..<m])
                   [0..<?n] out"
  have "ScalarAccumCollection_copy_vals access m X out = Inr ?buf"
    unfolding ScalarAccumCollection_copy_vals_def Let_def
    by (rule copy_outer_loop) (simp add: assms)
  moreover have "?buf (i + j * ?n) = get (accum_list X ! i) j" if "i < ?n" "j < m" for i j
  proof -
    have "?buf (i + j * ?n) =
            (if i < ?n then get (accum_list X ! i) j else out (i + j * ?n))"
      by (rule written_outer[OF that order_refl])
    also have "\<dots> = get (accum_list X ! i) j" using that(1) by (rule if_P)
    finally show ?thesis .
  qed
  ultimately show ?thesis by blast
qed

lemma import_inner_loop:
  assumes "\<And>a j v. j \<in> set js \<Longrightarrow> assign a j v = Inr (asg a j v)"
  shows "fold (\<lambda>j r. bind_err r (\<lambda>c.
                 bind_err (assign (accum_list c ! i) j (in_vals (i + j * n))) (\<lambda>a.
                 Inr (c\<lparr>accum_list := (accum_list c)[i := a]\<rparr>))))
              js (Inr c)
         = Inr (c\<lparr>accum_list := (accum_list c)
                  [i := fold (\<lambda>j a. asg a j (in_vals (i + j * n))) js (accum_list c ! i)]\<rparr>)"
  using assms
proof (induction js arbitrary: c)
  case Nil
  show ?case by simp
next
  case (Cons j js)
  let ?c1 = "c\<lparr>accum_list := (accum_list c)[i := asg (accum_list c ! i) j (in_vals (i + j * n))]\<rparr>"
  have a: "assign (accum_list c ! i) j (in_vals (i + j * n)) =
             Inr (asg (accum_list c ! i) j (in_vals (i + j * n)))"
    by (rule Cons.prems) simp
  have "fold (\<lambda>j r. bind_err r (\<lambda>c.
                 bind_err (assign (accum_list c ! i) j (in_vals (i + j * n))) (\<lambda>a.
                 Inr (c\<lparr>accum_list := (accum_list c)[i := a]\<rparr>))))
              (j # js) (Inr c) =
        fold (\<lambda>j r. bind_err r (\<lambda>c.
                 bind_err (assign (accum_list c ! i) j (in_vals (i + j * n))) (\<lambda>a.
                 Inr (c\<lparr>accum_list := (accum_list c)[i := a]\<rparr>))))
              js (Inr ?c1)"
    by (simp add: a)
  also have "\<dots> = Inr (?c1\<lparr>accum_list := (accum_list ?c1)
                  [i := fold (\<lambda>j a. asg a j (in_vals (i + j * n))) js (accum_list ?c1 ! i)]\<rparr>)"
    by (rule Cons.IH) (simp add: Cons.prems)
  also have "\<dots> = Inr (c\<lparr>accum_list := (accum_list c)
                  [i := fold (\<lambda>j a. asg a j (in_vals (i + j * n))) (j # js) (accum_list c ! i)]\<rparr>)"
  proof (cases "i < length (accum_list c)")
    case True
    then show ?thesis by simp
  next
    case False
    then have "length (accum_list c) \<le> i" by simp
    then show ?thesis by (simp add: list_update_beyond)
  qed
  finally show ?case .
qed


lemma import_outer_loop:
  assumes ok: "\<And>a j v. j < m \<Longrightarrow> assign a j v = Inr (asg a j v)"
      and k: "k \<le> length (accum_list Y)"
  shows "fold (\<lambda>i. fold (\<lambda>j r. bind_err r (\<lambda>c.
                 bind_err (assign (accum_list c ! i) j (in_vals (i + j * n))) (\<lambda>a.
                 Inr (c\<lparr>accum_list := (accum_list c)[i := a]\<rparr>)))) [0..<m])
              [0..<k] (Inr Y)
         = Inr (Y\<lparr>accum_list :=
                  map (\<lambda>i. if i < k
                            then fold (\<lambda>j a. asg a j (in_vals (i + j * n))) [0..<m] (accum_list Y ! i)
                            else accum_list Y ! i)
                      [0..<length (accum_list Y)]\<rparr>)"
  using k
proof (induction k)
  case 0
  have "map (\<lambda>i. accum_list Y ! i) [0..<length (accum_list Y)] = accum_list Y"
    by (rule map_nth)
  then show ?case by simp
next
  case (Suc k)
  let ?F = "\<lambda>i. fold (\<lambda>j a. asg a j (in_vals (i + j * n))) [0..<m] (accum_list Y ! i)"
  let ?ck = "Y\<lparr>accum_list := map (\<lambda>i. if i < k then ?F i else accum_list Y ! i)
                                  [0..<length (accum_list Y)]\<rparr>"
  have kl: "k < length (accum_list Y)" using Suc.prems by simp
  have prev: "fold (\<lambda>i. fold (\<lambda>j r. bind_err r (\<lambda>c.
                 bind_err (assign (accum_list c ! i) j (in_vals (i + j * n))) (\<lambda>a.
                 Inr (c\<lparr>accum_list := (accum_list c)[i := a]\<rparr>)))) [0..<m])
              [0..<k] (Inr Y) = Inr ?ck"
    by (rule Suc.IH) (use kl in simp)
  have "fold (\<lambda>i. fold (\<lambda>j r. bind_err r (\<lambda>c.
                 bind_err (assign (accum_list c ! i) j (in_vals (i + j * n))) (\<lambda>a.
                 Inr (c\<lparr>accum_list := (accum_list c)[i := a]\<rparr>)))) [0..<m])
              [0..<Suc k] (Inr Y) =
        fold (\<lambda>j r. bind_err r (\<lambda>c.
                 bind_err (assign (accum_list c ! k) j (in_vals (k + j * n))) (\<lambda>a.
                 Inr (c\<lparr>accum_list := (accum_list c)[k := a]\<rparr>)))) [0..<m] (Inr ?ck)"
    by (simp add: prev)
  also have "\<dots> = Inr (?ck\<lparr>accum_list := (accum_list ?ck)
                  [k := fold (\<lambda>j a. asg a j (in_vals (k + j * n))) [0..<m] (accum_list ?ck ! k)]\<rparr>)"
    by (rule import_inner_loop) (simp add: ok)
  also have "?ck\<lparr>accum_list := (accum_list ?ck)
                  [k := fold (\<lambda>j a. asg a j (in_vals (k + j * n))) [0..<m] (accum_list ?ck ! k)]\<rparr>
       = Y\<lparr>accum_list := map (\<lambda>i. if i < Suc k then ?F i else accum_list Y ! i)
                                  [0..<length (accum_list Y)]\<rparr>"
  proof -
    have "(map (\<lambda>i. if i < k then ?F i else accum_list Y ! i) [0..<length (accum_list Y)])
            [k := fold (\<lambda>j a. asg a j (in_vals (k + j * n))) [0..<m]
                     (map (\<lambda>i. if i < k then ?F i else accum_list Y ! i)
                          [0..<length (accum_list Y)] ! k)]
          = map (\<lambda>i. if i < Suc k then ?F i else accum_list Y ! i) [0..<length (accum_list Y)]"
      by (rule nth_equalityI) (use kl in \<open>auto simp: nth_list_update less_Suc_eq\<close>)
    then show ?thesis by simp
  qed
  finally show ?case .
qed

lemma import_vals_closed:
  assumes "\<And>a j v. j < m \<Longrightarrow> assign a j v = Inr (asg a j v)"
  shows "ScalarAccumCollection_import_vals assign m Y in_vals =
           Inr (Y\<lparr>accum_list :=
                  map (\<lambda>i. fold (\<lambda>j a. asg a j (in_vals (i + j * length (accum_list Y)))) [0..<m]
                                 (accum_list Y ! i))
                      [0..<length (accum_list Y)]\<rparr>)"
proof -
  have "ScalarAccumCollection_import_vals assign m Y in_vals =
          Inr (Y\<lparr>accum_list :=
                  map (\<lambda>i. if i < length (accum_list Y)
                            then fold (\<lambda>j a. asg a j (in_vals (i + j * length (accum_list Y)))) [0..<m]
                                   (accum_list Y ! i)
                            else accum_list Y ! i)
                      [0..<length (accum_list Y)]\<rparr>)"
    unfolding ScalarAccumCollection_import_vals_def Let_def
    by (rule import_outer_loop[OF assms order_refl])
  moreover have "map (\<lambda>i. if i < length (accum_list Y)
                            then fold (\<lambda>j a. asg a j (in_vals (i + j * length (accum_list Y)))) [0..<m]
                                   (accum_list Y ! i)
                            else accum_list Y ! i)
                      [0..<length (accum_list Y)]
      = map (\<lambda>i. fold (\<lambda>j a. asg a j (in_vals (i + j * length (accum_list Y)))) [0..<m]
                                 (accum_list Y ! i))
                      [0..<length (accum_list Y)]"
    by (rule map_cong) simp_all
  ultimately show ?thesis by simp
qed

lemma fill_list_loop:
  assumes "k \<le> length l"
  shows "fold (\<lambda>j l. l[j := f j]) [0..<k] l = map f [0..<k] @ drop k l"
  using assms
proof (induction k)
  case 0
  show ?case by simp
next
  case (Suc k)
  then have kl: "k < length l" by simp
  have "fold (\<lambda>j l. l[j := f j]) [0..<Suc k] l = (map f [0..<k] @ drop k l)[k := f k]"
    using Suc by simp
  also have "\<dots> = map f [0..<k] @ (drop k l)[0 := f k]"
    by (simp add: list_update_append)
  also have "(drop k l)[0 := f k] = f k # drop (Suc k) l"
    using kl by (simp add: Cons_nth_drop_Suc[symmetric])
  finally show ?case by simp
qed

lemma assign_moments_loop:
  "fold (\<lambda>j a. a\<lparr>moment_accums := (moment_accums a)[j := f j]\<rparr>) js a =
     a\<lparr>moment_accums := fold (\<lambda>j l. l[j := f j]) js (moment_accums a)\<rparr>"
  by (induction js arbitrary: a) simp_all

lemma assign_all_moments:
  assumes "length (moment_accums a) = K" "length xs = K"
  shows "fold (\<lambda>j a. a\<lparr>moment_accums := (moment_accums a)[j := xs ! j]\<rparr>) [0..<K] a =
           a\<lparr>moment_accums := xs\<rparr>"
proof -
  have "fold (\<lambda>j l. l[j := xs ! j]) [0..<K] (moment_accums a) = map ((!) xs) [0..<K]"
    using fill_list_loop[of K "moment_accums a" "(!) xs"] assms(1) by simp
  also have "\<dots> = xs" using assms(2) map_nth[of xs] by simp
  finally show ?thesis by (simp add: assign_moments_loop)
qed

lemma unweighted_round_trip:
  assumes shape: "same_scalar_shape K X Y"
  shows "scalar_round_trip access_i64 assign_i64 1 (access_f64 K) (assign_f64 K) K X Y out_i64 out_flt
           = Inr X"
proof -
  let ?n = "length (accum_list X)"
  from shape have len: "length (accum_list Y) = ?n"
    and lx: "\<And>i. i < ?n \<Longrightarrow> length (moment_accums (accum_list X ! i)) = K"
    and ly: "\<And>i. i < ?n \<Longrightarrow> length (moment_accums (accum_list Y ! i)) = K"
    by (simp_all add: same_scalar_shape_def)
  obtain bi where bi: "ScalarAccumCollection_copy_vals access_i64 1 X out_i64 = Inr bi"
      "\<forall>i j. i < ?n \<and> j < 1 \<longrightarrow> bi (i + j * ?n) = count (accum_list X ! i)"
    using copy_vals_closed[of X 1 access_i64 "\<lambda>a j. count a" out_i64]
    by (auto simp: access_i64_def)
  obtain bf where bf: "ScalarAccumCollection_copy_vals (access_f64 K) K X out_flt = Inr bf"
      "\<forall>i j. i < ?n \<and> j < K \<longrightarrow> bf (i + j * ?n) = moment_accums (accum_list X ! i) ! j"
    using copy_vals_closed[of X K "access_f64 K" "\<lambda>a j. moment_accums a ! j" out_flt]
    by (auto simp: access_f64_def)
  let ?Y1 = "Y\<lparr>accum_list := map (\<lambda>i. fold (\<lambda>j a. a\<lparr>count := bi (i + j * length (accum_list Y))\<rparr>)
                                          [0..<1] (accum_list Y ! i))
                               [0..<length (accum_list Y)]\<rparr>"
  have i1: "ScalarAccumCollection_import_vals assign_i64 1 Y bi = Inr ?Y1"
    by (rule import_vals_closed) (simp add: assign_i64_def)
  have lenY1: "length (accum_list ?Y1) = ?n" using len by simp
  have Y1i: "accum_list ?Y1 ! i = (accum_list Y ! i)\<lparr>count := count (accum_list X ! i)\<rparr>"
    if "i < ?n" for i
    using that len bi(2) by simp
  let ?Y2 = "?Y1\<lparr>accum_list :=
               map (\<lambda>i. fold (\<lambda>j a. a\<lparr>moment_accums := (moment_accums a)
                                           [j := bf (i + j * length (accum_list ?Y1))]\<rparr>)
                              [0..<K] (accum_list ?Y1 ! i))
                   [0..<length (accum_list ?Y1)]\<rparr>"
  have i2: "ScalarAccumCollection_import_vals (assign_f64 K) K ?Y1 bf = Inr ?Y2"
    by (rule import_vals_closed) (simp add: assign_f64_def)
  have "accum_list ?Y2 = accum_list X"
  proof (rule nth_equalityI)
    show "length (accum_list ?Y2) = length (accum_list X)" using len by simp
  next
    fix i assume "i < length (accum_list ?Y2)"
    then have i: "i < ?n" using len by simp
    have "accum_list ?Y2 ! i =
            fold (\<lambda>j a. a\<lparr>moment_accums := (moment_accums a)[j := bf (i + j * ?n)]\<rparr>)
                 [0..<K] ((accum_list Y ! i)\<lparr>count := count (accum_list X ! i)\<rparr>)"
      using i len Y1i[OF i] by simp
    also have "\<dots> = fold (\<lambda>j a. a\<lparr>moment_accums := (moment_accums a)
                                     [j := moment_accums (accum_list X ! i) ! j]\<rparr>)
                 [0..<K] ((accum_list Y ! i)\<lparr>count := count (accum_list X ! i)\<rparr>)"
      by (rule fold_cong) (use bf(2) i in auto)
    also have "\<dots> = (accum_list Y ! i)\<lparr>count := count (accum_list X ! i),
                                        moment_accums := moment_accums (accum_list X ! i)\<rparr>"
      by (rule assign_all_moments) (simp_all add: lx[OF i] ly[OF i])
    also have "\<dots> = accum_list X ! i" by simp
    finally show "accum_list ?Y2 ! i = accum_list X ! i" .
  qed
  then have "?Y2 = X" by simp
  then show ?thesis
    unfolding scalar_round_trip_def by (simp only: bi(1) bf(1) i1 i2 bind_err.simps)
qed

lemma assign_weighted_loop:
  "fold (\<lambda>j a. if j = 0 then a\<lparr>count := f j\<rparr>
                else a\<lparr>moment_accums := (moment_accums a)[j - 1 := f j]\<rparr>) [0..<Suc K] a =
   fold (\<lambda>j a. a\<lparr>moment_accums := (moment_accums a)[j := f (Suc j)]\<rparr>) [0..<K] (a\<lparr>count := f 0\<rparr>)"
proof -
  have "[0..<Suc K] = 0 # map Suc [0..<K]"
    by (simp add: upt_conv_Cons map_Suc_upt)
  then show ?thesis by (simp add: fold_map comp_def)
qed

lemma weighted_round_trip:
  assumes shape: "same_scalar_shape K X Y"
  shows "scalar_round_trip access_i64_weighted assign_i64_weighted 0
           (access_f64_weighted K) (assign_f64_weighted K) (Suc K) X Y out_i64 out_flt = Inr X"
proof -
  let ?n = "length (accum_list X)"
  let ?get = "\<lambda>a j. if j = 0 then count a else moment_accums a ! (j - 1)"
  let ?asg = "\<lambda>a j v. if j = 0 then a\<lparr>count := v\<rparr>
                       else a\<lparr>moment_accums := (moment_accums a)[j - 1 := v]\<rparr>"
  from shape have len: "length (accum_list Y) = ?n"
    and lx: "\<And>i. i < ?n \<Longrightarrow> length (moment_accums (accum_list X ! i)) = K"
    and ly: "\<And>i. i < ?n \<Longrightarrow> length (moment_accums (accum_list Y ! i)) = K"
    by (simp_all add: same_scalar_shape_def)
  obtain bi where bi: "ScalarAccumCollection_copy_vals access_i64_weighted 0 X out_i64 = Inr bi"
    using copy_vals_closed[of X 0 access_i64_weighted "\<lambda>a j. 0" out_i64] by auto
  have "\<exists>buf. ScalarAccumCollection_copy_vals (access_f64_weighted K) (Suc K) X out_flt = Inr buf \<and>
           (\<forall>i j. i < ?n \<and> j < Suc K \<longrightarrow> buf (i + j * ?n) = ?get (accum_list X ! i) j)"
    by (rule copy_vals_closed) (simp add: access_f64_weighted_def)
  then obtain bf where bf: "ScalarAccumCollection_copy_vals (access_f64_weighted K) (Suc K) X out_flt = Inr bf"
      "\<forall>i j. i < ?n \<and> j < Suc K \<longrightarrow> bf (i + j * ?n) = ?get (accum_list X ! i) j"
    by blast
  have "ScalarAccumCollection_import_vals assign_i64_weighted 0 Y bi =
          Inr (Y\<lparr>accum_list := map (\<lambda>i. fold (\<lambda>j a. a) [0..<0] (accum_list Y ! i))
                                    [0..<length (accum_list Y)]\<rparr>)"
    by (rule import_vals_closed) simp
  moreover have "map (\<lambda>i. accum_list Y ! i) [0..<length (accum_list Y)] = accum_list Y"
    by (rule map_nth)
  ultimately have i1: "ScalarAccumCollection_import_vals assign_i64_weighted 0 Y bi = Inr Y"
    by simp
  let ?Y2 = "Y\<lparr>accum_list :=
               map (\<lambda>i. fold (\<lambda>j a. ?asg a j (bf (i + j * length (accum_list Y))))
                              [0..<Suc K] (accum_list Y ! i))
                   [0..<length (accum_list Y)]\<rparr>"
  have i2: "ScalarAccumCollection_import_vals (assign_f64_weighted K) (Suc K) Y bf = Inr ?Y2"
    by (rule import_vals_closed) (simp add: assign_f64_weighted_def)
  have "accum_list ?Y2 = accum_list X"
  proof (rule nth_equalityI)
    show "length (accum_list ?Y2) = length (accum_list X)" using len by simp
  next
    fix i assume "i < length (accum_list ?Y2)"
    then have i: "i < ?n" using len by simp
    have b0: "bf i = count (accum_list X ! i)" using bf(2) i by force
    have bj: "bf (i + Suc j * ?n) = moment_accums (accum_list X ! i) ! j" if "j < K" for j
    proof -
      have "bf (i + Suc j * ?n) = ?get (accum_list X ! i) (Suc j)"
        using bf(2) i that by blast
      then show ?thesis by simp
    qed
    have "accum_list ?Y2 ! i =
            fold (\<lambda>j a. ?asg a j (bf (i + j * ?n))) [0..<Suc K] (accum_list Y ! i)"
      using i by (simp del: upt_Suc add: len cong del: if_weak_cong)
    also have "\<dots> = fold (\<lambda>j a. a\<lparr>moment_accums := (moment_accums a)[j := bf (i + Suc j * ?n)]\<rparr>)
                        [0..<K] ((accum_list Y ! i)\<lparr>count := bf (i + 0 * ?n)\<rparr>)"
      by (rule assign_weighted_loop[of "\<lambda>j. bf (i + j * ?n)"])
    also have "\<dots> = fold (\<lambda>j a. a\<lparr>moment_accums := (moment_accums a)
                                     [j := moment_accums (accum_list X ! i) ! j]\<rparr>)
                 [0..<K] ((accum_list Y ! i)\<lparr>count := count (accum_list X ! i)\<rparr>)"
      by (rule fold_cong) (use bj b0 in auto)
    also have "\<dots> = (accum_list Y ! i)\<lparr>count := count (accum_list X ! i),
                                        moment_accums := moment_accums (accum_list X ! i)\<rparr>"
      by (rule assign_all_moments) (simp_all add: lx[OF i] ly[OF i])
    also have "\<dots> = accum_list X ! i" by simp
    finally show "accum_list ?Y2 ! i = accum_list X ! i" .
  qed
  then have "?Y2 = X" by simp
  then show ?thesis
    unfolding scalar_round_trip_def by (simp only: bi(1) bf(1) i1 i2 bind_err.simps)
qed

lemma histogram_copy_loop:
  "fold (\<lambda>i out. out(i := g i)) [0..<k] out i' = (if i' < k then g i' else out i')"
proof (induction k)
  case 0
  show ?case by simp
next
  case (Suc k)
  have "fold (\<lambda>i out. out(i := g i)) [0..<Suc k] out i' =
          ((fold (\<lambda>i out. out(i := g i)) [0..<k] out)(k := g k)) i'"
    by simp
  also have "\<dots> = (if i' = k then g k else fold (\<lambda>i out. out(i := g i)) [0..<k] out i')"
    by (rule fun_upd_apply)
  also have "\<dots> = (if i' = k then g k else (if i' < k then g i' else out i'))"
    by (simp only: Suc.IH)
  also have "\<dots> = (if i' < Suc k then g i' else out i')"
    by (auto simp: less_Suc_eq)
  finally show ?case .
qed

lemma histogram_round_trip:
  assumes "same_histogram_shape X Y"
  shows "GenericHistogramAccumCollection_import_vals Y
           (GenericHistogramAccumCollection_copy_vals X out_vals) = X"
proof -
  let ?buf = "GenericHistogramAccumCollection_copy_vals X out_vals"
  from assms have len: "length (bin_counts Y) = length (bin_counts X)"
    and same: "n_spatial_bins Y = n_spatial_bins X" "n_data_bins Y = n_data_bins X"
              "data_bin_edges Y = data_bin_edges X"
    by (simp_all add: same_histogram_shape_def)
  have buf: "?buf i = bin_counts X ! i" if "i < length (bin_counts X)" for i
    unfolding GenericHistogramAccumCollection_copy_vals_def
    using histogram_copy_loop[of "\<lambda>i. bin_counts X ! i" "length (bin_counts X)" out_vals i] that
    by simp
  have "fold (\<lambda>i counts. counts[i := ?buf i]) [0..<length (bin_counts Y)] (bin_counts Y) =
          map ?buf [0..<length (bin_counts Y)]"
    using fill_list_loop[of "length (bin_counts Y)" "bin_counts Y" ?buf] by simp
  also have "\<dots> = map (\<lambda>i. bin_counts X ! i) [0..<length (bin_counts X)]"
    unfolding len by (rule map_cong) (simp_all add: buf)
  also have "\<dots> = bin_counts X" by (rule map_nth)
  finally have "bin_counts (GenericHistogramAccumCollection_import_vals Y ?buf) = bin_counts X"
    by (simp add: GenericHistogramAccumCollection_import_vals_def)
  then show ?thesis
    using same by (simp add: GenericHistogramAccumCollection_import_vals_def)
qed

lemma val_names_lengths:
  "length (CentralMomentAccum_i64_val_names False) = 1"
  "length (CentralMomentAccum_i64_val_names True) = 0"
  "length (OriginMomentAccum_i64_val_names False) = 1"
  "length (OriginMomentAccum_i64_val_names True) = 0"
  "1 \<le> K \<Longrightarrow> K \<le> 3 \<Longrightarrow> length (CentralMomentAccum_flt_val_names K False) = K"
  "1 \<le> K \<Longrightarrow> K \<le> 3 \<Longrightarrow> length (CentralMomentAccum_flt_val_names K True) = Suc K"
  "1 \<le> K \<Longrightarrow> length (OriginMomentAccum_flt_val_names K False) = K"
  "1 \<le> K \<Longrightarrow> length (OriginMomentAccum_flt_val_names K True) = Suc K"
  by (auto simp: CentralMomentAccum_i64_val_names_def OriginMomentAccum_i64_val_names_def
      CentralMomentAccum_flt_val_names_def OriginMomentAccum_flt_val_names_def)

text \<open>
  C4, as amended. For every scalar collection \<open>X\<close> (central moments of order 1 to 3 or
  origin moments of any order, unweighted or weighted) and every histogram collection \<open>X\<close>
  (counting or weighted), writing the integer and the floating-point values of \<open>X\<close> to
  buffers with \<open>copy_vals\<close> and reading those buffers back with \<open>import_vals\<close> into a
  collection of the same shape yields \<open>X\<close>. A compound accumulator has no round trip: its
  \<open>import_vals\<close> aborts with \<open>Not Implemented\<close>.
\<close>

theorem serialization_round_trip:
  "(same_scalar_shape Order X Y \<and> 1 \<le> Order \<and> Order \<le> 3 \<longrightarrow>
      scalar_round_trip access_i64 assign_i64 (length (CentralMomentAccum_i64_val_names False))
        (access_f64 Order) (assign_f64 Order) (length (CentralMomentAccum_flt_val_names Order False))
        X Y out_int out_flt = Inr X) \<and>
   (same_scalar_shape Order X Y \<and> 1 \<le> Order \<longrightarrow>
      scalar_round_trip access_i64 assign_i64 (length (OriginMomentAccum_i64_val_names False))
        (access_f64 Order) (assign_f64 Order) (length (OriginMomentAccum_flt_val_names Order False))
        X Y out_int out_flt = Inr X) \<and>
   (same_scalar_shape Order XW YW \<and> 1 \<le> Order \<and> Order \<le> 2 \<longrightarrow>
      scalar_round_trip access_i64_weighted assign_i64_weighted
        (length (CentralMomentAccum_i64_val_names True))
        (access_f64_weighted Order) (assign_f64_weighted Order)
        (length (CentralMomentAccum_flt_val_names Order True))
        XW YW out_int out_flt = Inr XW) \<and>
   (same_scalar_shape Order XW YW \<and> 1 \<le> Order \<longrightarrow>
      scalar_round_trip access_i64_weighted assign_i64_weighted
        (length (OriginMomentAccum_i64_val_names True))
        (access_f64_weighted Order) (assign_f64_weighted Order)
        (length (OriginMomentAccum_flt_val_names Order True))
        XW YW out_int out_flt = Inr XW) \<and>
   (same_histogram_shape H G \<longrightarrow>
      GenericHistogramAccumCollection_import_vals_other
        (GenericHistogramAccumCollection_import_vals G
           (GenericHistogramAccumCollection_copy_vals H out_same))
        (GenericHistogramAccumCollection_copy_vals_other H out_other) = H) \<and>
   CompoundAccumCollection_import_vals members in_vals = Inl (Fatal ''Not Implemented'')"
proof (intro conjI impI)
  assume "same_scalar_shape Order X Y \<and> 1 \<le> Order \<and> Order \<le> 3"
  then have s: "same_scalar_shape Order X Y" and o: "1 \<le> Order" "Order \<le> 3" by simp_all
  show "scalar_round_trip access_i64 assign_i64 (length (CentralMomentAccum_i64_val_names False))
        (access_f64 Order) (assign_f64 Order) (length (CentralMomentAccum_flt_val_names Order False))
        X Y out_int out_flt = Inr X"
    unfolding val_names_lengths(1) val_names_lengths(5)[OF o]
    by (rule unweighted_round_trip[OF s])
next
  assume "same_scalar_shape Order X Y \<and> 1 \<le> Order"
  then have s: "same_scalar_shape Order X Y" and o: "1 \<le> Order" by simp_all
  show "scalar_round_trip access_i64 assign_i64 (length (OriginMomentAccum_i64_val_names False))
        (access_f64 Order) (assign_f64 Order) (length (OriginMomentAccum_flt_val_names Order False))
        X Y out_int out_flt = Inr X"
    unfolding val_names_lengths(3) val_names_lengths(7)[OF o]
    by (rule unweighted_round_trip[OF s])
next
  assume "same_scalar_shape Order XW YW \<and> 1 \<le> Order \<and> Order \<le> 2"
  then have s: "same_scalar_shape Order XW YW" and o: "1 \<le> Order" "Order \<le> 3" by simp_all
  show "scalar_round_trip access_i64_weighted assign_i64_weighted
        (length (CentralMomentAccum_i64_val_names True))
        (access_f64_weighted Order) (assign_f64_weighted Order)
        (length (CentralMomentAccum_flt_val_names Order True))
        XW YW out_int out_flt = Inr XW"
    unfolding val_names_lengths(2) val_names_lengths(6)[OF o]
    by (rule weighted_round_trip[OF s])
next
  assume "same_scalar_shape Order XW YW \<and> 1 \<le> Order"
  then have s: "same_scalar_shape Order XW YW" and o: "1 \<le> Order" by simp_all
  show "scalar_round_trip access_i64_weighted assign_i64_weighted
        (length (OriginMomentAccum_i64_val_names True))
        (access_f64_weighted Order) (assign_f64_weighted Order)
        (length (OriginMomentAccum_flt_val_names Order True))
        XW YW out_int out_flt = Inr XW"
    unfolding val_names_lengths(4) val_names_lengths(8)[OF o]
    by (rule weighted_round_trip[OF s])
next
  assume "same_histogram_shape H G"
  then show "GenericHistogramAccumCollection_import_vals_other
        (GenericHistogramAccumCollection_import_vals G
           (GenericHistogramAccumCollection_copy_vals H out_same))
        (GenericHistogramAccumCollection_copy_vals_other H out_other) = H"
    by (simp add: GenericHistogramAccumCollection_import_vals_other_def histogram_round_trip)
next
  show "CompoundAccumCollection_import_vals members in_vals = Inl (Fatal ''Not Implemented'')"
    by (simp add: CompoundAccumCollection_import_vals_def)
qed

theorem serialization_round_trip_witness:
  "same_scalar_shape 2 \<lparr>accum_list = [\<lparr>count = 3 :: int, moment_accums = [1.5, 2]\<rparr>]\<rparr>
                       \<lparr>accum_list = [MomentAccum_init 2]\<rparr> \<and>
   (1::nat) \<le> 2 \<and> (2::nat) \<le> 3 \<and>
   scalar_round_trip access_i64 assign_i64 (length (CentralMomentAccum_i64_val_names False))
     (access_f64 2) (assign_f64 2) (length (CentralMomentAccum_flt_val_names 2 False))
     \<lparr>accum_list = [\<lparr>count = 3, moment_accums = [1.5, 2]\<rparr>]\<rparr>
     \<lparr>accum_list = [MomentAccum_init 2]\<rparr> (\<lambda>k. 0) (\<lambda>k. 0)
     = Inr \<lparr>accum_list = [\<lparr>count = 3, moment_accums = [1.5, 2]\<rparr>]\<rparr> \<and>
   scalar_round_trip access_i64 assign_i64 (length (OriginMomentAccum_i64_val_names False))
     (access_f64 2) (assign_f64 2) (length (OriginMomentAccum_flt_val_names 2 False))
     \<lparr>accum_list = [\<lparr>count = 3, moment_accums = [1.5, 2]\<rparr>]\<rparr>
     \<lparr>accum_list = [MomentAccum_init 2]\<rparr> (\<lambda>k. 0) (\<lambda>k. 0)
     = Inr \<lparr>accum_list = [\<lparr>count = 3, moment_accums = [1.5, 2]\<rparr>]\<rparr> \<and>
   same_scalar_shape 2 \<lparr>accum_list = [\<lparr>count = 0.5 :: real, moment_accums = [1.5, 2]\<rparr>]\<rparr>
                       \<lparr>accum_list = [MomentAccum_init 2]\<rparr> \<and>
   scalar_round_trip access_i64_weighted assign_i64_weighted
     (length (CentralMomentAccum_i64_val_names True))
     (access_f64_weighted 2) (assign_f64_weighted 2)
     (length (CentralMomentAccum_flt_val_names 2 True))
     \<lparr>accum_list = [\<lparr>count = 0.5, moment_accums = [1.5, 2]\<rparr>]\<rparr>
     \<lparr>accum_list = [MomentAccum_init 2]\<rparr> (\<lambda>k. 0) (\<lambda>k. 0)
     = Inr \<lparr>accum_list = [\<lparr>count = 0.5, moment_accums = [1.5, 2]\<rparr>]\<rparr> \<and>
   scalar_round_trip access_i64_weighted assign_i64_weighted
     (length (OriginMomentAccum_i64_val_names True))
     (access_f64_weighted 2) (assign_f64_weighted 2)
     (length (OriginMomentAccum_flt_val_names 2 True))
     \<lparr>accum_list = [\<lparr>count = 0.5, moment_accums = [1.5, 2]\<rparr>]\<rparr>
     \<lparr>accum_list = [MomentAccum_init 2]\<rparr> (\<lambda>k. 0) (\<lambda>k. 0)
     = Inr \<lparr>accum_list = [\<lparr>count = 0.5, moment_accums = [1.5, 2]\<rparr>]\<rparr> \<and>
   same_histogram_shape
     \<lparr>n_spatial_bins = 1, n_data_bins = 2, bin_counts = [4, 5 :: int], data_bin_edges = [0, 1, 2]\<rparr>
     \<lparr>n_spatial_bins = 1, n_data_bins = 2, bin_counts = [0, 0], data_bin_edges = [0, 1, 2]\<rparr> \<and>
   GenericHistogramAccumCollection_import_vals_other
     (GenericHistogramAccumCollection_import_vals
        \<lparr>n_spatial_bins = 1, n_data_bins = 2, bin_counts = [0, 0], data_bin_edges = [0, 1, 2]\<rparr>
        (GenericHistogramAccumCollection_copy_vals
           \<lparr>n_spatial_bins = 1, n_data_bins = 2, bin_counts = [4, 5 :: int],
             data_bin_edges = [0, 1, 2]\<rparr> (\<lambda>k. 0)))
     (GenericHistogramAccumCollection_copy_vals_other
        \<lparr>n_spatial_bins = 1, n_data_bins = 2, bin_counts = [4, 5 :: int],
          data_bin_edges = [0, 1, 2]\<rparr> (\<lambda>k. 0 :: real))
   = \<lparr>n_spatial_bins = 1, n_data_bins = 2, bin_counts = [4, 5], data_bin_edges = [0, 1, 2]\<rparr>"
proof -
  let ?X = "\<lparr>accum_list = [\<lparr>count = 3 :: int, moment_accums = [1.5, 2]\<rparr>]\<rparr>"
  let ?Y = "\<lparr>accum_list = [MomentAccum_init 2 :: int MomentAccum]\<rparr>"
  let ?XW = "\<lparr>accum_list = [\<lparr>count = 0.5 :: real, moment_accums = [1.5, 2]\<rparr>]\<rparr>"
  let ?YW = "\<lparr>accum_list = [MomentAccum_init 2 :: real MomentAccum]\<rparr>"
  let ?H = "\<lparr>n_spatial_bins = 1, n_data_bins = 2, bin_counts = [4, 5 :: int],
             data_bin_edges = [0, 1, 2]\<rparr>"
  let ?G = "\<lparr>n_spatial_bins = 1, n_data_bins = 2, bin_counts = [0, 0 :: int],
             data_bin_edges = [0, 1, 2]\<rparr>"
  have s: "same_scalar_shape 2 ?X ?Y" by (simp add: same_scalar_shape_def MomentAccum_init_def)
  have sw: "same_scalar_shape 2 ?XW ?YW" by (simp add: same_scalar_shape_def MomentAccum_init_def)
  have sh: "same_histogram_shape ?H ?G" by (simp add: same_histogram_shape_def)
  have o: "(1::nat) \<le> 2" "(2::nat) \<le> 3" "(2::nat) \<le> 2" by simp_all
  note T = serialization_round_trip[where Order = 2 and X = ?X and Y = ?Y and XW = ?XW and YW = ?YW
             and H = ?H and G = ?G and out_int = "\<lambda>k. 0" and out_flt = "\<lambda>k. 0"
             and out_same = "\<lambda>k. 0" and out_other = "\<lambda>k. 0 :: real"
             and members = "[] :: nat list" and in_vals = "\<lambda>k. 0 :: nat"]
  note A = T[THEN conjunct1, THEN mp, OF conjI[OF s conjI[OF o(1) o(2)]]]
  note B = T[THEN conjunct2, THEN conjunct1, THEN mp, OF conjI[OF s o(1)]]
  note C = T[THEN conjunct2, THEN conjunct2, THEN conjunct1, THEN mp, OF conjI[OF sw conjI[OF o(1) o(3)]]]
  note D = T[THEN conjunct2, THEN conjunct2, THEN conjunct2, THEN conjunct1, THEN mp, OF conjI[OF sw o(1)]]
  note E = T[THEN conjunct2, THEN conjunct2, THEN conjunct2, THEN conjunct2, THEN conjunct1, THEN mp, OF sh]
  show ?thesis
    using s sw sh o A B C D E by (intro conjI)
qed

text \<open>
  C4 as stated fails for compound accumulators. A compound of two one-bin collections of
  means: \<open>copy_vals\<close> writes the two counts to the buffer, and \<open>import_vals\<close> on that buffer
  aborts instead of restoring the compound.
\<close>

theorem compound_import_counterexample:
  "bind_err
     (CompoundAccumCollection_copy_vals
        (ScalarAccumCollection_copy_vals access_i64 (length (CentralMomentAccum_i64_val_names False)))
        (\<lambda>c. ScalarAccumCollection_val_props (CentralMomentAccum_i64_val_names False))
        (\<lambda>c. length (accum_list c))
        [\<lparr>accum_list = [\<lparr>count = 3, moment_accums = [1.5]\<rparr>]\<rparr>,
         \<lparr>accum_list = [\<lparr>count = 4, moment_accums = [2.5]\<rparr>]\<rparr>]
        (\<lambda>k. 0))
     (CompoundAccumCollection_import_vals
        [\<lparr>accum_list = [\<lparr>count = 3 :: int, moment_accums = [1.5]\<rparr>]\<rparr>,
         \<lparr>accum_list = [\<lparr>count = 4, moment_accums = [2.5]\<rparr>]\<rparr>])
   = Inl (Fatal ''Not Implemented'')"
  by (simp add: CompoundAccumCollection_copy_vals_def CopyValsHelper_call_def
      ScalarAccumCollection_copy_vals_def ScalarAccumCollection_val_props_def
      CentralMomentAccum_i64_val_names_def access_i64_def
      CompoundAccumCollection_import_vals_def Let_def)

section \<open>The entry point\<close>

lemma bind_err_cases:
  "(\<exists>e. bind_err m f = Inl e) \<or> (\<exists>x. m = Inr x \<and> bind_err m f = f x)"
  by (cases m) simp_all


lemma calc_vsf_props_accepted:
  assumes "\<not> spec_rejects points_a points_b pairwise_op nbins"
  shows "calc_vsf_props ops build_accum_collection openmp OMP_NUM_THREADS points_a points_b
           pairwise_op stat_list stat_list_len edges nbins parallel_spec out_flt_vals out_i64_vals
         = calc_vsf_props_compute ops build_accum_collection openmp OMP_NUM_THREADS points_a
             (resolved_points_b points_a points_b)
             (positions points_b = None \<and> values points_b = None)
             (if pairwise_op = ''correlate'' then correlate else vec_diff)
             stat_list stat_list_len edges nbins parallel_spec out_flt_vals out_i64_vals"
  using assms by (auto simp: calc_vsf_props_def spec_rejects_def resolved_points_b_def Let_def)

lemma calc_vsf_props_helper_process_data:
  "calc_vsf_props_helper ops choice points_a points_b dist_sqr_bin_edges nbins accumulators
     duplicated_points =
   process_data (add_entry_op ops) duplicated_points choice points_a points_b dist_sqr_bin_edges
     nbins accumulators"
  by (simp add: calc_vsf_props_helper_def)

lemma calc_vsf_props_compute_unfold:
  assumes "nbins + 1 \<le> length edges"
  shows "calc_vsf_props_compute ops build_accum_collection openmp OMP_NUM_THREADS points_a
           my_points_b duplicated_points operation_choice stat_list stat_list_len edges nbins
           parallel_spec out_flt_vals out_i64_vals =
         bind_err (build_accum_collection stat_list stat_list_len nbins) (\<lambda>acc0.
         bind_err (if openmp \<and> nproc parallel_spec \<noteq> 1
                   then calc_vsf_props_parallel ops operation_choice openmp OMP_NUM_THREADS
                          points_a my_points_b (squared_bin_edges edges nbins) nbins parallel_spec
                          acc0 duplicated_points
                   else process_data (add_entry_op ops) duplicated_points operation_choice
                          points_a my_points_b (squared_bin_edges edges nbins) nbins acc0)
           (\<lambda>acc1.
         bind_err (copy_flt_vals_op ops acc1 out_flt_vals) (\<lambda>flt_vals.
         bind_err (copy_i64_vals_op ops acc1 out_i64_vals) (\<lambda>i64_vals.
         Inr (True, flt_vals, i64_vals)))))"
proof -
  have ne: "\<not> length edges < nbins + 1" using assms by simp
  show ?thesis
  proof (cases "openmp \<and> nproc parallel_spec \<noteq> 1")
    case True
    then have s: "(if openmp then nproc parallel_spec = 1 else True) = False" by simp
    show ?thesis
      unfolding calc_vsf_props_compute_def Let_def
      by (simp only: ne if_False s True if_True simp_thms)
  next
    case False
    then have s: "(if openmp then nproc parallel_spec = 1 else True) = True" by auto
    show ?thesis
      unfolding calc_vsf_props_compute_def Let_def calc_vsf_props_helper_process_data
      by (simp only: ne if_False s False if_True)
  qed
qed


lemma bin_and_add_good:
  assumes add: "\<forall>acc s v. good acc \<and> s < nbins \<longrightarrow>
                  (\<exists>acc'. add_entry acc s v = Inr acc' \<and> good acc')"
      and g: "good acc"
  shows "\<exists>acc'. bin_and_add add_entry dist_sqr_bin_edges nbins tmp acc = Inr acc' \<and> good acc'"
  using add g by (simp add: bin_and_add_def Let_def)

lemma accumulate_pairs_Cons:
  "accumulate_pairs add_entry choice points_a points_b dist_sqr_bin_edges nbins (p # pairs) acc =
     bind_err (bin_and_add add_entry dist_sqr_bin_edges nbins
                (pair_rslt_at choice
                   (the (positions points_a)) (the (values points_a)) (spatial_dim_stride points_a)
                   (the (positions points_b)) (the (values points_b)) (spatial_dim_stride points_b)
                   p) acc)
       (accumulate_pairs add_entry choice points_a points_b dist_sqr_bin_edges nbins pairs)"
proof (cases "bin_and_add add_entry dist_sqr_bin_edges nbins
                (pair_rslt_at choice
                   (the (positions points_a)) (the (values points_a)) (spatial_dim_stride points_a)
                   (the (positions points_b)) (the (values points_b)) (spatial_dim_stride points_b)
                   p) acc")
  case (Inl e)
  then show ?thesis by (simp add: accumulate_pairs_def fold_bind_err_Inl)
next
  case (Inr a)
  then show ?thesis by (simp add: accumulate_pairs_def)
qed

lemma accumulate_pairs_Nil:
  "accumulate_pairs add_entry choice points_a points_b dist_sqr_bin_edges nbins [] acc = Inr acc"
  by (simp add: accumulate_pairs_def)

lemma accumulate_pairs_append:
  "accumulate_pairs add_entry choice points_a points_b dist_sqr_bin_edges nbins (ps @ qs) acc =
     bind_err (accumulate_pairs add_entry choice points_a points_b dist_sqr_bin_edges nbins ps acc)
       (accumulate_pairs add_entry choice points_a points_b dist_sqr_bin_edges nbins qs)"
proof (induction ps arbitrary: acc)
  case Nil
  show ?case by (simp add: accumulate_pairs_Nil)
next
  case (Cons p ps)
  show ?case
    unfolding append_Cons accumulate_pairs_Cons
    by (cases "bin_and_add add_entry dist_sqr_bin_edges nbins
                (pair_rslt_at choice
                   (the (positions points_a)) (the (values points_a)) (spatial_dim_stride points_a)
                   (the (positions points_b)) (the (values points_b)) (spatial_dim_stride points_b)
                   p) acc") (simp_all add: Cons)
qed

lemma accumulate_pairs_good:
  assumes add: "\<forall>acc s v. good acc \<and> s < nbins \<longrightarrow>
                  (\<exists>acc'. add_entry acc s v = Inr acc' \<and> good acc')"
      and g: "good acc"
  shows "\<exists>acc'. accumulate_pairs add_entry choice points_a points_b dist_sqr_bin_edges nbins
                   pairs acc = Inr acc' \<and> good acc'"
  using g
proof (induction pairs arbitrary: acc)
  case Nil
  then show ?case by (simp add: accumulate_pairs_Nil)
next
  case (Cons p pairs)
  from bin_and_add_good[OF add Cons.prems]
  obtain acc1 where s: "bin_and_add add_entry dist_sqr_bin_edges nbins
                (pair_rslt_at choice
                   (the (positions points_a)) (the (values points_a)) (spatial_dim_stride points_a)
                   (the (positions points_b)) (the (values points_b)) (spatial_dim_stride points_b)
                   p) acc = Inr acc1" and g1: "good acc1"
    by blast
  show ?case unfolding accumulate_pairs_Cons s using Cons.IH[OF g1] by simp
qed


lemma resolved_points_b_pointers:
  assumes "\<not> spec_rejects points_a points_b pairwise_op nbins"
      and "positions points_b = None \<longleftrightarrow> values points_b = None"
  shows "positions points_a \<noteq> None" "values points_a \<noteq> None"
        "positions (resolved_points_b points_a points_b) \<noteq> None"
        "values (resolved_points_b points_a points_b) \<noteq> None"
  using assms by (auto simp: spec_rejects_def resolved_points_b_def)



lemma CentralMomentAccum_add_entry_count:
  assumes "0 \<le> count a"
  shows "\<exists>a'. CentralMomentAccum_add_entry Order a v = Inr a' \<and> count a' = count a + 1"
  using assms by (simp add: CentralMomentAccum_add_entry_def Let_def)



section \<open>The 2D indices that a task iterator walks through\<close>

lemma tri_sum_closed: "2 * (\<Sum>r<n. S - r) + n * n = 2 * n * S + n" if "n \<le> S" for n S :: nat
  using that
proof (induction n)
  case 0
  show ?case by simp
next
  case (Suc n)
  then have IH: "2 * (\<Sum>r<n. S - r) + n * n = 2 * n * S + n" and n: "n < S" by simp_all
  have "2 * (\<Sum>r<Suc n. S - r) + Suc n * Suc n = (2 * (\<Sum>r<n. S - r) + n * n) + 2 * (S - n) + 2 * n + 1"
    by simp
  also have "\<dots> = 2 * n * S + n + 2 * (S - n) + 2 * n + 1" using IH by simp
  also have "\<dots> = 2 * Suc n * S + Suc n" using n by (simp add: algebra_simps)
  finally show ?case .
qed

lemma tri_sum_total: "(\<Sum>r<S. S - r) = num_dist_array_chunks_auto S"
proof -
  have "2 * (\<Sum>r<S. S - r) + S * S = 2 * S * S + S" by (rule tri_sum_closed) simp
  then have "2 * (\<Sum>r<S. S - r) = S * (S + 1)" by (simp add: algebra_simps)
  then have "(\<Sum>r<S. S - r) = S * (S + 1) div 2" by simp
  then show ?thesis by (simp add: num_dist_array_chunks_auto_triangle)
qed

lemma tri_sum_mono: "i \<le> j \<Longrightarrow> (\<Sum>r<i. S - r) \<le> (\<Sum>r<j. (S::nat) - r)"
  by (rule sum_mono2) auto


lemma index_2D_at_0: "index_2D_at strat 0 = (0, 0)"
  by (simp add: index_2D_at_def)

lemma index_2D_at_Suc: "index_2D_at strat (Suc k) = increment2D_index strat (index_2D_at strat k)"
  by (simp add: index_2D_at_def)

lemma index_1D_of_bound_auto:
  assumes "i \<le> j" "j < num_segments s"
  shows "index_1D_of (AutoStrat s) (i, j) < n_partitions (AutoStrat s)"
proof -
  let ?S = "num_segments s"
  have "(\<Sum>r<i. ?S - r) + (j - i) < (\<Sum>r<i. ?S - r) + (?S - i)" using assms by simp
  also have "\<dots> = (\<Sum>r<Suc i. ?S - r)" by simp
  also have "\<dots> \<le> (\<Sum>r<?S. ?S - r)" by (rule tri_sum_mono) (use assms in simp)
  finally show ?thesis by (simp add: index_1D_of_def n_partitions_def tri_sum_total)
qed

lemma index_1D_of_last_auto:
  assumes "0 < num_segments s"
  shows "index_1D_of (AutoStrat s) (num_segments s - 1, num_segments s - 1) + 1
           = n_partitions (AutoStrat s)"
proof -
  let ?S = "num_segments s"
  have "(\<Sum>r<?S. ?S - r) = (\<Sum>r<Suc (?S - 1). ?S - r)" using assms by simp
  also have "\<dots> = (\<Sum>r<?S - 1. ?S - r) + (?S - (?S - 1))" by simp
  also have "\<dots> = (\<Sum>r<?S - 1. ?S - r) + 1" using assms by simp
  finally show ?thesis by (simp add: index_1D_of_def n_partitions_def tri_sum_total)
qed

lemma increment2D_index_step:
  assumes v: "valid_index_2D strat p"
      and k: "index_1D_of strat p + 1 < n_partitions strat"
  shows "valid_index_2D strat (increment2D_index strat p) \<and>
         index_1D_of strat (increment2D_index strat p) = index_1D_of strat p + 1"
proof (cases strat)
  case (AutoStrat s)
  obtain i j where p: "p = (i, j)" by (cases p)
  from v have ij: "i \<le> j" "j < num_segments s"
    by (simp_all add: valid_index_2D_def AutoStrat auto_indices_def p)
  show ?thesis
  proof (cases "j + 1 = num_segments s")
    case True
    have "i \<noteq> num_segments s - 1"
    proof
      assume "i = num_segments s - 1"
      then have "p = (num_segments s - 1, num_segments s - 1)" using True p by simp
      then show False using index_1D_of_last_auto[of s] k ij by (simp add: AutoStrat)
    qed
    then have i: "i + 1 < num_segments s" using ij by simp
    have "(\<Sum>r<Suc i. num_segments s - r) = (\<Sum>r<i. num_segments s - r) + (j - i) + 1"
      using True ij by simp
    then show ?thesis
      using True i by (simp add: valid_index_2D_def AutoStrat auto_indices_def p
          increment2D_index_def index_1D_of_def)
  next
    case False
    then show ?thesis
      using ij by (simp add: valid_index_2D_def AutoStrat auto_indices_def p
          increment2D_index_def index_1D_of_def)
  qed
next
  case (CrossStrat s)
  obtain i j where p: "p = (i, j)" by (cases p)
  from v have ij: "i < num_segments_A s" "j < num_segments_B s"
    by (simp_all add: valid_index_2D_def CrossStrat cross_indices_def p)
  show ?thesis
  proof (cases "j + 1 = num_segments_B s")
    case True
    have "(i + 1) * num_segments_B s < num_segments_A s * num_segments_B s"
      using k True by (simp add: CrossStrat index_1D_of_def n_partitions_def p)
    then have "i + 1 < num_segments_A s" by (rule mult_less_cancel2[THEN iffD1, THEN conjunct2])
    then show ?thesis
      using True by (simp add: valid_index_2D_def CrossStrat cross_indices_def p
          increment2D_index_def index_1D_of_def)
  next
    case False
    then show ?thesis
      using ij by (simp add: valid_index_2D_def CrossStrat cross_indices_def p
          increment2D_index_def index_1D_of_def)
  qed
qed

lemma partition_ok_first:
  assumes "partition_ok strat"
  shows "valid_index_2D strat (0, 0)" "index_1D_of strat (0, 0) = 0" "0 < n_partitions strat"
  using assms
  by (cases strat; simp add: partition_ok_def valid_index_2D_def auto_indices_def
      cross_indices_def valid_cross_strategy_def index_1D_of_def n_partitions_def
      num_dist_array_chunks_auto_def)+

lemma index_2D_at_valid:
  assumes ok: "partition_ok strat" and k: "k < n_partitions strat"
  shows "valid_index_2D strat (index_2D_at strat k) \<and> index_1D_of strat (index_2D_at strat k) = k"
  using k
proof (induction k)
  case 0
  show ?case using partition_ok_first[OF ok] by (simp add: index_2D_at_0)
next
  case (Suc k)
  then have IH: "valid_index_2D strat (index_2D_at strat k)"
      "index_1D_of strat (index_2D_at strat k) = k"
    by simp_all
  have "index_1D_of strat (index_2D_at strat k) + 1 < n_partitions strat"
    using IH(2) Suc.prems by simp
  from increment2D_index_step[OF IH(1) this] IH(2)
  show ?case by (simp add: index_2D_at_Suc)
qed

section \<open>A worker accumulates the pairs of its tasks\<close>

lemma build_StatTask_valid:
  assumes "partition_ok strat" "valid_index_2D strat p"
  shows "\<exists>t. build_StatTask strat p = Inr t"
proof (cases strat)
  case (AutoStrat s)
  then show ?thesis
    using assms auto_tasks_built[of s p]
    by (simp add: build_StatTask_def partition_ok_def valid_index_2D_def)
next
  case (CrossStrat s)
  then show ?thesis
    using assms cross_tasks_built[of s p]
    by (simp add: build_StatTask_def partition_ok_def valid_index_2D_def valid_cross_strategy_def)
qed

lemma pair_rslt_at_shift:
  "pair_rslt_at choice (\<lambda>k. pos_a (s_a + k)) (\<lambda>k. val_a (s_a + k)) stride_a
                       (\<lambda>k. pos_b (s_b + k)) (\<lambda>k. val_b (s_b + k)) stride_b (i, j) =
   pair_rslt_at choice pos_a val_a stride_a pos_b val_b stride_b (s_a + i, s_b + j)"
  by (cases choice) (simp_all add: pair_rslt_at_def Let_def add.assoc)

lemma process_data_shifted:
  assumes "positions points_a \<noteq> None" "values points_a \<noteq> None"
      and "positions points_b \<noteq> None" "values points_b \<noteq> None"
  shows "process_data add_entry duplicated_points choice
           \<lparr>positions = ptr_add (positions points_a) s_a, values = ptr_add (values points_a) s_a,
            n_points_pp = n_a, n_spatial_dims = d_a,
            spatial_dim_stride = spatial_dim_stride points_a\<rparr>
           \<lparr>positions = ptr_add (positions points_b) s_b, values = ptr_add (values points_b) s_b,
            n_points_pp = n_b, n_spatial_dims = d_b,
            spatial_dim_stride = spatial_dim_stride points_b\<rparr>
           dist_sqr_bin_edges nbins accumulators =
         accumulate_pairs add_entry choice points_a points_b dist_sqr_bin_edges nbins
           (map (\<lambda>(i_a, i_b). (s_a + i_a, s_b + i_b)) (pair_indices duplicated_points n_a n_b))
           accumulators"
proof -
  from assms obtain pos_a val_a pos_b val_b where p:
    "positions points_a = Some pos_a" "values points_a = Some val_a"
    "positions points_b = Some pos_b" "values points_b = Some val_b"
    by auto
  have q: "positions \<lparr>positions = ptr_add (positions points_a) s_a,
              values = ptr_add (values points_a) s_a,
              n_points_pp = n_a, n_spatial_dims = d_a,
              spatial_dim_stride = spatial_dim_stride points_a\<rparr> = Some (\<lambda>k. pos_a (s_a + k))"
      "values \<lparr>positions = ptr_add (positions points_a) s_a,
              values = ptr_add (values points_a) s_a,
              n_points_pp = n_a, n_spatial_dims = d_a,
              spatial_dim_stride = spatial_dim_stride points_a\<rparr> = Some (\<lambda>k. val_a (s_a + k))"
      "positions \<lparr>positions = ptr_add (positions points_b) s_b,
              values = ptr_add (values points_b) s_b,
              n_points_pp = n_b, n_spatial_dims = d_b,
              spatial_dim_stride = spatial_dim_stride points_b\<rparr> = Some (\<lambda>k. pos_b (s_b + k))"
      "values \<lparr>positions = ptr_add (positions points_b) s_b,
              values = ptr_add (values points_b) s_b,
              n_points_pp = n_b, n_spatial_dims = d_b,
              spatial_dim_stride = spatial_dim_stride points_b\<rparr> = Some (\<lambda>k. val_b (s_b + k))"
    by (simp_all add: p ptr_add_def)
  show ?thesis
    unfolding process_data_pairwise[OF q] accumulate_pairs_def
    by (simp add: p fold_map comp_def case_prod_unfold pair_rslt_at_shift[symmetric])
qed


lemma process_task_pairs:
  assumes pa: "positions points_a \<noteq> None" "values points_a \<noteq> None"
      and pb: "positions points_b \<noteq> None" "values points_b \<noteq> None"
      and dup: "duplicated_points \<longrightarrow> points_b = points_a"
      and t: "build_StatTask (partition_strat it) (next_index_2D it) = Inr t"
  shows "process_task ops choice points_a points_b dist_sqr_bin_edges nbins duplicated_points
           (it, acc) =
         bind_err (accumulate_pairs (add_entry_op ops) choice points_a points_b dist_sqr_bin_edges
                     nbins (task_pairs duplicated_points t) acc)
           (\<lambda>acc'. Inr (increment_index it, acc'))"
proof (cases "duplicated_points \<and> start_B t = stop_B t \<and> stop_B t = 0")
  case True
  then have b: "points_b = points_a" using dup by simp
  show ?thesis
    using True
    by (simp add: process_task_def TaskIt_next_def t Let_def task_pairs_def b
        process_data_shifted[OF pa pa])
next
  case False
  then have "(if duplicated_points then
            if start_B t = stop_B t \<and> stop_B t = 0
            then process_data (add_entry_op ops) True choice
                   \<lparr>positions = ptr_add (positions points_a) (start_A t),
                    values = ptr_add (values points_a) (start_A t),
                    n_points_pp = stop_A t - start_A t,
                    n_spatial_dims = n_spatial_dims points_a,
                    spatial_dim_stride = spatial_dim_stride points_a\<rparr>
                   \<lparr>positions = ptr_add (positions points_a) (start_A t),
                    values = ptr_add (values points_a) (start_A t),
                    n_points_pp = stop_A t - start_A t,
                    n_spatial_dims = n_spatial_dims points_a,
                    spatial_dim_stride = spatial_dim_stride points_a\<rparr>
                   dist_sqr_bin_edges nbins acc
            else process_data (add_entry_op ops) False choice
                   \<lparr>positions = ptr_add (positions points_a) (start_A t),
                    values = ptr_add (values points_a) (start_A t),
                    n_points_pp = stop_A t - start_A t,
                    n_spatial_dims = n_spatial_dims points_a,
                    spatial_dim_stride = spatial_dim_stride points_a\<rparr>
                   \<lparr>positions = ptr_add (positions points_b) (start_B t),
                    values = ptr_add (values points_b) (start_B t),
                    n_points_pp = stop_B t - start_B t,
                    n_spatial_dims = n_spatial_dims points_b,
                    spatial_dim_stride = spatial_dim_stride points_b\<rparr>
                   dist_sqr_bin_edges nbins acc
          else process_data (add_entry_op ops) False choice
                   \<lparr>positions = ptr_add (positions points_a) (start_A t),
                    values = ptr_add (values points_a) (start_A t),
                    n_points_pp = stop_A t - start_A t,
                    n_spatial_dims = n_spatial_dims points_a,
                    spatial_dim_stride = spatial_dim_stride points_a\<rparr>
                   \<lparr>positions = ptr_add (positions points_b) (start_B t),
                    values = ptr_add (values points_b) (start_B t),
                    n_points_pp = stop_B t - start_B t,
                    n_spatial_dims = n_spatial_dims points_b,
                    spatial_dim_stride = spatial_dim_stride points_b\<rparr>
                   dist_sqr_bin_edges nbins acc) =
        accumulate_pairs (add_entry_op ops) choice points_a points_b dist_sqr_bin_edges nbins
          (task_pairs duplicated_points t) acc"
    by (auto simp add: task_pairs_def process_data_shifted[OF pa pb])
  then show ?thesis
    unfolding process_task_def TaskIt_next_def Let_def
    by (simp only: fst_conv snd_conv t bind_err.simps)
qed

lemma increment_index_at:
  "increment_index \<lparr>index_stop_1D = stop_1D, partition_strat = strat, next_index_1D = k,
                    next_index_2D = index_2D_at strat k\<rparr> =
   \<lparr>index_stop_1D = stop_1D, partition_strat = strat, next_index_1D = Suc k,
    next_index_2D = index_2D_at strat (Suc k)\<rparr>"
  by (simp add: increment_index_def index_2D_at_Suc)

lemma task_pairs_at_built:
  assumes "build_StatTask strat (index_2D_at strat k) = Inr t"
  shows "task_pairs_at duplicated_points strat k = task_pairs duplicated_points t"
  using assms by (simp add: task_pairs_at_def)

lemma process_task_loop:
  assumes pa: "positions points_a \<noteq> None" "values points_a \<noteq> None"
      and pb: "positions points_b \<noteq> None" "values points_b \<noteq> None"
      and dup: "duplicated_points \<longrightarrow> points_b = points_a"
      and ok: "partition_ok strat"
      and stop: "stop_1D \<le> n_partitions strat"
  shows "fold (\<lambda>index_1D r. bind_err r
                (process_task ops choice points_a points_b dist_sqr_bin_edges nbins
                   duplicated_points))
           [k..<stop_1D]
           (Inr (\<lparr>index_stop_1D = bound, partition_strat = strat, next_index_1D = k,
                  next_index_2D = index_2D_at strat k\<rparr>, acc)) =
         bind_err (accumulate_pairs (add_entry_op ops) choice points_a points_b dist_sqr_bin_edges
                     nbins (concat (map (task_pairs_at duplicated_points strat) [k..<stop_1D])) acc)
           (\<lambda>acc'. Inr (\<lparr>index_stop_1D = bound, partition_strat = strat,
                          next_index_1D = max k stop_1D,
                          next_index_2D = index_2D_at strat (max k stop_1D)\<rparr>, acc'))"
proof (induction "stop_1D - k" arbitrary: k acc)
  case 0
  then have "[k..<stop_1D] = []" "max k stop_1D = k" by simp_all
  then show ?case by (simp add: accumulate_pairs_Nil)
next
  case (Suc d)
  then have k: "k < stop_1D" and d: "d = stop_1D - Suc k" by simp_all
  have l: "[k..<stop_1D] = k # [Suc k..<stop_1D]" using k by (simp add: upt_conv_Cons)
  have m: "max k stop_1D = max (Suc k) stop_1D" using k by simp
  have "valid_index_2D strat (index_2D_at strat k)"
    using index_2D_at_valid[OF ok, of k] k stop by simp
  from build_StatTask_valid[OF ok this]
  obtain t where t: "build_StatTask strat (index_2D_at strat k) = Inr t" by blast
  let ?it = "\<lparr>index_stop_1D = bound, partition_strat = strat, next_index_1D = k,
              next_index_2D = index_2D_at strat k\<rparr>"
  have t': "build_StatTask (partition_strat ?it) (next_index_2D ?it) = Inr t"
    using t by simp
  note step = process_task_pairs[OF pa pb dup t', of ops choice dist_sqr_bin_edges nbins acc]
  show ?case
  proof (cases "accumulate_pairs (add_entry_op ops) choice points_a points_b dist_sqr_bin_edges
                     nbins (task_pairs duplicated_points t) acc")
    case (Inl e)
    then show ?thesis
      unfolding l
      by (simp add: step fold_bind_err_Inl accumulate_pairs_append task_pairs_at_built[OF t])
  next
    case (Inr acc1)
    show ?thesis
      unfolding l m
      using Suc.hyps(1)[OF d, of acc1]
      by (simp add: step Inr increment_index_at accumulate_pairs_append task_pairs_at_built[OF t])
  qed
qed

lemma process_TaskIt_pairs:
  assumes pa: "positions points_a \<noteq> None" "values points_a \<noteq> None"
      and pb: "positions points_b \<noteq> None" "values points_b \<noteq> None"
      and dup: "duplicated_points \<longrightarrow> points_b = points_a"
      and ok: "partition_ok strat"
      and stop: "stop_1D \<le> n_partitions strat"
  shows "process_TaskIt ops choice points_a points_b dist_sqr_bin_edges nbins acc
           duplicated_points
           \<lparr>index_stop_1D = stop_1D, partition_strat = strat, next_index_1D = k,
            next_index_2D = index_2D_at strat k\<rparr> =
         accumulate_pairs (add_entry_op ops) choice points_a points_b dist_sqr_bin_edges nbins
           (concat (map (task_pairs_at duplicated_points strat) [k..<stop_1D])) acc"
proof -
  have "process_TaskIt ops choice points_a points_b dist_sqr_bin_edges nbins acc
           duplicated_points
           \<lparr>index_stop_1D = stop_1D, partition_strat = strat, next_index_1D = k,
            next_index_2D = index_2D_at strat k\<rparr> =
        bind_err
          (bind_err (accumulate_pairs (add_entry_op ops) choice points_a points_b
                       dist_sqr_bin_edges nbins
                       (concat (map (task_pairs_at duplicated_points strat) [k..<stop_1D])) acc)
             (\<lambda>acc'. Inr (\<lparr>index_stop_1D = stop_1D, partition_strat = strat,
                            next_index_1D = max k stop_1D,
                            next_index_2D = index_2D_at strat (max k stop_1D)\<rparr>, acc')))
          (\<lambda>s. Inr (snd s))"
    unfolding process_TaskIt_def
    by (simp add: process_task_loop[OF pa pb dup ok stop])
  then show ?thesis
    by (cases "accumulate_pairs (add_entry_op ops) choice points_a points_b
                       dist_sqr_bin_edges nbins
                       (concat (map (task_pairs_at duplicated_points strat) [k..<stop_1D])) acc")
       simp_all
qed

section \<open>The workers of a parallel run\<close>

lemma increment_index_pow:
  "(increment_index ^^ k)
     \<lparr>index_stop_1D = stop_1D, partition_strat = strat, next_index_1D = 0,
      next_index_2D = (0, 0)\<rparr> =
   \<lparr>index_stop_1D = stop_1D, partition_strat = strat, next_index_1D = k,
    next_index_2D = index_2D_at strat k\<rparr>"
proof (induction k)
  case 0
  show ?case by (simp add: index_2D_at_0)
next
  case (Suc k)
  then show ?case by (simp add: increment_index_at)
qed

lemma effective_nproc_bounds:
  assumes "partition_ok strat" "1 \<le> np"
  shows "1 \<le> effective_nproc \<lparr>nproc_factory = np, partition_strat_factory = strat\<rparr>"
        "effective_nproc \<lparr>nproc_factory = np, partition_strat_factory = strat\<rparr> \<le> np"
        "effective_nproc \<lparr>nproc_factory = np, partition_strat_factory = strat\<rparr>
           \<le> n_partitions strat"
  using assms partition_ok_first(3)[of strat] by (simp_all add: effective_nproc_def)

lemma build_TaskIt_ok:
  assumes ok: "partition_ok strat" and np: "1 \<le> np"
      and p: "p < effective_nproc \<lparr>nproc_factory = np, partition_strat_factory = strat\<rparr>"
  shows "build_TaskIt \<lparr>nproc_factory = np, partition_strat_factory = strat\<rparr> p =
           Inr \<lparr>index_stop_1D =
                  chunk_start (n_partitions strat)
                    (effective_nproc \<lparr>nproc_factory = np, partition_strat_factory = strat\<rparr>)
                    (Suc p),
                partition_strat = strat,
                next_index_1D =
                  chunk_start (n_partitions strat)
                    (effective_nproc \<lparr>nproc_factory = np, partition_strat_factory = strat\<rparr>) p,
                next_index_2D =
                  index_2D_at strat
                    (chunk_start (n_partitions strat)
                       (effective_nproc \<lparr>nproc_factory = np, partition_strat_factory = strat\<rparr>)
                       p)\<rparr>"
proof -
  let ?f = "\<lparr>nproc_factory = np, partition_strat_factory = strat\<rparr>"
  let ?n = "effective_nproc ?f"
  note b = effective_nproc_bounds[OF ok np]
  have lt: "chunk_start (n_partitions strat) ?n p < chunk_start (n_partitions strat) ?n (Suc p)"
    by (rule chunk_start_strict) (use b in simp_all)
  have "\<not> np \<le> p" using p b(2) by simp
  then show ?thesis
    using lt
    by (simp add: build_TaskIt_def calc_chunk_slice_ok[OF b(3) p] TaskIt_init_def
        increment_index_pow)
qed

lemma chunk_start_le_total:
  assumes "0 < S" "i \<le> S"
  shows "chunk_start L S i \<le> L"
  using chunk_start_mono[OF assms(2), of L S] chunk_start_full[OF assms(1), of L] by simp

lemma worker_result:
  assumes pa: "positions points_a \<noteq> None" "values points_a \<noteq> None"
      and pb: "positions points_b \<noteq> None" "values points_b \<noteq> None"
      and dup: "duplicated_points \<longrightarrow> points_b = points_a"
      and ok: "partition_ok strat" and np: "1 \<le> np"
      and p: "p < effective_nproc \<lparr>nproc_factory = np, partition_strat_factory = strat\<rparr>"
  shows "bind_err (build_TaskIt \<lparr>nproc_factory = np, partition_strat_factory = strat\<rparr> p)
           (\<lambda>task_iter. process_TaskIt ops choice points_a points_b dist_sqr_bin_edges nbins acc
                           duplicated_points task_iter) =
         accumulate_pairs (add_entry_op ops) choice points_a points_b dist_sqr_bin_edges nbins
           (worker_pairs duplicated_points strat
              (effective_nproc \<lparr>nproc_factory = np, partition_strat_factory = strat\<rparr>) p)
           acc"
proof -
  note b = effective_nproc_bounds[OF ok np]
  have "chunk_start (n_partitions strat)
          (effective_nproc \<lparr>nproc_factory = np, partition_strat_factory = strat\<rparr>) (Suc p)
        \<le> n_partitions strat"
    by (rule chunk_start_le_total) (use b p in simp_all)
  from process_TaskIt_pairs[OF pa pb dup ok this]
  show ?thesis
    by (simp add: build_TaskIt_ok[OF ok np p] worker_pairs_def)
qed

lemma bind_err_assoc:
  "bind_err (bind_err m f) g = bind_err m (\<lambda>x. bind_err (f x) g)"
  by (cases m) simp_all

lemma worker_loop:
  assumes L: "\<And>p. p < n \<Longrightarrow> G p fresh = Inr (L p)" and m: "m \<le> n"
  shows "fold (\<lambda>p r. bind_err r (\<lambda>dest. bind_err (G p (dest ! p)) (\<lambda>l. Inr (dest[p := l]))))
           [0..<m] (Inr (replicate n fresh)) =
         Inr (map L [0..<m] @ replicate (n - m) fresh)"
  using m
proof (induction m)
  case 0
  show ?case by simp
next
  case (Suc m)
  then have IH: "fold (\<lambda>p r. bind_err r (\<lambda>dest. bind_err (G p (dest ! p))
                          (\<lambda>l. Inr (dest[p := l]))))
           [0..<m] (Inr (replicate n fresh)) =
         Inr (map L [0..<m] @ replicate (n - m) fresh)" and m: "m < n"
    by simp_all
  have nth: "(map L [0..<m] @ replicate (n - m) fresh) ! m = fresh"
    using m by (simp add: nth_append)
  have upd: "(map L [0..<m] @ replicate (n - m) fresh)[m := L m] =
               map L [0..<Suc m] @ replicate (n - Suc m) fresh"
  proof -
    have "replicate (n - m) fresh = fresh # replicate (n - Suc m) fresh"
      using m by (simp add: Suc_diff_Suc flip: replicate_Suc)
    then show ?thesis by (simp add: list_update_append)
  qed
  have "fold (\<lambda>p r. bind_err r (\<lambda>dest. bind_err (G p (dest ! p)) (\<lambda>l. Inr (dest[p := l]))))
           [0..<Suc m] (Inr (replicate n fresh)) =
        bind_err (G m ((map L [0..<m] @ replicate (n - m) fresh) ! m))
          (\<lambda>l. Inr ((map L [0..<m] @ replicate (n - m) fresh)[m := l]))"
    using IH by simp
  also have "\<dots> = Inr ((map L [0..<m] @ replicate (n - m) fresh)[m := L m])"
    unfolding nth L[OF m] by simp
  finally show ?case unfolding upd .
qed

lemma create_loop_bounds:
  assumes "2 \<le> max_segments"
  shows "2 \<le> create_loop np max_segments 2" "create_loop np max_segments 2 \<le> max_segments"
proof -
  let ?P = "\<lambda>S. 2 \<le> S \<and> 3 * np \<le> num_dist_array_chunks_auto S"
  have ex: "\<exists>S. ?P S" by (rule chunks_unbounded)
  then obtain S0 where "?P S0" by blast
  then have "?P (LEAST S. ?P S)" by (rule LeastI)
  then have "2 \<le> (LEAST S. ?P S)" by simp
  then show "2 \<le> create_loop np max_segments 2" "create_loop np max_segments 2 \<le> max_segments"
    unfolding create_loop_least[OF ex] using assms by simp_all
qed

lemma create_auto_ok:
  assumes "1 \<le> np" "np \<le> 60" "2 \<le> n"
  shows "\<exists>S. create_auto np n skip = Inr \<lparr>n_points = n, num_segments = S\<rparr> \<and>
             1 \<le> S \<and> S \<le> n - 1"
proof (cases "((\<not> skip) \<and> n \<le> 1000) \<or> np = 1 \<or> (if n \<le> 4 then 1 else (n - 1) div 2) = 1")
  case True
  then have "create_auto np n skip = Inr \<lparr>n_points = n, num_segments = 1\<rparr>"
    using assms by (simp add: create_auto_def Let_def)
  then show ?thesis using assms by simp
next
  case False
  then have n: "\<not> n \<le> 4" by auto
  then have m: "2 \<le> (n - 1) div 2" by simp
  note b = create_loop_bounds[OF m, of np]
  have "2 * ((n - 1) div 2) \<le> n - 1" by simp
  then have "\<not> create_loop np ((n - 1) div 2) 2 * 2 + 1 > n" using b(2) n by linarith
  then have "create_auto np n skip =
               Inr \<lparr>n_points = n, num_segments = create_loop np ((n - 1) div 2) 2\<rparr>"
    using assms False n by (auto simp add: create_auto_def Let_def)
  then show ?thesis using b by simp
qed

lemma create_cross_ok:
  assumes "1 \<le> np" "1 \<le> n_a" "1 \<le> n_b"
  shows "\<exists>s. create_cross np n_a n_b skip = Inr s \<and> valid_cross_strategy s \<and>
             n_points_A s = n_a \<and> n_points_B s = n_b"
  using assms by (auto simp add: create_cross_def Let_def valid_cross_strategy_def)

lemma TaskItFactory_init_ok:
  assumes "1 \<le> np"
      and "if duplicated_points then 2 \<le> n_a \<and> np \<le> 60 else 1 \<le> n_a \<and> 1 \<le> n_b"
  shows "\<exists>strat. TaskItFactory_init np n_a (if duplicated_points then 0 else n_b) skip =
                   Inr \<lparr>nproc_factory = np, partition_strat_factory = strat\<rparr> \<and>
                 partition_ok strat \<and>
                 (case strat of
                    AutoStrat s \<Rightarrow> duplicated_points \<and> n_points s = n_a
                  | CrossStrat s \<Rightarrow> \<not> duplicated_points \<and> n_points_A s = n_a \<and> n_points_B s = n_b)"
proof (cases duplicated_points)
  case True
  with assms have "2 \<le> n_a" "np \<le> 60" by simp_all
  from create_auto_ok[OF assms(1) this(2,1), of skip]
  obtain S where "create_auto np n_a skip = Inr \<lparr>n_points = n_a, num_segments = S\<rparr>"
      "1 \<le> S" "S \<le> n_a - 1"
    by blast
  then show ?thesis
    using True by (simp add: TaskItFactory_init_def build_strat_def partition_ok_def)
next
  case False
  with assms have n: "1 \<le> n_a" "1 \<le> n_b" by simp_all
  from create_cross_ok[OF assms(1) n, of skip]
  obtain s where "create_cross np n_a n_b skip = Inr s" "valid_cross_strategy s"
      "n_points_A s = n_a" "n_points_B s = n_b"
    by blast
  then show ?thesis
    using False n by (simp add: TaskItFactory_init_def build_strat_def partition_ok_def)
qed

lemma get_nominal_nproc_pos:
  assumes "get_nominal_nproc parallel_spec OMP_NUM_THREADS = Inr np"
  shows "1 \<le> np"
  using assms
  by (auto simp add: get_nominal_nproc_def split: if_splits option.splits)

lemma calc_vsf_props_parallel_workers:
  assumes pa: "positions points_a \<noteq> None" "values points_a \<noteq> None"
      and pb: "positions points_b \<noteq> None" "values points_b \<noteq> None"
      and dup: "duplicated_points \<longrightarrow> points_b = points_a"
      and nom: "get_nominal_nproc parallel_spec OMP_NUM_THREADS = Inr np"
      and fac: "TaskItFactory_init np (n_points_pp points_a)
                  (if duplicated_points then 0 else n_points_pp points_b) False =
                Inr \<lparr>nproc_factory = np, partition_strat_factory = strat\<rparr>"
      and ok: "partition_ok strat"
      and L: "\<And>p. p < effective_nproc \<lparr>nproc_factory = np, partition_strat_factory = strat\<rparr> \<Longrightarrow>
                accumulate_pairs (add_entry_op ops) choice points_a points_b dist_sqr_bin_edges
                  nbins
                  (worker_pairs duplicated_points strat
                     (effective_nproc \<lparr>nproc_factory = np, partition_strat_factory = strat\<rparr>) p)
                  fresh = Inr (L p)"
  shows "calc_vsf_props_parallel ops choice True OMP_NUM_THREADS points_a points_b
           dist_sqr_bin_edges nbins parallel_spec fresh duplicated_points =
         fold (\<lambda>other r. bind_err r (\<lambda>acc. consolidate_with_other_op ops acc other))
           (map L [1..<effective_nproc \<lparr>nproc_factory = np, partition_strat_factory = strat\<rparr>])
           (Inr (L 0))"
proof -
  let ?f = "\<lparr>nproc_factory = np, partition_strat_factory = strat\<rparr>"
  let ?n = "effective_nproc ?f"
  note np = get_nominal_nproc_pos[OF nom]
  note b = effective_nproc_bounds[OF ok np]
  let ?G = "\<lambda>p acc. bind_err (build_TaskIt ?f p)
              (\<lambda>task_iter. process_TaskIt ops choice points_a points_b dist_sqr_bin_edges nbins
                              acc duplicated_points task_iter)"
  have G: "?G p fresh = Inr (L p)" if "p < ?n" for p
    unfolding worker_result[OF pa pb dup ok np that] by (rule L[OF that])
  have loop: "fold (\<lambda>proc_id r. bind_err r (\<lambda>dest.
                   bind_err (build_TaskIt ?f proc_id) (\<lambda>task_iter.
                   bind_err (process_TaskIt ops choice points_a points_b dist_sqr_bin_edges nbins
                               (dest ! proc_id) duplicated_points task_iter) (\<lambda>local_accums.
                   Inr (dest[proc_id := local_accums])))))
                [0..<?n] (Inr (replicate ?n fresh)) =
              Inr (map L [0..<?n])"
  proof -
    have "fold (\<lambda>p r. bind_err r (\<lambda>dest. bind_err (?G p (dest ! p)) (\<lambda>l. Inr (dest[p := l]))))
            [0..<?n] (Inr (replicate ?n fresh)) =
          Inr (map L [0..<?n] @ replicate (?n - ?n) fresh)"
      by (rule worker_loop[where G = ?G and L = L, OF G order_refl])
    then show ?thesis by (simp add: bind_err_assoc)
  qed
  have hd_tl: "map L [0..<?n] = L 0 # map L [1..<?n]"
    using b(1) by (simp add: upt_conv_Cons)
  show ?thesis
    unfolding calc_vsf_props_parallel_def
    by (simp add: nom fac Let_def loop hd_tl del: upt_Suc)
qed

lemma consolidate_fold_good:
  assumes c: "consolidate_abort_free ops good"
      and g: "good acc" "\<forall>other \<in> set others. good other"
  shows "\<exists>acc'. fold (\<lambda>other r. bind_err r (\<lambda>acc. consolidate_with_other_op ops acc other))
                   others (Inr acc) = Inr acc' \<and> good acc'"
  using g
proof (induction others arbitrary: acc)
  case Nil
  then show ?case by simp
next
  case (Cons other others)
  from c Cons.prems obtain acc1 where
    s: "consolidate_with_other_op ops acc other = Inr acc1" and g1: "good acc1"
    unfolding consolidate_abort_free_def by (meson list.set_intros(1))
  from Cons.IH[OF g1] Cons.prems(2) show ?case by (simp add: s)
qed

lemma calc_vsf_props_parallel_good:
  assumes pa: "positions points_a \<noteq> None" "values points_a \<noteq> None"
      and pb: "positions points_b \<noteq> None" "values points_b \<noteq> None"
      and dup: "duplicated_points \<longrightarrow> points_b = points_a"
      and nom: "get_nominal_nproc parallel_spec OMP_NUM_THREADS = Inr np"
      and size: "if duplicated_points then 2 \<le> n_points_pp points_a \<and> np \<le> 60
                 else 1 \<le> n_points_pp points_a \<and> 1 \<le> n_points_pp points_b"
      and g: "good fresh"
      and add: "\<forall>acc s v. good acc \<and> s < nbins \<longrightarrow>
                  (\<exists>acc'. add_entry_op ops acc s v = Inr acc' \<and> good acc')"
      and c: "consolidate_abort_free ops good"
  shows "\<exists>acc'. calc_vsf_props_parallel ops choice True OMP_NUM_THREADS points_a points_b
                  dist_sqr_bin_edges nbins parallel_spec fresh duplicated_points = Inr acc' \<and>
               good acc'"
proof -
  note np = get_nominal_nproc_pos[OF nom]
  from TaskItFactory_init_ok[OF np size, of False]
  obtain strat where
    fac: "TaskItFactory_init np (n_points_pp points_a)
            (if duplicated_points then 0 else n_points_pp points_b) False =
          Inr \<lparr>nproc_factory = np, partition_strat_factory = strat\<rparr>"
    and ok: "partition_ok strat"
    by blast
  let ?n = "effective_nproc \<lparr>nproc_factory = np, partition_strat_factory = strat\<rparr>"
  let ?W = "\<lambda>p. accumulate_pairs (add_entry_op ops) choice points_a points_b dist_sqr_bin_edges
                  nbins (worker_pairs duplicated_points strat ?n p) fresh"
  have ex: "\<exists>l. ?W p = Inr l \<and> good l" for p
    by (rule accumulate_pairs_good[OF add g])
  define L where "L p = (SOME l. ?W p = Inr l \<and> good l)" for p
  have L: "?W p = Inr (L p) \<and> good (L p)" for p
    unfolding L_def by (rule someI_ex) (rule ex)
  have eq: "calc_vsf_props_parallel ops choice True OMP_NUM_THREADS points_a points_b
           dist_sqr_bin_edges nbins parallel_spec fresh duplicated_points =
         fold (\<lambda>other r. bind_err r (\<lambda>acc. consolidate_with_other_op ops acc other))
           (map L [1..<?n]) (Inr (L 0))"
    by (rule calc_vsf_props_parallel_workers[OF pa pb dup nom fac ok]) (simp add: L)
  show ?thesis
    unfolding eq by (rule consolidate_fold_good[OF c]) (simp_all add: L)
qed

lemma histogram_consolidate_map2:
  assumes "histogram_wf this" "histogram_wf other"
      and "n_spatial_bins other = n_spatial_bins this" "n_data_bins other = n_data_bins this"
  shows "GenericHistogramAccumCollection_consolidate_with_other this other =
           Inr (this\<lparr>bin_counts := map2 (+) (bin_counts this) (bin_counts other)\<rparr>)"
proof -
  have len: "length (bin_counts other) = length (bin_counts this)"
    using assms by (simp add: histogram_wf_def)
  show ?thesis
    using assms(3,4)
    by (simp add: GenericHistogramAccumCollection_consolidate_with_other_def Let_def
        consolidate_loop_map2[OF len])
qed

lemma Histogram_ops_shape_abort_free:
  "abort_free Histogram_ops nbins
     (\<lambda>h. histogram_wf h \<and> n_spatial_bins h = nbins \<and> n_data_bins h = nd)"
  by (simp add: abort_free_def Histogram_ops_def no_abort_def Histogram_add_entry_wf
      Histogram_add_entry_shape)

lemma Histogram_ops_consolidate_abort_free:
  "consolidate_abort_free Histogram_ops
     (\<lambda>h. histogram_wf h \<and> n_spatial_bins h = nbins \<and> n_data_bins h = nd)"
  unfolding consolidate_abort_free_def
proof (intro allI impI)
  fix acc other :: "int GenericHistogramAccumCollection"
  assume a: "(histogram_wf acc \<and> n_spatial_bins acc = nbins \<and> n_data_bins acc = nd) \<and>
             (histogram_wf other \<and> n_spatial_bins other = nbins \<and> n_data_bins other = nd)"
  then have len: "length (bin_counts other) = length (bin_counts acc)"
    by (simp add: histogram_wf_def)
  have "consolidate_with_other_op Histogram_ops acc other =
          Inr (acc\<lparr>bin_counts := map2 (+) (bin_counts acc) (bin_counts other)\<rparr>)"
    using a by (simp add: Histogram_ops_def histogram_consolidate_map2)
  moreover have "histogram_wf (acc\<lparr>bin_counts := map2 (+) (bin_counts acc) (bin_counts other)\<rparr>)"
    using a len by (simp add: histogram_wf_def)
  ultimately show "\<exists>acc'. consolidate_with_other_op Histogram_ops acc other = Inr acc' \<and>
                     histogram_wf acc' \<and> n_spatial_bins acc' = nbins \<and> n_data_bins acc' = nd"
    using a by simp
qed

lemma calc_vsf_props_parallel_run:
  assumes ok: "\<not> spec_rejects points_a points_b pairwise_op nbins"
      and par: "openmp" "nproc parallel_spec \<noteq> 1"
      and ptrs: "positions points_b = None \<longleftrightarrow> values points_b = None"
      and edges: "nbins + 1 \<le> length edges"
      and nom: "get_nominal_nproc parallel_spec OMP_NUM_THREADS = Inr np"
      and size: "if positions points_b = None \<and> values points_b = None
                 then 2 \<le> n_points_pp points_a \<and> np \<le> 60
                 else 1 \<le> n_points_pp points_a \<and> 1 \<le> n_points_pp points_b"
      and build: "build_accum_collection stat_list stat_list_len nbins = Inr fresh"
      and g0: "good fresh"
      and af: "abort_free ops nbins good"
      and cf: "consolidate_abort_free ops good"
  shows "\<exists>acc1 flt_vals i64_vals.
           calc_vsf_props_parallel ops
             (if pairwise_op = ''correlate'' then correlate else vec_diff)
             openmp OMP_NUM_THREADS points_a (resolved_points_b points_a points_b)
             (squared_bin_edges edges nbins) nbins parallel_spec fresh
             (positions points_b = None \<and> values points_b = None) = Inr acc1 \<and>
           good acc1 \<and>
           copy_flt_vals_op ops acc1 out_flt_vals = Inr flt_vals \<and>
           copy_i64_vals_op ops acc1 out_i64_vals = Inr i64_vals \<and>
           calc_vsf_props ops build_accum_collection openmp OMP_NUM_THREADS points_a points_b
             pairwise_op stat_list stat_list_len edges nbins parallel_spec out_flt_vals out_i64_vals
           = Inr (True, flt_vals, i64_vals)"
proof -
  let ?dup = "positions points_b = None \<and> values points_b = None"
  let ?b = "resolved_points_b points_a points_b"
  let ?choice = "if pairwise_op = ''correlate'' then correlate else vec_diff"
  note p = resolved_points_b_pointers[OF ok ptrs]
  from af have add: "\<forall>acc s v. good acc \<and> s < nbins \<longrightarrow>
                  (\<exists>acc'. add_entry_op ops acc s v = Inr acc' \<and> good acc')"
    and cpf: "\<And>acc out. good acc \<Longrightarrow> \<exists>out'. copy_flt_vals_op ops acc out = Inr out'"
    and cpi: "\<And>acc out. good acc \<Longrightarrow> \<exists>out'. copy_i64_vals_op ops acc out = Inr out'"
    unfolding abort_free_def by blast+
  have dupb: "?dup \<longrightarrow> ?b = points_a" by (simp add: resolved_points_b_def)
  have size': "if ?dup then 2 \<le> n_points_pp points_a \<and> np \<le> 60
               else 1 \<le> n_points_pp points_a \<and> 1 \<le> n_points_pp ?b"
  proof (cases ?dup)
    case True
    then show ?thesis using size by (simp del: One_nat_def)
  next
    case False
    then have "?b = points_b" by (simp only: resolved_points_b_def if_False)
    then show ?thesis using size False by (simp only: if_False)
  qed
  from calc_vsf_props_parallel_good[OF p dupb nom size' g0 add cf]
  obtain acc1 where a: "calc_vsf_props_parallel ops ?choice True OMP_NUM_THREADS points_a ?b
             (squared_bin_edges edges nbins) nbins parallel_spec fresh ?dup = Inr acc1"
    and g1: "good acc1"
    by blast
  from cpf[OF g1] obtain flt_vals where f: "copy_flt_vals_op ops acc1 out_flt_vals = Inr flt_vals"
    by blast
  from cpi[OF g1] obtain i64_vals where i: "copy_i64_vals_op ops acc1 out_i64_vals = Inr i64_vals"
    by blast
  have o: "openmp = True" using par(1) by simp
  have s: "(True \<and> nproc parallel_spec \<noteq> 1) = True" using par(2) by simp
  have "calc_vsf_props ops build_accum_collection openmp OMP_NUM_THREADS points_a points_b
             pairwise_op stat_list stat_list_len edges nbins parallel_spec out_flt_vals out_i64_vals
           = Inr (True, flt_vals, i64_vals)"
    unfolding calc_vsf_props_accepted[OF ok] calc_vsf_props_compute_unfold[OF edges] o
    by (simp only: s if_True build a f i bind_err.simps)
  with a g1 f i show ?thesis unfolding o by blast
qed

lemma CentralMomentAccum_consolidate_count:
  assumes "0 \<le> count a" "0 \<le> count b"
  shows "\<exists>a'. CentralMomentAccum_consolidate_with_other Order a b = Inr a' \<and> 0 \<le> count a'"
proof -
  consider "count a = 0" | "count a \<noteq> 0" "count b = 0"
    | "count a \<noteq> 0" "count b \<noteq> 0" "count a = 1"
    | "count a \<noteq> 0" "count b \<noteq> 0" "count a \<noteq> 1" "count b = 1"
    | "count a \<noteq> 0" "count b \<noteq> 0" "count a \<noteq> 1" "count b \<noteq> 1"
    by blast
  then show ?thesis
  proof cases
    case 1
    then show ?thesis using assms by (simp add: CentralMomentAccum_consolidate_with_other_def)
  next
    case 2
    then show ?thesis using assms by (simp add: CentralMomentAccum_consolidate_with_other_def)
  next
    case 3
    from CentralMomentAccum_add_entry_count[OF assms(2), of Order "moment_accums a ! LUT_mean"]
    show ?thesis using 3 assms by (auto simp add: CentralMomentAccum_consolidate_with_other_def)
  next
    case 4
    from CentralMomentAccum_add_entry_count[OF assms(1), of Order "moment_accums b ! LUT_mean"]
    show ?thesis using 4 assms by (auto simp add: CentralMomentAccum_consolidate_with_other_def)
  next
    case 5
    have "count a + count b \<noteq> 0" using 5 assms by linarith
    then show ?thesis
      using 5 assms by (simp add: CentralMomentAccum_consolidate_with_other_def Let_def)
  qed
qed

lemma scalar_consolidate_loop:
  assumes c: "\<And>a b. 0 \<le> count a \<Longrightarrow> 0 \<le> count b \<Longrightarrow>
                \<exists>a'. consolidate a b = Inr a' \<and> 0 \<le> count a'"
      and len: "length (accum_list other) = length (accum_list this)"
      and g: "\<forall>a \<in> set (accum_list this). 0 \<le> count a"
             "\<forall>a \<in> set (accum_list other). 0 \<le> count a"
      and n: "n \<le> length (accum_list this)"
  shows "\<exists>c'. fold (\<lambda>i r. bind_err r (\<lambda>c.
                   bind_err (consolidate (accum_list c ! i) (accum_list other ! i)) (\<lambda>a.
                   Inr (c\<lparr>accum_list := (accum_list c)[i := a]\<rparr>))))
                [0..<n] (Inr this) = Inr c' \<and>
              length (accum_list c') = length (accum_list this) \<and>
              (\<forall>a \<in> set (accum_list c'). 0 \<le> count a)"
  using n
proof (induction n)
  case 0
  show ?case using g by simp
next
  case (Suc n)
  then obtain c1 where
    f: "fold (\<lambda>i r. bind_err r (\<lambda>c.
                   bind_err (consolidate (accum_list c ! i) (accum_list other ! i)) (\<lambda>a.
                   Inr (c\<lparr>accum_list := (accum_list c)[i := a]\<rparr>))))
                [0..<n] (Inr this) = Inr c1"
    and l1: "length (accum_list c1) = length (accum_list this)"
    and g1: "\<forall>a \<in> set (accum_list c1). 0 \<le> count a"
    by auto
  have n: "n < length (accum_list c1)" "n < length (accum_list other)"
    using Suc.prems l1 len by simp_all
  then have "0 \<le> count (accum_list c1 ! n)" "0 \<le> count (accum_list other ! n)"
    using g1 g(2) by simp_all
  from c[OF this] obtain a' where
    a: "consolidate (accum_list c1 ! n) (accum_list other ! n) = Inr a'" "0 \<le> count a'"
    by blast
  have "\<forall>x \<in> set ((accum_list c1)[n := a']). 0 \<le> count x"
    using g1 a(2) by (auto dest!: subsetD[OF set_update_subset_insert])
  then show ?case
    using f a(1) l1 by simp
qed

lemma CentralMoment_ops_consolidate_abort_free:
  "consolidate_abort_free (CentralMoment_ops Order)
     (\<lambda>c. length (accum_list c) = nbins \<and> (\<forall>a \<in> set (accum_list c). 0 \<le> count a))"
  unfolding consolidate_abort_free_def
proof (intro allI impI)
  fix acc other :: "int ScalarAccumCollection"
  assume a: "(length (accum_list acc) = nbins \<and> (\<forall>a \<in> set (accum_list acc). 0 \<le> count a)) \<and>
             (length (accum_list other) = nbins \<and> (\<forall>a \<in> set (accum_list other). 0 \<le> count a))"
  then have len: "length (accum_list other) = length (accum_list acc)" by simp
  from scalar_consolidate_loop[where consolidate = "CentralMomentAccum_consolidate_with_other Order"
      and this = acc and other = other and n = "length (accum_list acc)",
      OF CentralMomentAccum_consolidate_count len] a
  show "\<exists>acc'. consolidate_with_other_op (CentralMoment_ops Order) acc other = Inr acc' \<and>
               length (accum_list acc') = nbins \<and> (\<forall>a \<in> set (accum_list acc'). 0 \<le> count a)"
    by (simp add: CentralMoment_ops_def ScalarAccumCollection_consolidate_with_other_def Let_def)
qed

section \<open>A parallel run on a histogram counts the same pairs as a serial run\<close>

lemma histogram_bin_and_add:
  "bin_and_add (add_entry_op Histogram_ops) dist_sqr_bin_edges nbins tmp h =
     Inr (case histogram_slot h dist_sqr_bin_edges nbins tmp of
            None \<Rightarrow> h
          | Some i \<Rightarrow> h\<lparr>bin_counts := (bin_counts h)[i := bin_counts h ! i + 1]\<rparr>)"
  by (simp add: bin_and_add_def histogram_slot_def Histogram_ops_def no_abort_def
      Histogram_add_entry_def Let_def)

lemma histogram_slot_cong:
  assumes "data_bin_edges h' = data_bin_edges h" "n_data_bins h' = n_data_bins h"
  shows "histogram_slot h' dist_sqr_bin_edges nbins tmp = histogram_slot h dist_sqr_bin_edges nbins tmp"
  unfolding histogram_slot_def assms ..

lemma histogram_accumulate_closed:
  "accumulate_pairs (add_entry_op Histogram_ops) choice points_a points_b dist_sqr_bin_edges nbins
     ps h =
   Inr (h\<lparr>bin_counts :=
          map (\<lambda>k. bin_counts h ! k +
                    int (length (filter
                      (\<lambda>p. histogram_slot h dist_sqr_bin_edges nbins
                             (pair_rslt_at choice
                                (the (positions points_a)) (the (values points_a))
                                (spatial_dim_stride points_a)
                                (the (positions points_b)) (the (values points_b))
                                (spatial_dim_stride points_b) p) = Some k) ps)))
              [0..<length (bin_counts h)]\<rparr>)"
proof (induction ps arbitrary: h)
  case Nil
  show ?case by (simp add: accumulate_pairs_Nil map_nth)
next
  case (Cons p ps)
  let ?R = "pair_rslt_at choice (the (positions points_a)) (the (values points_a))
              (spatial_dim_stride points_a)
              (the (positions points_b)) (the (values points_b))
              (spatial_dim_stride points_b)"
  let ?h1 = "case histogram_slot h dist_sqr_bin_edges nbins (?R p) of
               None \<Rightarrow> h
             | Some i \<Rightarrow> h\<lparr>bin_counts := (bin_counts h)[i := bin_counts h ! i + 1]\<rparr>"
  have shape: "data_bin_edges ?h1 = data_bin_edges h" "n_data_bins ?h1 = n_data_bins h"
      "length (bin_counts ?h1) = length (bin_counts h)"
    by (simp_all split: option.split)
  have rec: "?h1\<lparr>bin_counts := xs\<rparr> = h\<lparr>bin_counts := xs\<rparr>" for xs
    by (simp split: option.split)
  have nth: "bin_counts ?h1 ! k =
               bin_counts h ! k +
               (if histogram_slot h dist_sqr_bin_edges nbins (?R p) = Some k then 1 else 0)"
    if "k < length (bin_counts h)" for k
    using that by (simp add: nth_list_update split: option.split)
  have "accumulate_pairs (add_entry_op Histogram_ops) choice points_a points_b dist_sqr_bin_edges
          nbins (p # ps) h =
        accumulate_pairs (add_entry_op Histogram_ops) choice points_a points_b dist_sqr_bin_edges
          nbins ps ?h1"
    by (simp add: accumulate_pairs_Cons histogram_bin_and_add)
  also have "\<dots> = Inr (h\<lparr>bin_counts :=
          map (\<lambda>k. bin_counts ?h1 ! k +
                    int (length (filter
                      (\<lambda>p. histogram_slot h dist_sqr_bin_edges nbins (?R p) = Some k) ps)))
              [0..<length (bin_counts h)]\<rparr>)"
    unfolding Cons.IH histogram_slot_cong[OF shape(1,2)] shape(3) rec ..
  also have "map (\<lambda>k. bin_counts ?h1 ! k +
                    int (length (filter
                      (\<lambda>p. histogram_slot h dist_sqr_bin_edges nbins (?R p) = Some k) ps)))
              [0..<length (bin_counts h)] =
             map (\<lambda>k. bin_counts h ! k +
                    int (length (filter
                      (\<lambda>p. histogram_slot h dist_sqr_bin_edges nbins (?R p) = Some k) (p # ps))))
              [0..<length (bin_counts h)]"
    by (rule map_cong[OF refl]) (simp add: nth)
  finally show ?case .
qed

lemma histogram_accumulate_pairs:
  "accumulate_pairs (add_entry_op Histogram_ops) choice points_a points_b dist_sqr_bin_edges nbins
     ps h =
   Inr (histogram_of_pairs h choice points_a points_b dist_sqr_bin_edges nbins ps)"
  unfolding histogram_of_pairs_def by (rule histogram_accumulate_closed)

lemma histogram_of_pairs_shape:
  "n_spatial_bins (histogram_of_pairs h choice points_a points_b dist_sqr_bin_edges nbins ps)
     = n_spatial_bins h"
  "n_data_bins (histogram_of_pairs h choice points_a points_b dist_sqr_bin_edges nbins ps)
     = n_data_bins h"
  "data_bin_edges (histogram_of_pairs h choice points_a points_b dist_sqr_bin_edges nbins ps)
     = data_bin_edges h"
  "length (bin_counts (histogram_of_pairs h choice points_a points_b dist_sqr_bin_edges nbins ps))
     = length (bin_counts h)"
  "histogram_wf h \<Longrightarrow>
     histogram_wf (histogram_of_pairs h choice points_a points_b dist_sqr_bin_edges nbins ps)"
  by (simp_all add: histogram_of_pairs_def histogram_wf_def)

lemma map2_add_upt:
  "map2 (+) (map f [0..<n]) (map g [0..<n]) = map (\<lambda>k. f k + g k :: int) [0..<n]"
  by (rule nth_equalityI) simp_all

lemma histogram_of_pairs_append:
  assumes wf: "histogram_wf h" and z: "\<forall>c \<in> set (bin_counts h). c = 0"
  shows "GenericHistogramAccumCollection_consolidate_with_other
           (histogram_of_pairs h choice points_a points_b dist_sqr_bin_edges nbins ps)
           (histogram_of_pairs h choice points_a points_b dist_sqr_bin_edges nbins qs) =
         Inr (histogram_of_pairs h choice points_a points_b dist_sqr_bin_edges nbins (ps @ qs))"
proof -
  let ?P = "histogram_of_pairs h choice points_a points_b dist_sqr_bin_edges nbins ps"
  let ?Q = "histogram_of_pairs h choice points_a points_b dist_sqr_bin_edges nbins qs"
  define c where "c xs k = int (length (filter
                     (\<lambda>p. histogram_slot h dist_sqr_bin_edges nbins
                            (pair_rslt_at choice
                               (the (positions points_a)) (the (values points_a))
                               (spatial_dim_stride points_a)
                               (the (positions points_b)) (the (values points_b))
                               (spatial_dim_stride points_b) p) = Some k) xs))" for xs k
  have hp: "histogram_of_pairs h choice points_a points_b dist_sqr_bin_edges nbins xs =
              h\<lparr>bin_counts := map (\<lambda>k. bin_counts h ! k + c xs k) [0..<length (bin_counts h)]\<rparr>"
    for xs
    by (simp add: histogram_of_pairs_def c_def)
  have capp: "c (ps @ qs) k = c ps k + c qs k" for k
    by (simp add: c_def)
  have zero: "bin_counts h ! k = 0" if "k < length (bin_counts h)" for k
    using z that by simp
  have "GenericHistogramAccumCollection_consolidate_with_other ?P ?Q =
          Inr (?P\<lparr>bin_counts := map2 (+) (bin_counts ?P) (bin_counts ?Q)\<rparr>)"
    by (rule histogram_consolidate_map2)
       (simp_all add: histogram_of_pairs_shape wf)
  also have "?P\<lparr>bin_counts := map2 (+) (bin_counts ?P) (bin_counts ?Q)\<rparr> =
             h\<lparr>bin_counts := map (\<lambda>k. (bin_counts h ! k + c ps k) + (bin_counts h ! k + c qs k))
                                 [0..<length (bin_counts h)]\<rparr>"
    unfolding hp by (simp add: map2_add_upt)
  also have "map (\<lambda>k. (bin_counts h ! k + c ps k) + (bin_counts h ! k + c qs k))
                 [0..<length (bin_counts h)] =
             map (\<lambda>k. bin_counts h ! k + c (ps @ qs) k) [0..<length (bin_counts h)]"
    by (rule map_cong[OF refl]) (simp add: zero capp)
  finally show ?thesis unfolding hp .
qed

lemma histogram_workers_consolidate:
  assumes wf: "histogram_wf h" and z: "\<forall>c \<in> set (bin_counts h). c = 0"
  shows "fold (\<lambda>other r. bind_err r (\<lambda>acc. consolidate_with_other_op Histogram_ops acc other))
           (map (\<lambda>p. histogram_of_pairs h choice points_a points_b dist_sqr_bin_edges nbins (W p))
                [1..<Suc m])
           (Inr (histogram_of_pairs h choice points_a points_b dist_sqr_bin_edges nbins (W 0))) =
         Inr (histogram_of_pairs h choice points_a points_b dist_sqr_bin_edges nbins
                (concat (map W [0..<Suc m])))"
proof (induction m)
  case 0
  show ?case by simp
next
  case (Suc m)
  have u: "[1..<Suc (Suc m)] = [1..<Suc m] @ [Suc m]" by simp
  have c: "consolidate_with_other_op Histogram_ops =
             GenericHistogramAccumCollection_consolidate_with_other"
    by (simp add: Histogram_ops_def)
  show ?case
    unfolding u map_append fold_append comp_apply Suc.IH
    by (simp add: c histogram_of_pairs_append[OF wf z])
qed

lemma worker_pairs_concat:
  "concat (map (worker_pairs duplicated_points strat n) [0..<m]) =
     concat (map (task_pairs_at duplicated_points strat)
               [0..<chunk_start (n_partitions strat) n m])"
proof (induction m)
  case 0
  show ?case by (simp add: chunk_start_0)
next
  case (Suc m)
  have le: "chunk_start (n_partitions strat) n m \<le> chunk_start (n_partitions strat) n (Suc m)"
    by (rule chunk_start_mono) simp
  have "[0..<chunk_start (n_partitions strat) n (Suc m)] =
          [0..<chunk_start (n_partitions strat) n m] @
          [chunk_start (n_partitions strat) n m..<chunk_start (n_partitions strat) n (Suc m)]"
    using le upt_add_eq_append[of 0 "chunk_start (n_partitions strat) n m"
        "chunk_start (n_partitions strat) n (Suc m) - chunk_start (n_partitions strat) n m"]
    by simp
  then show ?case using Suc by (simp add: worker_pairs_def)
qed

lemma worker_pairs_all:
  assumes "0 < n"
  shows "concat (map (worker_pairs duplicated_points strat n) [0..<n]) =
           concat (map (task_pairs_at duplicated_points strat) [0..<n_partitions strat])"
  unfolding worker_pairs_concat chunk_start_full[OF assms] ..

lemma pair_indices_Suc:
  "pair_indices dup (Suc n) nb =
     pair_indices dup n nb @ map (Pair n) [(if dup then n + 1 else 0)..<nb]"
  by (simp add: pair_indices_def)

lemma distinct_pair_indices: "distinct (pair_indices dup na nb)"
proof (induction na)
  case 0
  show ?case by (simp add: pair_indices_def)
next
  case (Suc n)
  have "distinct (map (Pair n) [(if dup then n + 1 else 0)..<nb])"
    by (simp add: distinct_map inj_on_def)
  moreover have "set (pair_indices dup n nb) \<inter> set (map (Pair n) [(if dup then n + 1 else 0)..<nb]) = {}"
    by (auto simp add: set_pair_indices)
  ultimately show ?case using Suc by (simp add: pair_indices_Suc)
qed

lemma length_filter_distinct:
  assumes "distinct xs" "distinct ys" "set xs = set ys"
  shows "length (filter P xs) = length (filter P ys)"
proof -
  have d: "distinct (filter P xs)" "distinct (filter P ys)"
    using assms(1,2) by simp_all
  have "card (set (filter P xs)) = length (filter P xs)"
    by (rule distinct_card[OF d(1)])
  moreover have "card (set (filter P ys)) = length (filter P ys)"
    by (rule distinct_card[OF d(2)])
  moreover have "set (filter P xs) = set (filter P ys)" using assms(3) by simp
  ultimately show ?thesis by simp
qed

lemma inj_on_unordered:
  assumes "(\<forall>p \<in> X. fst p < snd p) \<or> (\<forall>p \<in> X. snd p < fst p)"
  shows "inj_on unordered X"
  using assms
  by (auto simp add: inj_on_def unordered_def min_def max_def split: if_splits)

lemma index_1D_of_inj:
  assumes "valid_index_2D strat p" "valid_index_2D strat q"
      and "index_1D_of strat p = index_1D_of strat q"
  shows "p = q"
proof (cases strat)
  case (AutoStrat s)
  obtain i j where p: "p = (i, j)" by (cases p)
  obtain i' j' where q: "q = (i', j')" by (cases q)
  let ?S = "num_segments s"
  let ?T = "\<lambda>n. \<Sum>r<n. ?S - r"
  from assms(1,2) have v: "i \<le> j" "j < ?S" "i' \<le> j'" "j' < ?S"
    by (simp_all add: valid_index_2D_def AutoStrat auto_indices_def p q)
  from assms(3) have e: "?T i + (j - i) = ?T i' + (j' - i')"
    by (simp add: index_1D_of_def AutoStrat p q)
  have row: "?T a + (b - a) < ?T (Suc a)" if "a \<le> b" "b < ?S" for a b
    using that by simp
  have "i = i'"
  proof (rule ccontr)
    assume ne: "i \<noteq> i'"
    show False
    proof (cases "i < i'")
      case True
      then have "?T (Suc i) \<le> ?T i'" by (intro tri_sum_mono) simp
      then show False using row[OF v(1,2)] e by simp
    next
      case False
      then have "Suc i' \<le> i" using ne by simp
      then have "?T (Suc i') \<le> ?T i" by (intro tri_sum_mono)
      then show False using row[OF v(3,4)] e by simp
    qed
  qed
  then show ?thesis using e v by (simp add: p q)
next
  case (CrossStrat s)
  obtain i j where p: "p = (i, j)" by (cases p)
  obtain i' j' where q: "q = (i', j')" by (cases q)
  from assms(1,2) have v: "j < num_segments_B s" "j' < num_segments_B s"
    by (simp_all add: valid_index_2D_def CrossStrat cross_indices_def p q)
  from assms(3) have e: "i * num_segments_B s + j = i' * num_segments_B s + j'"
    by (simp add: index_1D_of_def CrossStrat p q)
  have "(i * num_segments_B s + j) div num_segments_B s = i"
       "(i' * num_segments_B s + j') div num_segments_B s = i'"
       "(i * num_segments_B s + j) mod num_segments_B s = j"
       "(i' * num_segments_B s + j') mod num_segments_B s = j'"
    using v by simp_all
  then show ?thesis using e by (simp add: p q)
qed

lemma index_1D_of_bound:
  assumes "valid_index_2D strat p"
  shows "index_1D_of strat p < n_partitions strat"
proof (cases strat)
  case (AutoStrat s)
  then show ?thesis
    using assms index_1D_of_bound_auto[of "fst p" "snd p" s]
    by (simp add: valid_index_2D_def auto_indices_def case_prod_unfold)
next
  case (CrossStrat s)
  obtain i j where p: "p = (i, j)" by (cases p)
  from assms have v: "i < num_segments_A s" "j < num_segments_B s"
    by (simp_all add: valid_index_2D_def CrossStrat cross_indices_def p)
  have "i * num_segments_B s + j < Suc i * num_segments_B s" using v by simp
  also have "\<dots> \<le> num_segments_A s * num_segments_B s"
    using v(1) by (intro mult_le_mono1) simp
  finally show ?thesis by (simp add: CrossStrat index_1D_of_def n_partitions_def p)
qed

lemma index_2D_at_surj:
  assumes ok: "partition_ok strat" and v: "valid_index_2D strat p"
  shows "index_2D_at strat (index_1D_of strat p) = p"
proof -
  note b = index_1D_of_bound[OF v]
  note w = index_2D_at_valid[OF ok b]
  show ?thesis
    by (rule index_1D_of_inj[where strat = strat]) (use w v in simp_all)
qed

lemma distinct_concat_upt:
  assumes "\<And>k. k < m \<Longrightarrow> distinct (F k)"
      and "\<And>k k'. k < m \<Longrightarrow> k' < m \<Longrightarrow> k \<noteq> k' \<Longrightarrow> set (F k) \<inter> set (F k') = {}"
  shows "distinct (concat (map F [0..<m]))"
  using assms
proof (induction m)
  case 0
  show ?case by simp
next
  case (Suc m)
  have d: "distinct (concat (map F [0..<m]))"
    by (rule Suc.IH) (use Suc.prems in simp_all)
  have "set (F k) \<inter> set (F m) = {}" if "k < m" for k
    using Suc.prems(2)[of k m] that by simp
  then have "set (concat (map F [0..<m])) \<inter> set (F m) = {}"
    by fastforce
  then show ?case using d Suc.prems(1)[of m] by simp
qed

lemma distinct_task_pairs: "distinct (task_pairs dup t)"
  by (simp add: task_pairs_def distinct_map distinct_pair_indices inj_on_def case_prod_unfold
      prod_eq_iff)

lemma auto_task_canonical_set:
  "set (map unordered (task_pairs_at True (AutoStrat s) k)) =
     auto_task_pairs s (index_2D_at (AutoStrat s) k)"
  by (simp add: task_pairs_at_def auto_task_pairs_def build_StatTask_def split: sum.split)

lemma cross_task_canonical_set:
  "set (task_pairs_at False (CrossStrat s) k) =
     cross_task_pairs s (index_2D_at (CrossStrat s) k)"
  by (simp add: task_pairs_at_def cross_task_pairs_def build_StatTask_def split: sum.split)

lemma auto_task_canonical_distinct:
  assumes ok: "partition_ok (AutoStrat s)" and k: "k < n_partitions (AutoStrat s)"
  shows "distinct (map unordered (task_pairs_at True (AutoStrat s) k))"
proof -
  let ?S = "num_segments s" and ?N = "n_points s"
  let ?cs = "chunk_start (?N - 1) ?S"
  from ok have S: "1 \<le> ?S" "?S \<le> ?N - 1" by (simp_all add: partition_ok_def)
  obtain i j where ij: "index_2D_at (AutoStrat s) k = (i, j)"
    by (cases "index_2D_at (AutoStrat s) k")
  from index_2D_at_valid[OF ok k] have v: "i \<le> j" "j < ?S"
    by (simp_all add: valid_index_2D_def auto_indices_def ij)
  have mono: "?cs a \<le> ?cs b" if "a \<le> b" for a b
    using that by (rule chunk_start_mono)
  have strict: "?cs a < ?cs (Suc a)" for a
    by (rule chunk_start_strict) (use S in simp_all)
  show ?thesis
  proof (cases "i = j")
    case True
    let ?t = "\<lparr>start_A = ?cs i, stop_A = ?cs (Suc i) + 1, start_B = 0, stop_B = 0\<rparr>"
    have b: "build_StatTask_auto s (i, j) = Inr ?t"
      using build_StatTask_auto_ok[OF refl refl S(2) v(2), of i] True by simp
    have "set (task_pairs True ?t) = {(a, b). ?cs i \<le> a \<and> a < b \<and> b < ?cs (Suc i) + 1}"
      using set_task_pairs_triangle[of ?t] mono[of i "Suc i"] by simp
    then have "inj_on unordered (set (task_pairs True ?t))"
      by (intro inj_on_unordered) auto
    then show ?thesis
      by (simp add: task_pairs_at_def build_StatTask_def ij b distinct_map distinct_task_pairs)
  next
    case False
    then have lt: "i < j" using v(1) by simp
    let ?t = "\<lparr>start_A = ?cs j + 1, stop_A = ?cs (Suc j) + 1,
               start_B = ?cs i, stop_B = ?cs (Suc i)\<rparr>"
    have b: "build_StatTask_auto s (i, j) = Inr ?t"
      using build_StatTask_auto_ok[OF refl refl S(2) v(2), of i] False lt v(2) by simp
    have n: "\<not> (True \<and> start_B ?t = stop_B ?t \<and> stop_B ?t = 0)"
      using strict[of i] by simp
    have "set (task_pairs True ?t) =
            {(a, b). ?cs j + 1 \<le> a \<and> a < ?cs (Suc j) + 1 \<and> ?cs i \<le> b \<and> b < ?cs (Suc i)}"
      using set_task_pairs_rectangle[OF n] mono[of i "Suc i"] mono[of j "Suc j"] by simp
    moreover have "?cs (Suc i) \<le> ?cs j" using lt by (intro mono) simp
    ultimately have "inj_on unordered (set (task_pairs True ?t))"
      by (intro inj_on_unordered) auto
    then show ?thesis
      by (simp add: task_pairs_at_def build_StatTask_def ij b distinct_map distinct_task_pairs)
  qed
qed

lemma index_2D_at_image:
  assumes ok: "partition_ok strat"
  shows "index_2D_at strat ` {..<n_partitions strat} = {p. valid_index_2D strat p}"
proof (intro equalityI subsetI)
  fix p assume "p \<in> index_2D_at strat ` {..<n_partitions strat}"
  then obtain k where "k < n_partitions strat" "p = index_2D_at strat k" by auto
  then show "p \<in> {p. valid_index_2D strat p}"
    using index_2D_at_valid[OF ok, of k] by simp
next
  fix p assume "p \<in> {p. valid_index_2D strat p}"
  then have v: "valid_index_2D strat p" by simp
  have "index_1D_of strat p \<in> {..<n_partitions strat}"
    using index_1D_of_bound[OF v] by simp
  moreover have "p = index_2D_at strat (index_1D_of strat p)"
    using index_2D_at_surj[OF ok v] by simp
  ultimately show "p \<in> index_2D_at strat ` {..<n_partitions strat}" by (rule image_eqI[rotated])
qed

lemma index_2D_at_distinct:
  assumes ok: "partition_ok strat"
      and k: "k < n_partitions strat" "k' < n_partitions strat" "k \<noteq> k'"
  shows "index_2D_at strat k \<noteq> index_2D_at strat k'"
  using index_2D_at_valid[OF ok k(1)] index_2D_at_valid[OF ok k(2)] k(3) by metis

lemma set_concat_upt: "set (concat (map F [0..<n])) = (\<Union>k \<in> {..<n}. set (F k))"
  by auto

lemma auto_all_pairs:
  assumes ok: "partition_ok (AutoStrat s)"
  shows "distinct (map unordered
           (concat (map (task_pairs_at True (AutoStrat s)) [0..<n_partitions (AutoStrat s)])))"
    and "set (map unordered
           (concat (map (task_pairs_at True (AutoStrat s)) [0..<n_partitions (AutoStrat s)]))) =
         set (pair_indices True (n_points s) (n_points s))"
proof -
  let ?n = "n_partitions (AutoStrat s)"
  let ?F = "\<lambda>k. map unordered (task_pairs_at True (AutoStrat s) k)"
  from ok have S: "1 \<le> num_segments s" "num_segments s \<le> n_points s - 1"
    by (simp_all add: partition_ok_def)
  have eq: "map unordered (concat (map (task_pairs_at True (AutoStrat s)) [0..<?n])) =
            concat (map ?F [0..<?n])"
    by (simp add: map_concat comp_def)
  have idx: "index_2D_at (AutoStrat s) k \<in> auto_indices s" if "k < ?n" for k
    using index_2D_at_valid[OF ok that] by (simp add: valid_index_2D_def)
  have disj: "set (?F k) \<inter> set (?F k') = {}" if "k < ?n" "k' < ?n" "k \<noteq> k'" for k k'
    unfolding auto_task_canonical_set
    by (rule auto_tasks_disjoint[OF S(2) idx[OF that(1)] idx[OF that(2)]])
       (rule index_2D_at_distinct[OF ok that])
  show "distinct (map unordered
           (concat (map (task_pairs_at True (AutoStrat s)) [0..<?n])))"
    unfolding eq
  proof (rule distinct_concat_upt)
    fix k assume "k < ?n"
    then show "distinct (?F k)" by (rule auto_task_canonical_distinct[OF ok])
  next
    fix k k' assume "k < ?n" "k' < ?n" "k \<noteq> k'"
    then show "set (?F k) \<inter> set (?F k') = {}" by (rule disj)
  qed
  have "set (concat (map ?F [0..<?n])) =
          (\<Union>k \<in> {..<?n}. auto_task_pairs s (index_2D_at (AutoStrat s) k))"
    unfolding set_concat_upt auto_task_canonical_set ..
  also have "\<dots> = (\<Union>p \<in> index_2D_at (AutoStrat s) ` {..<?n}. auto_task_pairs s p)"
    by simp
  also have "index_2D_at (AutoStrat s) ` {..<?n} = auto_indices s"
    unfolding index_2D_at_image[OF ok] by (auto simp add: valid_index_2D_def)
  also have "(\<Union>p \<in> auto_indices s. auto_task_pairs s p) = {(p, q). p < q \<and> q < n_points s}"
    by (rule auto_tasks_cover[OF S(2,1)])
  also have "\<dots> = set (pair_indices True (n_points s) (n_points s))"
    by (auto simp add: set_pair_indices)
  finally show "set (map unordered
           (concat (map (task_pairs_at True (AutoStrat s)) [0..<?n]))) =
         set (pair_indices True (n_points s) (n_points s))"
    unfolding eq .
qed

lemma cross_all_pairs:
  assumes ok: "partition_ok (CrossStrat s)"
  shows "distinct (concat (map (task_pairs_at False (CrossStrat s))
                              [0..<n_partitions (CrossStrat s)]))"
    and "set (concat (map (task_pairs_at False (CrossStrat s))
                         [0..<n_partitions (CrossStrat s)])) =
         set (pair_indices False (n_points_A s) (n_points_B s))"
proof -
  let ?n = "n_partitions (CrossStrat s)"
  let ?F = "task_pairs_at False (CrossStrat s)"
  from ok have S: "num_segments_A s \<le> n_points_A s" "num_segments_B s \<le> n_points_B s"
      "1 \<le> num_segments_A s" "1 \<le> num_segments_B s"
    by (simp_all add: partition_ok_def valid_cross_strategy_def)
  have idx: "index_2D_at (CrossStrat s) k \<in> cross_indices s" if "k < ?n" for k
    using index_2D_at_valid[OF ok that] by (simp add: valid_index_2D_def)
  have disj: "set (?F k) \<inter> set (?F k') = {}" if "k < ?n" "k' < ?n" "k \<noteq> k'" for k k'
    unfolding cross_task_canonical_set
    by (rule cross_tasks_disjoint[OF S(1,2) idx[OF that(1)] idx[OF that(2)]])
       (rule index_2D_at_distinct[OF ok that])
  have d: "distinct (?F k)" for k
    by (simp add: task_pairs_at_def distinct_task_pairs split: sum.split)
  show "distinct (concat (map ?F [0..<?n]))"
  proof (rule distinct_concat_upt)
    fix k show "distinct (?F k)" by (rule d)
  next
    fix k k' assume "k < ?n" "k' < ?n" "k \<noteq> k'"
    then show "set (?F k) \<inter> set (?F k') = {}" by (rule disj)
  qed
  have "set (concat (map ?F [0..<?n])) =
          (\<Union>k \<in> {..<?n}. cross_task_pairs s (index_2D_at (CrossStrat s) k))"
    unfolding set_concat_upt cross_task_canonical_set ..
  also have "\<dots> = (\<Union>p \<in> index_2D_at (CrossStrat s) ` {..<?n}. cross_task_pairs s p)"
    by simp
  also have "index_2D_at (CrossStrat s) ` {..<?n} = cross_indices s"
    unfolding index_2D_at_image[OF ok] by (auto simp add: valid_index_2D_def)
  also have "(\<Union>p \<in> cross_indices s. cross_task_pairs s p) =
               {(a, b). a < n_points_A s \<and> b < n_points_B s}"
    by (rule cross_tasks_cover[OF S])
  also have "\<dots> = set (pair_indices False (n_points_A s) (n_points_B s))"
    by (auto simp add: set_pair_indices)
  finally show "set (concat (map ?F [0..<?n])) =
         set (pair_indices False (n_points_A s) (n_points_B s))" .
qed

lemma calc_dist_sqr_sym:
  "calc_dist_sqr x0 x1 y0 y1 z0 z1 = calc_dist_sqr x1 x0 y1 y0 z1 z0"
  by (simp add: calc_dist_sqr_def Let_def algebra_simps)

lemma pair_rslt_at_swap:
  "pair_rslt_at choice pos val stride pos val stride (j, i) =
   pair_rslt_at choice pos val stride pos val stride (i, j)"
  by (cases choice)
     (simp_all add: pair_rslt_at_def Let_def calc_dist_sqr_sym[of "pos j"]
        calc_dist_sqr_sym[of "val j"] mult.commute)

lemma pair_rslt_at_unordered:
  "pair_rslt_at choice pos val stride pos val stride (unordered p) =
   pair_rslt_at choice pos val stride pos val stride p"
proof (cases "fst p \<le> snd p")
  case True
  then have "unordered p = p" by (simp add: unordered_def min_def max_def)
  then show ?thesis by simp
next
  case False
  then have "unordered p = (snd p, fst p)" by (simp add: unordered_def min_def max_def)
  then show ?thesis using pair_rslt_at_swap[of choice pos val stride "snd p" "fst p"] by simp
qed

lemma length_filter_all_pairs:
  fixes Q :: "nat \<times> nat \<Rightarrow> bool"
  assumes ok: "partition_ok strat"
      and m: "case strat of
                AutoStrat s \<Rightarrow> duplicated_points \<and> n_points s = n_a
              | CrossStrat s \<Rightarrow> \<not> duplicated_points \<and> n_points_A s = n_a \<and> n_points_B s = n_b"
      and dup: "duplicated_points \<longrightarrow> n_b = n_a"
      and sym: "\<And>p. duplicated_points \<Longrightarrow> Q (unordered p) = Q p"
  shows "length (filter Q (concat (map (task_pairs_at duplicated_points strat)
                                       [0..<n_partitions strat]))) =
         length (filter Q (pair_indices duplicated_points n_a n_b))"
proof (cases strat)
  case (AutoStrat s)
  with m have d: "duplicated_points" and n: "n_points s = n_a" by simp_all
  let ?all = "concat (map (task_pairs_at True (AutoStrat s)) [0..<n_partitions (AutoStrat s)])"
  note a = auto_all_pairs[OF ok[unfolded AutoStrat]]
  have "length (filter Q ?all) = length (filter (Q \<circ> unordered) ?all)"
    by (rule arg_cong[where f = length], rule filter_cong[OF refl]) (simp add: sym[OF d])
  also have "\<dots> = length (filter Q (map unordered ?all))"
    by (simp add: length_filter_map)
  also have "\<dots> = length (filter Q (pair_indices True (n_points s) (n_points s)))"
    by (rule length_filter_distinct[OF a(1) distinct_pair_indices a(2)])
  finally show ?thesis using d n dup by (simp add: AutoStrat)
next
  case (CrossStrat s)
  with m have d: "\<not> duplicated_points" and n: "n_points_A s = n_a" "n_points_B s = n_b"
    by simp_all
  note a = cross_all_pairs[OF ok[unfolded CrossStrat]]
  have "length (filter Q (concat (map (task_pairs_at False (CrossStrat s))
                                     [0..<n_partitions (CrossStrat s)]))) =
        length (filter Q (pair_indices False (n_points_A s) (n_points_B s)))"
    by (rule length_filter_distinct[OF a(1) distinct_pair_indices a(2)])
  then show ?thesis using d n by (simp add: CrossStrat)
qed

lemma calc_vsf_props_parallel_histogram:
  assumes pa: "positions points_a \<noteq> None" "values points_a \<noteq> None"
      and pb: "positions points_b \<noteq> None" "values points_b \<noteq> None"
      and dup: "duplicated_points \<longrightarrow> points_b = points_a"
      and nom: "get_nominal_nproc parallel_spec OMP_NUM_THREADS = Inr np"
      and size: "if duplicated_points then 2 \<le> n_points_pp points_a \<and> np \<le> 60
                 else 1 \<le> n_points_pp points_a \<and> 1 \<le> n_points_pp points_b"
      and wf: "histogram_wf h" and z: "\<forall>c \<in> set (bin_counts h). c = 0"
  shows "calc_vsf_props_parallel Histogram_ops choice True OMP_NUM_THREADS points_a points_b
           dist_sqr_bin_edges nbins parallel_spec h duplicated_points =
         accumulate_pairs (add_entry_op Histogram_ops) choice points_a points_b dist_sqr_bin_edges
           nbins
           (pair_indices duplicated_points (n_points_pp points_a) (n_points_pp points_b)) h"
proof -
  note np = get_nominal_nproc_pos[OF nom]
  from TaskItFactory_init_ok[OF np size, of False]
  obtain strat where
    fac: "TaskItFactory_init np (n_points_pp points_a)
            (if duplicated_points then 0 else n_points_pp points_b) False =
          Inr \<lparr>nproc_factory = np, partition_strat_factory = strat\<rparr>"
    and ok: "partition_ok strat"
    and m: "case strat of
              AutoStrat s \<Rightarrow> duplicated_points \<and> n_points s = n_points_pp points_a
            | CrossStrat s \<Rightarrow> \<not> duplicated_points \<and> n_points_A s = n_points_pp points_a \<and>
                             n_points_B s = n_points_pp points_b"
    by blast
  let ?n = "effective_nproc \<lparr>nproc_factory = np, partition_strat_factory = strat\<rparr>"
  let ?HP = "histogram_of_pairs h choice points_a points_b dist_sqr_bin_edges nbins"
  let ?W = "worker_pairs duplicated_points strat ?n"
  let ?R = "pair_rslt_at choice (the (positions points_a)) (the (values points_a))
              (spatial_dim_stride points_a)
              (the (positions points_b)) (the (values points_b))
              (spatial_dim_stride points_b)"
  note b = effective_nproc_bounds[OF ok np]
  obtain k where n: "?n = Suc k" using b(1) by (cases ?n) simp_all
  have "calc_vsf_props_parallel Histogram_ops choice True OMP_NUM_THREADS points_a points_b
           dist_sqr_bin_edges nbins parallel_spec h duplicated_points =
         fold (\<lambda>other r. bind_err r (\<lambda>acc. consolidate_with_other_op Histogram_ops acc other))
           (map (\<lambda>p. ?HP (?W p)) [1..<?n]) (Inr (?HP (?W 0)))"
    by (rule calc_vsf_props_parallel_workers[OF pa pb dup nom fac ok])
       (rule histogram_accumulate_pairs)
  also have "\<dots> = Inr (?HP (concat (map ?W [0..<?n])))"
    unfolding n by (rule histogram_workers_consolidate[OF wf z])
  also have "concat (map ?W [0..<?n]) =
               concat (map (task_pairs_at duplicated_points strat) [0..<n_partitions strat])"
    by (rule worker_pairs_all) (use b(1) in simp)
  also have "?HP (concat (map (task_pairs_at duplicated_points strat) [0..<n_partitions strat])) =
             ?HP (pair_indices duplicated_points (n_points_pp points_a) (n_points_pp points_b))"
  proof -
    have sym: "(histogram_slot h dist_sqr_bin_edges nbins (?R (unordered p)) = Some j) =
               (histogram_slot h dist_sqr_bin_edges nbins (?R p) = Some j)"
      if "duplicated_points" for p j
      using that dup by (simp add: pair_rslt_at_unordered)
    have "length (filter (\<lambda>p. histogram_slot h dist_sqr_bin_edges nbins (?R p) = Some j)
                    (concat (map (task_pairs_at duplicated_points strat)
                               [0..<n_partitions strat]))) =
          length (filter (\<lambda>p. histogram_slot h dist_sqr_bin_edges nbins (?R p) = Some j)
                    (pair_indices duplicated_points (n_points_pp points_a)
                       (n_points_pp points_b)))" for j
      by (rule length_filter_all_pairs[OF ok m]) (use dup sym in simp_all)
    then show ?thesis unfolding histogram_of_pairs_def by simp
  qed
  finally show ?thesis unfolding histogram_accumulate_pairs .
qed

lemma calc_vsf_props_parallel_histogram_run:
  assumes ok: "\<not> spec_rejects points_a points_b pairwise_op nbins"
      and par: "openmp" "nproc parallel_spec \<noteq> 1"
      and ptrs: "positions points_b = None \<longleftrightarrow> values points_b = None"
      and edges: "nbins + 1 \<le> length edges"
      and nom: "get_nominal_nproc parallel_spec OMP_NUM_THREADS = Inr np"
      and size: "if positions points_b = None \<and> values points_b = None
                 then 2 \<le> n_points_pp points_a \<and> np \<le> 60
                 else 1 \<le> n_points_pp points_a \<and> 1 \<le> n_points_pp points_b"
      and build: "build_histogram stat_list stat_list_len nbins = Inr hist"
      and wf: "histogram_wf hist" "n_spatial_bins hist = nbins"
      and z: "\<forall>c \<in> set (bin_counts hist). c = 0"
  shows "\<exists>acc1 flt_vals i64_vals.
           accumulate_pairs (add_entry_op Histogram_ops)
             (if pairwise_op = ''correlate'' then correlate else vec_diff)
             points_a (resolved_points_b points_a points_b) (squared_bin_edges edges nbins) nbins
             (pair_indices (positions points_b = None \<and> values points_b = None)
                (n_points_pp points_a) (n_points_pp (resolved_points_b points_a points_b)))
             hist = Inr acc1 \<and>
           copy_flt_vals_op Histogram_ops acc1 out_flt_vals = Inr flt_vals \<and>
           copy_i64_vals_op Histogram_ops acc1 out_i64_vals = Inr i64_vals \<and>
           calc_vsf_props Histogram_ops build_histogram openmp OMP_NUM_THREADS points_a points_b
             pairwise_op stat_list stat_list_len edges nbins parallel_spec out_flt_vals out_i64_vals
           = Inr (True, flt_vals, i64_vals)"
proof -
  let ?dup = "positions points_b = None \<and> values points_b = None"
  let ?b = "resolved_points_b points_a points_b"
  let ?choice = "if pairwise_op = ''correlate'' then correlate else vec_diff"
  let ?good = "\<lambda>x :: int GenericHistogramAccumCollection.
                 histogram_wf x \<and> n_spatial_bins x = nbins \<and> n_data_bins x = n_data_bins hist"
  note p = resolved_points_b_pointers[OF ok ptrs]
  have dupb: "?dup \<longrightarrow> ?b = points_a" by (simp add: resolved_points_b_def)
  have size': "if ?dup then 2 \<le> n_points_pp points_a \<and> np \<le> 60
               else 1 \<le> n_points_pp points_a \<and> 1 \<le> n_points_pp ?b"
  proof (cases ?dup)
    case True
    then show ?thesis using size by (simp del: One_nat_def)
  next
    case False
    then have "?b = points_b" by (simp only: resolved_points_b_def if_False)
    then show ?thesis using size False by (simp only: if_False)
  qed
  have g: "?good hist" using wf by simp
  from calc_vsf_props_parallel_run[where good = ?good and ops = Histogram_ops
      and build_accum_collection = build_histogram and fresh = hist
      and out_flt_vals = out_flt_vals and out_i64_vals = out_i64_vals,
      OF ok par ptrs edges nom size build g Histogram_ops_shape_abort_free
        Histogram_ops_consolidate_abort_free]
  obtain acc1 flt_vals i64_vals where
    r: "calc_vsf_props_parallel Histogram_ops ?choice openmp OMP_NUM_THREADS points_a ?b
          (squared_bin_edges edges nbins) nbins parallel_spec hist ?dup = Inr acc1"
       "copy_flt_vals_op Histogram_ops acc1 out_flt_vals = Inr flt_vals"
       "copy_i64_vals_op Histogram_ops acc1 out_i64_vals = Inr i64_vals"
       "calc_vsf_props Histogram_ops build_histogram openmp OMP_NUM_THREADS points_a points_b
          pairwise_op stat_list stat_list_len edges nbins parallel_spec out_flt_vals out_i64_vals
        = Inr (True, flt_vals, i64_vals)"
    by blast
  have o: "openmp = True" using par(1) by simp
  note e = calc_vsf_props_parallel_histogram[OF p dupb nom size' wf(1) z,
      of ?choice "squared_bin_edges edges nbins" nbins]
  from r(1) have "accumulate_pairs (add_entry_op Histogram_ops) ?choice points_a ?b
      (squared_bin_edges edges nbins) nbins
      (pair_indices ?dup (n_points_pp points_a) (n_points_pp ?b)) hist = Inr acc1"
    unfolding o e .
  with r(2,3,4) show ?thesis by blast
qed

section \<open>The return value of the entry point\<close>









end
